(* ===== verification/Prelude.thy ===== *)
theory Prelude
  imports Main "HOL-Library.Word" "HOL-Library.Monad_Syntax"
begin

unbundle bit_operations_syntax

text \<open>
  Shared vocabulary of the development: the machine integers of the MIPS target, the error
  codes of \<^verbatim>\<open>kern/include/kern/errno.h\<close>, the panic monad and the generic facts on lists,
  options and words that the component theories use.

  A kernel operation has the type \<open>'a kp\<close>, that is \<open>'a option\<close>: \<open>None\<close> is a kernel that
  stopped (a failed \<^verbatim>\<open>KASSERT\<close>, a call of \<^verbatim>\<open>panic\<close>, or an access outside an object, which C
  leaves undefined), \<open>Some x\<close> an operation that returned. An operation that returns an error code
  has the result type \<open>errno + 'a\<close>: \<open>Inl e\<close> is the error code, \<open>Inr x\<close> the return
  value 0 with what the out-parameters hold. State is passed explicitly, so an operation that
  fails still hands back the state it leaves behind.
\<close>

type_synonym u8 = "8 word"
type_synonym u16 = "16 word"
type_synonym u32 = "32 word"
type_synonym u64 = "64 word"

type_synonym 'a kp = "'a option"

datatype errno =
    ENOSYS | ENOMEM | EAGAIN | EINTR | EFAULT | ENAMETOOLONG | EINVAL | EPERM | EACCES
  | EMPROC | ENPROC | ENOEXEC | E2BIG | ESRCH | ECHILD | ENOTDIR | EISDIR | ENOENT | ELOOP
  | ENOTEMPTY | EEXIST | EMLINK | EXDEV | ENODEV | ENXIO | EBUSY | EMFILE | ENFILE | EBADF
  | EIOCTL | EIO | ESPIPE | EPIPE | EROFS | ENOSPC | EDQUOT | EFBIG | EFTYPE | EDOM | ERANGE

named_theorems op_defs \<open>definitions of kernel operations, unfolded by the component proofs\<close>
named_theorems wf_intros \<open>an operation keeps the well-formedness invariant of its component\<close>

subsection \<open>The panic monad\<close>

text \<open>\<^verbatim>\<open>KASSERT\<close>: the kernel goes on only if the condition holds.\<close>

definition kassert :: "bool \<Rightarrow> unit kp" where
  "kassert b = (if b then Some () else None)"

text \<open>Reading and writing an array cell; outside the array there is no defined behaviour.\<close>

definition rd :: "'a list \<Rightarrow> nat \<Rightarrow> 'a kp" where
  "rd xs i = (if i < length xs then Some (xs ! i) else None)"

definition wr :: "'a list \<Rightarrow> nat \<Rightarrow> 'a \<Rightarrow> 'a list kp" where
  "wr xs i x = (if i < length xs then Some (xs[i := x]) else None)"

lemma kassert_bind [simp]: "Option.bind (kassert b) f = (if b then f () else None)"
  by (simp add: kassert_def)

lemma kassert_eq_Some [simp]: "kassert b = Some u \<longleftrightarrow> b"
  by (cases u) (simp add: kassert_def)

lemma kassert_eq_None [simp]: "kassert b = None \<longleftrightarrow> \<not> b"
  by (simp add: kassert_def)

lemma rd_Some [simp]: "i < length xs \<Longrightarrow> rd xs i = Some (xs ! i)"
  by (simp add: rd_def)

lemma wr_Some [simp]: "i < length xs \<Longrightarrow> wr xs i x = Some (xs[i := x])"
  by (simp add: wr_def)

lemma rd_eq_Some_conv: "rd xs i = Some x \<longleftrightarrow> i < length xs \<and> x = xs ! i"
  by (auto simp: rd_def)

lemma wr_eq_Some_conv: "wr xs i x = Some ys \<longleftrightarrow> i < length xs \<and> ys = xs[i := x]"
  by (auto simp: wr_def)

lemmas kp_conv = Option.bind_eq_Some_conv rd_eq_Some_conv wr_eq_Some_conv

subsection \<open>Unsigned arithmetic\<close>

text \<open>\<^verbatim>\<open>DIVROUNDUP\<close> of \<^verbatim>\<open>kern/include/lib.h\<close>, on \<^verbatim>\<open>unsigned\<close>: the addition wraps.\<close>

definition DIVROUNDUP :: "u32 \<Rightarrow> u32 \<Rightarrow> u32" where
  "DIVROUNDUP a b = (a + b - 1) div b"

lemma unat_DIVROUNDUP:
  assumes "unat a + unat b - 1 < 2 ^ 32" "0 < unat b"
  shows "unat (DIVROUNDUP a b) = (unat a + unat b - 1) div unat b"
proof -
  have b1: "unat (b - 1) = unat b - 1"
    using assms(2) by (intro unat_minus_one) auto
  have "unat (a + (b - 1)) = unat a + unat (b - 1)"
    using assms by (intro unat_add_lem [THEN iffD1]) (simp add: b1)
  then have "unat (a + b - 1) = unat a + unat b - 1"
    using assms(2) by (simp add: b1 add_diff_eq)
  then show ?thesis
    by (simp add: DIVROUNDUP_def unat_div)
qed

lemma unat_plus_one_less:
  fixes x y :: "'a::len word"
  assumes "x < y"
  shows "unat (x + 1) = unat x + 1"
proof -
  have "unat x < unat y" "unat y < 2 ^ LENGTH('a)"
    using assms by (simp_all add: word_less_nat_alt)
  then have "unat x + 1 < 2 ^ LENGTH('a)"
    by linarith
  then have "unat x + unat (1::'a word) < 2 ^ LENGTH('a)"
    by simp
  then have "unat (x + 1) = unat x + unat (1::'a word)"
    by (rule unat_add_lem [THEN iffD1])
  then show ?thesis
    by simp
qed

lemma unat_eq_unat_iff [simp]: "unat x = unat y \<longleftrightarrow> x = y" for x y :: "'a::len word"
  by (simp add: word_unat_eq_iff)

lemma unat_of_nat_id: "k < 2 ^ LENGTH('a::len) \<Longrightarrow> unat (of_nat k :: 'a word) = k"
  by (simp add: unat_of_nat)

lemma unat_of_nat_less: "k < unat w \<Longrightarrow> unat (of_nat k :: 'a word) = k" for w :: "'a::len word"
  by (rule unat_of_nat_id) (rule less_trans [OF _ unsigned_less])

lemma word_and_mask_eq_0 [simp]: "w AND 2 ^ k = 0 \<longleftrightarrow> \<not> bit w k" for w :: "'a::len word"
proof
  assume *: "w AND 2 ^ k = 0"
  show "\<not> bit w k"
  proof
    assume "bit w k"
    moreover from this have "k < LENGTH('a)" by (rule bit_imp_le_length)
    ultimately have "bit (w AND 2 ^ k) k" by (simp add: bit_simps)
    with * show False by simp
  qed
next
  assume "\<not> bit w k"
  then show "w AND 2 ^ k = 0"
    by (intro bit_eqI) (auto simp: bit_simps)
qed

lemma bit_or_mask [simp]:
  "bit (w OR 2 ^ k) i \<longleftrightarrow> bit w i \<or> (i = k \<and> k < LENGTH('a))" for w :: "'a::len word"
  by (auto simp: bit_simps)

lemma bit_and_not_mask [simp]:
  "bit (w AND NOT (2 ^ k)) i \<longleftrightarrow> bit w i \<and> i \<noteq> k" for w :: "'a::len word"
  by (auto simp: bit_simps dest: bit_imp_le_length)

subsection \<open>Lists\<close>

lemma nth_list_update_if: "i < length xs \<Longrightarrow> xs[i := x] ! j = (if i = j then x else xs ! j)"
  by simp

end
