(* ===== verification/Threadlist.thy ===== *)
theory Threadlist
  imports Prelude
begin

text \<open>
  The doubly linked thread lists of \<^verbatim>\<open>kern/thread/threadlist.c\<close> (structures in
  \<^verbatim>\<open>kern/include/threadlist.h\<close>). A list has two sentinel nodes inside its header; every thread has one
  node. The heap of nodes is explicit, because the code updates neighbours through pointers: a node
  address is the head or tail sentinel of a list or the node of a thread, \<^verbatim>\<open>NULL\<close> is \<open>None\<close>,
  and following \<^verbatim>\<open>NULL\<close> stops the kernel. The theory shows that the heap operations implement
  the obvious operations on lists of threads, for any number of disjoint lists at once.
\<close>

subsection \<open>The heap of list nodes\<close>

type_synonym tid = nat

text \<open>The list headers are embedded in other structures: the run queue and the zombie list of each
  cpu, the sleepers of each wait channel, and lists on the stack of the code a cpu executes.\<close>

datatype lid = Runqueue nat | Zombies nat | Wchan nat | Local nat

datatype node = Head lid | Tail lid | Node tid

record tlheap =
  tln_next :: "node \<Rightarrow> node option"
  tln_prev :: "node \<Rightarrow> node option"
  tln_self :: "node \<Rightarrow> tid option"
  tl_count :: "lid \<Rightarrow> u32"

definition set_next :: "node \<Rightarrow> node option \<Rightarrow> tlheap \<Rightarrow> tlheap" where
  "set_next n p h = h\<lparr>tln_next := (tln_next h)(n := p)\<rparr>"

definition set_prev :: "node \<Rightarrow> node option \<Rightarrow> tlheap \<Rightarrow> tlheap" where
  "set_prev n p h = h\<lparr>tln_prev := (tln_prev h)(n := p)\<rparr>"

definition set_self :: "node \<Rightarrow> tid option \<Rightarrow> tlheap \<Rightarrow> tlheap" where
  "set_self n t h = h\<lparr>tln_self := (tln_self h)(n := t)\<rparr>"

definition set_count :: "lid \<Rightarrow> u32 \<Rightarrow> tlheap \<Rightarrow> tlheap" where
  "set_count l c h = h\<lparr>tl_count := (tl_count h)(l := c)\<rparr>"

subsection \<open>Operations\<close>

definition threadlistnode_init :: "node \<Rightarrow> tid option \<Rightarrow> tlheap \<Rightarrow> tlheap kp" where
  "threadlistnode_init tln t h = do {
     kassert (t \<noteq> None);
     Some (set_self tln t (set_prev tln None (set_next tln None h)))
   }"

definition threadlistnode_cleanup :: "node \<Rightarrow> tlheap \<Rightarrow> unit kp" where
  "threadlistnode_cleanup tln h = do {
     kassert (tln_next h tln = None);
     kassert (tln_prev h tln = None);
     kassert (tln_self h tln \<noteq> None)
   }"

definition threadlist_init :: "lid \<Rightarrow> tlheap \<Rightarrow> tlheap" where
  "threadlist_init l h =
     set_count l 0 (set_self (Tail l) None (set_self (Head l) None
       (set_prev (Tail l) (Some (Head l)) (set_next (Tail l) None
         (set_prev (Head l) None (set_next (Head l) (Some (Tail l)) h))))))"

definition threadlist_isempty :: "lid \<Rightarrow> tlheap \<Rightarrow> bool" where
  "threadlist_isempty l h = (tl_count h l = 0)"

definition threadlist_cleanup :: "lid \<Rightarrow> tlheap \<Rightarrow> unit kp" where
  "threadlist_cleanup l h = do {
     kassert (threadlist_isempty l h);
     kassert (tl_count h l = 0)
   }"

definition threadlist_insertafternode :: "node \<Rightarrow> tid \<Rightarrow> tlheap \<Rightarrow> tlheap kp" where
  "threadlist_insertafternode onlist t h =
     (let addee = Node t;
          h1 = set_prev addee (Some onlist) h;
          h2 = set_next addee (tln_next h1 onlist) h1 in
      do {
        p \<leftarrow> tln_prev h2 addee;
        let h3 = set_next p (Some addee) h2;
        n \<leftarrow> tln_next h3 addee;
        Some (set_prev n (Some addee) h3)
      })"

definition threadlist_insertbeforenode :: "tid \<Rightarrow> node \<Rightarrow> tlheap \<Rightarrow> tlheap kp" where
  "threadlist_insertbeforenode t onlist h =
     (let addee = Node t;
          h1 = set_prev addee (tln_prev h onlist) h;
          h2 = set_next addee (Some onlist) h1 in
      do {
        p \<leftarrow> tln_prev h2 addee;
        let h3 = set_next p (Some addee) h2;
        n \<leftarrow> tln_next h3 addee;
        Some (set_prev n (Some addee) h3)
      })"

definition threadlist_removenode :: "node \<Rightarrow> tlheap \<Rightarrow> tlheap kp" where
  "threadlist_removenode tln h = do {
     p \<leftarrow> tln_prev h tln;
     let h1 = set_next p (tln_next h tln) h;
     n \<leftarrow> tln_next h1 tln;
     let h2 = set_prev n (tln_prev h1 tln) h1;
     Some (set_next tln None (set_prev tln None h2))
   }"

definition threadlist_addhead :: "lid \<Rightarrow> tid \<Rightarrow> tlheap \<Rightarrow> tlheap kp" where
  "threadlist_addhead l t h = do {
     h1 \<leftarrow> threadlist_insertafternode (Head l) t h;
     Some (set_count l (tl_count h1 l + 1) h1)
   }"

definition threadlist_addtail :: "lid \<Rightarrow> tid \<Rightarrow> tlheap \<Rightarrow> tlheap kp" where
  "threadlist_addtail l t h = do {
     h1 \<leftarrow> threadlist_insertbeforenode t (Tail l) h;
     Some (set_count l (tl_count h1 l + 1) h1)
   }"

definition threadlist_remhead :: "lid \<Rightarrow> tlheap \<Rightarrow> (tid option \<times> tlheap) kp" where
  "threadlist_remhead l h = do {
     tln \<leftarrow> tln_next h (Head l);
     if tln_next h tln = None then Some (None, h)
     else do {
       h1 \<leftarrow> threadlist_removenode tln h;
       let h2 = set_count l (tl_count h1 l - 1) h1;
       Some (tln_self h2 tln, h2)
     }
   }"

definition threadlist_remtail :: "lid \<Rightarrow> tlheap \<Rightarrow> (tid option \<times> tlheap) kp" where
  "threadlist_remtail l h = do {
     tln \<leftarrow> tln_prev h (Tail l);
     if tln_prev h tln = None then Some (None, h)
     else do {
       h1 \<leftarrow> threadlist_removenode tln h;
       let h2 = set_count l (tl_count h1 l - 1) h1;
       Some (tln_self h2 tln, h2)
     }
   }"

definition threadlist_insertafter :: "lid \<Rightarrow> tid \<Rightarrow> tid \<Rightarrow> tlheap \<Rightarrow> tlheap kp" where
  "threadlist_insertafter l onlist addee h = do {
     h1 \<leftarrow> threadlist_insertafternode (Node onlist) addee h;
     Some (set_count l (tl_count h1 l + 1) h1)
   }"

definition threadlist_insertbefore :: "lid \<Rightarrow> tid \<Rightarrow> tid \<Rightarrow> tlheap \<Rightarrow> tlheap kp" where
  "threadlist_insertbefore l addee onlist h = do {
     h1 \<leftarrow> threadlist_insertbeforenode addee (Node onlist) h;
     Some (set_count l (tl_count h1 l + 1) h1)
   }"

definition threadlist_remove :: "lid \<Rightarrow> tid \<Rightarrow> tlheap \<Rightarrow> tlheap kp" where
  "threadlist_remove l t h = do {
     h1 \<leftarrow> threadlist_removenode (Node t) h;
     Some (set_count l (tl_count h1 l - 1) h1)
   }"

lemmas tl_set_simps [simp] = set_next_def set_prev_def set_self_def set_count_def

subsection \<open>Doubly linked segments\<close>

text \<open>\<open>links h ns\<close>: neighbours in \<open>ns\<close> point at each other.\<close>

fun links :: "tlheap \<Rightarrow> node list \<Rightarrow> bool" where
  "links h (a # b # ns) = (tln_next h a = Some b \<and> tln_prev h b = Some a \<and> links h (b # ns))"
| "links h ns = True"

lemma links_split:
  "links h (xs @ p # c # ys) \<longleftrightarrow>
     links h (xs @ [p]) \<and> tln_next h p = Some c \<and> tln_prev h c = Some p \<and> links h (c # ys)"
  by (induction h xs rule: links.induct) auto

lemma links_frame:
  assumes "links h ns"
    and "\<And>n. n \<in> set (butlast ns) \<Longrightarrow> tln_next h' n = tln_next h n"
    and "\<And>n. n \<in> set (tl ns) \<Longrightarrow> tln_prev h' n = tln_prev h n"
  shows "links h' ns"
  using assms by (induction h ns rule: links.induct) (auto split: if_splits)

text \<open>Inserting \<open>n\<close> between the neighbours \<open>p\<close> and \<open>c\<close>, and taking it out again.\<close>

lemma links_insert:
  assumes "links h (xs @ p # c # ys)" "distinct (xs @ p # c # ys)" "n \<notin> set (xs @ p # c # ys)"
    and h': "tln_next h' = (tln_next h)(n := Some c, p := Some n)"
      "tln_prev h' = (tln_prev h)(n := Some p, c := Some n)"
  shows "links h' (xs @ p # n # c # ys)"
proof -
  have "links h' (xs @ [p])"
    using assms(1-3) unfolding links_split
    by (elim conjE, elim links_frame) (auto simp: h' butlast_append tl_append split: list.splits)
  moreover have "links h' (c # ys)"
    using assms(1-3) unfolding links_split
    by (elim conjE, elim links_frame [of h "c # ys"]) (auto simp: h' dest: in_set_butlastD split: if_splits)
  moreover have "links h' (n # c # ys)"
    using calculation(2) assms(2,3) by (auto simp: h')
  ultimately show ?thesis
    using assms(2,3) by (subst links_split) (auto simp: h')
qed

lemma links_remove:
  assumes "links h (xs @ p # n # c # ys)" "distinct (xs @ p # n # c # ys)"
    and h': "tln_next h' = (tln_next h)(p := Some c, n := None)"
      "tln_prev h' = (tln_prev h)(c := Some p, n := None)"
  shows "links h' (xs @ p # c # ys)"
proof -
  have l: "links h (xs @ [p])" "links h (c # ys)"
    using assms(1) links_split [of h xs p n "c # ys"] links_split [of h "[]" n c ys] by auto
  have "links h' (xs @ [p])"
    using assms(2) l(1)
    by (elim links_frame) (auto simp: h' butlast_append tl_append split: list.splits)
  moreover have "links h' (c # ys)"
    using assms(2) l(2)
    by (elim links_frame) (auto simp: h' dest: in_set_butlastD split: if_splits)
  ultimately show ?thesis
    using assms(2) by (subst links_split) (auto simp: h')
qed

subsection \<open>The lists in a heap\<close>

definition spine :: "lid \<Rightarrow> tid list \<Rightarrow> node list" where
  "spine l xs = Head l # map Node xs @ [Tail l]"

definition tl_rep :: "tlheap \<Rightarrow> lid \<Rightarrow> tid list \<Rightarrow> bool" where
  "tl_rep h l xs \<longleftrightarrow> links h (spine l xs) \<and> distinct xs \<and>
     tln_prev h (Head l) = None \<and> tln_next h (Tail l) = None \<and>
     tl_count h l = of_nat (length xs)"

text \<open>
  \<open>lists_inv h T L Q\<close>: the heap \<open>h\<close> holds the initialised threads \<open>T\<close> and the
  lists \<open>L\<close>; list \<open>l\<close> holds the threads \<open>Q l\<close> in this order; no thread is on two lists;
  a thread on no list has a cleared node. There are fewer than $2^{32}$ threads.
\<close>

definition lists_inv :: "tlheap \<Rightarrow> tid set \<Rightarrow> lid set \<Rightarrow> (lid \<Rightarrow> tid list) \<Rightarrow> bool" where
  "lists_inv h T L Q \<longleftrightarrow> finite T \<and> card T < 2 ^ 32 \<and>
     (\<forall>l \<in> L. tl_rep h l (Q l) \<and> set (Q l) \<subseteq> T) \<and>
     (\<forall>l \<in> L. \<forall>l' \<in> L. l \<noteq> l' \<longrightarrow> set (Q l) \<inter> set (Q l') = {}) \<and>
     (\<forall>t \<in> T. tln_self h (Node t) = Some t) \<and>
     (\<forall>t \<in> T. (\<forall>l \<in> L. t \<notin> set (Q l)) \<longrightarrow> tln_next h (Node t) = None \<and> tln_prev h (Node t) = None)"

definition on_no_list :: "tid set \<Rightarrow> lid set \<Rightarrow> (lid \<Rightarrow> tid list) \<Rightarrow> tid \<Rightarrow> bool" where
  "on_no_list T L Q t \<longleftrightarrow> t \<in> T \<and> (\<forall>l \<in> L. t \<notin> set (Q l))"

lemma distinct_spine: "distinct xs \<Longrightarrow> distinct (spine l xs)"
  by (auto simp: spine_def distinct_map inj_on_def)

lemma spine_append: "spine l (us @ vs) = (Head l # map Node us) @ map Node vs @ [Tail l]"
  by (simp add: spine_def)

lemma tl_rep_frame:
  assumes "tl_rep h l xs" "tl_count h' l = tl_count h l"
    and "\<And>n. n \<in> set (spine l xs) \<Longrightarrow> tln_next h' n = tln_next h n \<and> tln_prev h' n = tln_prev h n"
  shows "tl_rep h' l xs"
proof -
  have "links h' (spine l xs)"
  proof (rule links_frame)
    show "links h (spine l xs)" using assms(1) by (simp add: tl_rep_def)
  qed (use assms(3) in \<open>auto dest: in_set_butlastD list.set_sel(2) [rotated] simp: spine_def\<close>)
  then show ?thesis
    using assms by (simp add: tl_rep_def spine_def)
qed

lemma lists_inv_rep: "lists_inv h T L Q \<Longrightarrow> l \<in> L \<Longrightarrow> tl_rep h l (Q l)"
  and lists_inv_sub: "lists_inv h T L Q \<Longrightarrow> l \<in> L \<Longrightarrow> set (Q l) \<subseteq> T"
  and lists_inv_disj: "lists_inv h T L Q \<Longrightarrow> l \<in> L \<Longrightarrow> m \<in> L \<Longrightarrow> m \<noteq> l \<Longrightarrow> set (Q m) \<inter> set (Q l) = {}"
  and lists_inv_free: "lists_inv h T L Q \<Longrightarrow> s \<in> T \<Longrightarrow> (\<And>l. l \<in> L \<Longrightarrow> s \<notin> set (Q l)) \<Longrightarrow>
    tln_next h (Node s) = None \<and> tln_prev h (Node s) = None"
  unfolding lists_inv_def by simp_all

text \<open>Changing one list: what has to be shown of the new heap.\<close>

lemma lists_inv_update:
  assumes inv: "lists_inv h T L Q" and l: "l \<in> L" and rep: "tl_rep h' l xs" and sub: "set xs \<subseteq> T"
    and disj: "\<And>m. m \<in> L \<Longrightarrow> m \<noteq> l \<Longrightarrow> set (Q m) \<inter> set xs = {}"
    and frame: "\<And>n. n \<notin> set (spine l (Q l)) \<Longrightarrow> n \<notin> Node ` set xs \<Longrightarrow>
      tln_next h' n = tln_next h n \<and> tln_prev h' n = tln_prev h n"
    and gone: "\<And>s. s \<in> set (Q l) \<Longrightarrow> s \<notin> set xs \<Longrightarrow>
      tln_next h' (Node s) = None \<and> tln_prev h' (Node s) = None"
    and same: "tln_self h' = tln_self h" "\<And>m. m \<noteq> l \<Longrightarrow> tl_count h' m = tl_count h m"
  shows "lists_inv h' T L (Q(l := xs))"
proof -
  have "tl_rep h' m (Q m)" if m: "m \<in> L" "m \<noteq> l" for m
  proof (rule tl_rep_frame [OF lists_inv_rep [OF inv m(1)] same(2) [OF m(2)]])
    fix n assume "n \<in> set (spine m (Q m))"
    then have "n \<notin> set (spine l (Q l))" "n \<notin> Node ` set xs"
      using lists_inv_disj [OF inv l m] disj [OF m] m(2) by (auto simp: spine_def)
    then show "tln_next h' n = tln_next h n \<and> tln_prev h' n = tln_prev h n" by (rule frame)
  qed
  moreover have free: "tln_next h' (Node s) = None \<and> tln_prev h' (Node s) = None"
    if s: "s \<in> T" "s \<notin> set xs" "\<And>m. m \<in> L \<Longrightarrow> m \<noteq> l \<Longrightarrow> s \<notin> set (Q m)" for s
  proof (cases "s \<in> set (Q l)")
    case False
    then have "tln_next h (Node s) = None \<and> tln_prev h (Node s) = None"
      using lists_inv_free [OF inv s(1)] s(3) by blast
    then show ?thesis using frame [of "Node s"] False s(2) by (auto simp: spine_def)
  qed (rule gone [OF _ s(2)])
  moreover have "set ((Q(l := xs)) a) \<inter> set ((Q(l := xs)) b) = {}" if "a \<in> L" "b \<in> L" "a \<noteq> b" for a b
    using that disj [of a] disj [of b] lists_inv_disj [OF inv that(1,2)] by (auto split: if_splits)
  moreover have "tln_next h' (Node s) = None \<and> tln_prev h' (Node s) = None"
    if "s \<in> T" "\<forall>m \<in> L. s \<notin> set ((Q(l := xs)) m)" for s
    using that l by (intro free) (auto split: if_splits)
  ultimately show ?thesis
    using inv rep sub same(1) unfolding lists_inv_def by simp
qed

text \<open>One step of insertion and one of removal carry the whole invariant.\<close>

lemma lists_inv_insert:
  assumes inv: "lists_inv h T L Q" and l: "l \<in> L" and Q: "Q l = us @ vs" and t: "on_no_list T L Q t"
    and p: "p = last (Head l # map Node us)" and c: "c = hd (map Node vs @ [Tail l])"
    and h': "tln_next h' = (tln_next h)(Node t := Some c, p := Some (Node t))"
      "tln_prev h' = (tln_prev h)(Node t := Some p, c := Some (Node t))"
      "tln_self h' = tln_self h" "tl_count h' = (tl_count h)(l := tl_count h l + 1)"
  shows "lists_inv h' T L (Q(l := us @ t # vs))"
proof -
  have rep: "tl_rep h l (us @ vs)" and tT: "t \<in> T" "t \<notin> set (us @ vs)"
    using lists_inv_rep [OF inv l] t l by (auto simp: Q on_no_list_def)
  obtain xs where xs: "Head l # map Node us = xs @ [p]"
    using p by (metis append_butlast_last_id list.distinct(1))
  obtain ys where ys: "map Node vs @ [Tail l] = c # ys"
    using c by (metis append_is_Nil_conv hd_Cons_tl list.distinct(1))
  have sp: "spine l (us @ vs) = xs @ p # c # ys" "spine l (us @ t # vs) = xs @ p # Node t # c # ys"
    using xs ys by (simp_all add: spine_append)
  have pc: "p \<in> set (spine l (us @ vs))" "c \<in> set (spine l (us @ vs))"
    by (simp_all add: sp)
  have nt: "Node t \<notin> set (spine l (us @ vs))"
    using tT by (auto simp: spine_def)
  have d: "distinct (spine l (us @ vs))"
    using rep by (intro distinct_spine) (simp add: tl_rep_def)
  have "links h' (spine l (us @ t # vs))"
    unfolding sp
    by (rule links_insert [where h = h]) (use rep d nt h' in \<open>simp_all add: tl_rep_def sp\<close>)
  moreover have "p \<in> set (Head l # map Node us)" "c \<in> set (map Node vs @ [Tail l])"
    unfolding xs ys by simp_all
  then have "c \<noteq> Head l" "p \<noteq> Tail l" by auto
  ultimately have repl: "tl_rep h' l (us @ t # vs)"
    using rep tT h' by (auto simp: tl_rep_def)
  have ne: "p \<in> set (spine l (Q l))" "c \<in> set (spine l (Q l))"
    using pc by (simp_all add: Q)
  show ?thesis
  proof (rule lists_inv_update [OF inv l repl])
    show "set (us @ t # vs) \<subseteq> T"
      using lists_inv_sub [OF inv l] tT Q by simp
    show "set (Q m) \<inter> set (us @ t # vs) = {}" if "m \<in> L" "m \<noteq> l" for m
      using lists_inv_disj [OF inv l that] t that(1) Q by (auto simp: on_no_list_def)
  qed (use ne h' Q in auto)
qed

lemma lists_inv_remove:
  assumes inv: "lists_inv h T L Q" and l: "l \<in> L" and Q: "Q l = us @ t # vs"
    and p: "p = last (Head l # map Node us)" and c: "c = hd (map Node vs @ [Tail l])"
    and h': "tln_next h' = (tln_next h)(p := Some c, Node t := None)"
      "tln_prev h' = (tln_prev h)(c := Some p, Node t := None)"
      "tln_self h' = tln_self h" "tl_count h' = (tl_count h)(l := tl_count h l - 1)"
  shows "lists_inv h' T L (Q(l := us @ vs))"
proof -
  have rep: "tl_rep h l (us @ t # vs)"
    using lists_inv_rep [OF inv l] by (simp add: Q)
  then have tT: "t \<notin> set (us @ vs)"
    by (auto simp: tl_rep_def)
  obtain xs where xs: "Head l # map Node us = xs @ [p]"
    using p by (metis append_butlast_last_id list.distinct(1))
  obtain ys where ys: "map Node vs @ [Tail l] = c # ys"
    using c by (metis append_is_Nil_conv hd_Cons_tl list.distinct(1))
  have sp: "spine l (us @ vs) = xs @ p # c # ys" "spine l (us @ t # vs) = xs @ p # Node t # c # ys"
    using xs ys by (simp_all add: spine_append)
  have pc: "p \<in> set (spine l (us @ vs))" "c \<in> set (spine l (us @ vs))"
    by (simp_all add: sp)
  have d: "distinct (spine l (us @ t # vs))"
    using rep by (intro distinct_spine) (simp add: tl_rep_def)
  have "links h' (spine l (us @ vs))"
    unfolding sp
    by (rule links_remove [where h = h and n = "Node t"]) (use rep d h' in \<open>simp_all add: tl_rep_def sp\<close>)
  moreover have "p \<in> set (Head l # map Node us)" "c \<in> set (map Node vs @ [Tail l])"
    unfolding xs ys by simp_all
  then have "c \<noteq> Head l" "p \<noteq> Tail l" by auto
  ultimately have repl: "tl_rep h' l (us @ vs)"
    using rep tT h' by (auto simp: tl_rep_def)
  have ne: "p \<in> set (spine l (Q l))" "c \<in> set (spine l (Q l))"
    by (simp_all add: Q sp)
  have nt: "Node t \<in> set (spine l (Q l))"
    by (simp add: Q spine_def)
  show ?thesis
  proof (rule lists_inv_update [OF inv l repl])
    show "set (us @ vs) \<subseteq> T"
      using lists_inv_sub [OF inv l] Q by simp
    show "set (Q m) \<inter> set (us @ vs) = {}" if "m \<in> L" "m \<noteq> l" for m
      using lists_inv_disj [OF inv l that] Q by auto
  qed (use ne nt h' Q in auto)
qed

lemma lists_inv_adjacent:
  assumes "lists_inv h T L Q" "l \<in> L" "Q l = us @ vs"
  shows "tln_next h (last (Head l # map Node us)) = Some (hd (map Node vs @ [Tail l]))"
    "tln_prev h (hd (map Node vs @ [Tail l])) = Some (last (Head l # map Node us))"
proof -
  define p c where "p = last (Head l # map Node us)" and "c = hd (map Node vs @ [Tail l])"
  obtain xs where xs: "Head l # map Node us = xs @ [p]"
    unfolding p_def by (metis append_butlast_last_id list.distinct(1))
  obtain ys where ys: "map Node vs @ [Tail l] = c # ys"
    unfolding c_def by (metis append_is_Nil_conv hd_Cons_tl list.distinct(1))
  have "links h (spine l (us @ vs))"
    using lists_inv_rep [OF assms(1,2)] by (simp add: assms(3) tl_rep_def)
  then have "links h (xs @ p # c # ys)"
    using xs ys by (simp add: spine_append)
  then show "tln_next h p = Some c" "tln_prev h c = Some p"
    by (simp_all add: links_split)
qed

lemma lists_inv_ends:
  assumes "lists_inv h T L Q" "l \<in> L"
  shows "tln_prev h (Head l) = None" "tln_next h (Tail l) = None"
  using lists_inv_rep [OF assms] by (simp_all add: tl_rep_def)

subsection \<open>The primitive updates\<close>

lemma insertafternode_eq:
  assumes "tln_next h p = Some c" "p \<noteq> Node t"
  shows "threadlist_insertafternode p t h = Some (h\<lparr>
    tln_next := (tln_next h)(Node t := Some c, p := Some (Node t)),
    tln_prev := (tln_prev h)(Node t := Some p, c := Some (Node t))\<rparr>)"
  using assms by (simp add: threadlist_insertafternode_def Let_def)

lemma insertbeforenode_eq:
  assumes "tln_prev h c = Some p" "p \<noteq> Node t"
  shows "threadlist_insertbeforenode t c h = Some (h\<lparr>
    tln_next := (tln_next h)(Node t := Some c, p := Some (Node t)),
    tln_prev := (tln_prev h)(Node t := Some p, c := Some (Node t))\<rparr>)"
  using assms by (simp add: threadlist_insertbeforenode_def Let_def)

lemma removenode_eq:
  assumes "tln_prev h n = Some p" "tln_next h n = Some c" "p \<noteq> n" "c \<noteq> n"
  shows "threadlist_removenode n h = Some (h\<lparr>
    tln_next := (tln_next h)(p := Some c, n := None),
    tln_prev := (tln_prev h)(c := Some p, n := None)\<rparr>)"
  using assms by (simp add: threadlist_removenode_def Let_def)

lemma lists_inv_distinct: "lists_inv h T L Q \<Longrightarrow> l \<in> L \<Longrightarrow> distinct (Q l)"
  by (simp add: lists_inv_def tl_rep_def)

lemma lists_inv_self: "lists_inv h T L Q \<Longrightarrow> l \<in> L \<Longrightarrow> t \<in> set (Q l) \<Longrightarrow> tln_self h (Node t) = Some t"
  unfolding lists_inv_def by blast

text \<open>The heap after linking the node of \<open>t\<close> in between \<open>p\<close> and \<open>c\<close>, and after unlinking it.\<close>

definition tl_ins :: "lid \<Rightarrow> node \<Rightarrow> node \<Rightarrow> tid \<Rightarrow> tlheap \<Rightarrow> tlheap" where
  "tl_ins l p c t h = h\<lparr>
     tln_next := (tln_next h)(Node t := Some c, p := Some (Node t)),
     tln_prev := (tln_prev h)(Node t := Some p, c := Some (Node t)),
     tl_count := (tl_count h)(l := tl_count h l + 1)\<rparr>"

definition tl_del :: "lid \<Rightarrow> node \<Rightarrow> node \<Rightarrow> tid \<Rightarrow> tlheap \<Rightarrow> tlheap" where
  "tl_del l p c t h = h\<lparr>
     tln_next := (tln_next h)(p := Some c, Node t := None),
     tln_prev := (tln_prev h)(c := Some p, Node t := None),
     tl_count := (tl_count h)(l := tl_count h l - 1)\<rparr>"

lemma lists_inv_gap:
  assumes "lists_inv h T L Q" "l \<in> L" "Q l = us @ vs" "on_no_list T L Q t"
  obtains p c where "tln_next h p = Some c" "tln_prev h c = Some p" "p \<noteq> Node t"
    "p = (if us = [] then Head l else Node (last us))" "c = (if vs = [] then Tail l else Node (hd vs))"
    "lists_inv (tl_ins l p c t h) T L (Q(l := us @ t # vs))"
proof -
  let ?p = "last (Head l # map Node us)" and ?c = "hd (map Node vs @ [Tail l])"
  have p: "?p = (if us = [] then Head l else Node (last us))"
    by (simp add: last_map)
  have c: "?c = (if vs = [] then Tail l else Node (hd vs))"
    by (cases vs) simp_all
  have "?p \<noteq> Node t"
    using assms(2-4) by (cases us rule: rev_cases) (auto simp: on_no_list_def)
  moreover have "lists_inv (tl_ins l ?p ?c t h) T L (Q(l := us @ t # vs))"
    by (rule lists_inv_insert [OF assms refl refl]) (simp_all add: tl_ins_def)
  ultimately show thesis
    by (rule that [OF lists_inv_adjacent [OF assms(1-3)] _ p c])
qed

lemma lists_inv_node:
  assumes "lists_inv h T L Q" "l \<in> L" "Q l = us @ t # vs"
  obtains p c where "tln_prev h (Node t) = Some p" "tln_next h (Node t) = Some c"
    "p \<noteq> Node t" "c \<noteq> Node t" "tln_next h p = Some (Node t)" "tln_prev h c = Some (Node t)"
    "p = (if us = [] then Head l else Node (last us))" "c = (if vs = [] then Tail l else Node (hd vs))"
    "lists_inv (tl_del l p c t h) T L (Q(l := us @ vs))"
proof -
  let ?p = "last (Head l # map Node us)" and ?c = "hd (map Node vs @ [Tail l])"
  have p: "?p = (if us = [] then Head l else Node (last us))"
    by (simp add: last_map)
  have c: "?c = (if vs = [] then Tail l else Node (hd vs))"
    by (cases vs) simp_all
  have d: "distinct (us @ t # vs)"
    using lists_inv_distinct [OF assms(1,2)] by (simp add: assms(3))
  have Q: "Q l = (us @ [t]) @ vs" by (simp add: assms(3))
  have prev: "tln_prev h (Node t) = Some ?p" "tln_next h ?p = Some (Node t)"
    using lists_inv_adjacent [OF assms] by simp_all
  have nxt: "tln_next h (Node t) = Some ?c" "tln_prev h ?c = Some (Node t)"
    using lists_inv_adjacent [OF assms(1,2) Q] by simp_all
  have "?p \<noteq> Node t" "?c \<noteq> Node t"
    unfolding p c using d by (auto dest: last_in_set hd_in_set)
  moreover have "lists_inv (tl_del l ?p ?c t h) T L (Q(l := us @ vs))"
    by (rule lists_inv_remove [OF assms refl refl]) (simp_all add: tl_del_def)
  ultimately show thesis
    using that prev nxt p c by blast
qed

subsection \<open>The operations refine operations on lists\<close>

lemma addtail_refines:
  assumes "lists_inv h T L Q" "l \<in> L" "on_no_list T L Q t"
  shows "\<exists>h'. threadlist_addtail l t h = Some h' \<and> lists_inv h' T L (Q(l := Q l @ [t]))"
proof -
  obtain p c where g: "tln_prev h c = Some p" "p \<noteq> Node t" "c = Tail l"
    "lists_inv (tl_ins l p c t h) T L (Q(l := Q l @ [t]))"
    using lists_inv_gap [OF assms(1,2) _ assms(3), of "Q l" "[]"] by auto
  then have "threadlist_addtail l t h = Some (tl_ins l p c t h)"
    by (simp add: threadlist_addtail_def insertbeforenode_eq tl_ins_def)
  with g show ?thesis by blast
qed

lemma addhead_refines:
  assumes "lists_inv h T L Q" "l \<in> L" "on_no_list T L Q t"
  shows "\<exists>h'. threadlist_addhead l t h = Some h' \<and> lists_inv h' T L (Q(l := t # Q l))"
proof -
  obtain p c where g: "tln_next h p = Some c" "p \<noteq> Node t" "p = Head l"
    "lists_inv (tl_ins l p c t h) T L (Q(l := t # Q l))"
    using lists_inv_gap [OF assms(1,2) _ assms(3), of "[]" "Q l"] by auto
  then have "threadlist_addhead l t h = Some (tl_ins l p c t h)"
    by (simp add: threadlist_addhead_def insertafternode_eq tl_ins_def)
  with g show ?thesis by blast
qed

lemma insertafter_refines:
  assumes "lists_inv h T L Q" "l \<in> L" "Q l = us @ x # vs" "on_no_list T L Q t"
  shows "\<exists>h'. threadlist_insertafter l x t h = Some h' \<and> lists_inv h' T L (Q(l := us @ x # t # vs))"
proof -
  obtain p c where g: "tln_next h p = Some c" "p \<noteq> Node t" "p = Node x"
    "lists_inv (tl_ins l p c t h) T L (Q(l := us @ x # t # vs))"
    using lists_inv_gap [OF assms(1,2) _ assms(4), of "us @ [x]" vs] assms(3) by auto
  then have "threadlist_insertafter l x t h = Some (tl_ins l p c t h)"
    by (simp add: threadlist_insertafter_def insertafternode_eq tl_ins_def)
  with g show ?thesis by blast
qed

lemma insertbefore_refines:
  assumes "lists_inv h T L Q" "l \<in> L" "Q l = us @ x # vs" "on_no_list T L Q t"
  shows "\<exists>h'. threadlist_insertbefore l t x h = Some h' \<and> lists_inv h' T L (Q(l := us @ t # x # vs))"
proof -
  obtain p c where g: "tln_prev h c = Some p" "p \<noteq> Node t" "c = Node x"
    "lists_inv (tl_ins l p c t h) T L (Q(l := us @ t # x # vs))"
    using lists_inv_gap [OF assms(1-4)] by auto
  then have "threadlist_insertbefore l t x h = Some (tl_ins l p c t h)"
    by (simp add: threadlist_insertbefore_def insertbeforenode_eq tl_ins_def)
  with g show ?thesis by blast
qed

lemma remove_refines:
  assumes "lists_inv h T L Q" "l \<in> L" "Q l = us @ t # vs"
  shows "\<exists>h'. threadlist_remove l t h = Some h' \<and> lists_inv h' T L (Q(l := us @ vs))"
proof -
  obtain p c where g: "tln_prev h (Node t) = Some p" "tln_next h (Node t) = Some c" "p \<noteq> Node t" "c \<noteq> Node t"
    "lists_inv (tl_del l p c t h) T L (Q(l := us @ vs))"
    using lists_inv_node [OF assms] by blast
  then have "threadlist_remove l t h = Some (tl_del l p c t h)"
    by (simp add: threadlist_remove_def removenode_eq tl_del_def)
  with g show ?thesis by blast
qed

lemma remhead_empty:
  assumes "lists_inv h T L Q" "l \<in> L" "Q l = []"
  shows "threadlist_remhead l h = Some (None, h)"
  using lists_inv_adjacent(1) [OF assms(1,2), of "[]" "[]"] lists_inv_ends [OF assms(1,2)] assms(3)
  by (simp add: threadlist_remhead_def)

lemma remhead_refines:
  assumes "lists_inv h T L Q" "l \<in> L" "Q l = t # vs"
  shows "\<exists>h'. threadlist_remhead l h = Some (Some t, h') \<and> lists_inv h' T L (Q(l := vs))"
proof -
  obtain p c where g: "tln_prev h (Node t) = Some p" "tln_next h (Node t) = Some c" "p \<noteq> Node t" "c \<noteq> Node t"
    "tln_next h p = Some (Node t)" "p = Head l" "lists_inv (tl_del l p c t h) T L (Q(l := vs))"
    using lists_inv_node [OF assms(1,2), of "[]" t vs] assms(3) by auto
  have "tln_self h (Node t) = Some t"
    using lists_inv_self [OF assms(1,2)] assms(3) by simp
  with g have "threadlist_remhead l h = Some (Some t, tl_del l p c t h)"
    by (simp add: threadlist_remhead_def removenode_eq tl_del_def)
  with g show ?thesis by blast
qed

lemma remtail_empty:
  assumes "lists_inv h T L Q" "l \<in> L" "Q l = []"
  shows "threadlist_remtail l h = Some (None, h)"
  using lists_inv_adjacent(2) [OF assms(1,2), of "[]" "[]"] lists_inv_ends [OF assms(1,2)] assms(3)
  by (simp add: threadlist_remtail_def)

lemma remtail_refines:
  assumes "lists_inv h T L Q" "l \<in> L" "Q l = us @ [t]"
  shows "\<exists>h'. threadlist_remtail l h = Some (Some t, h') \<and> lists_inv h' T L (Q(l := us))"
proof -
  obtain p c where g: "tln_prev h (Node t) = Some p" "tln_next h (Node t) = Some c" "p \<noteq> Node t" "c \<noteq> Node t"
    "tln_prev h c = Some (Node t)" "c = Tail l" "lists_inv (tl_del l p c t h) T L (Q(l := us))"
    using lists_inv_node [OF assms] by auto
  have "tln_self h (Node t) = Some t"
    using lists_inv_self [OF assms(1,2)] assms(3) by simp
  with g have "threadlist_remtail l h = Some (Some t, tl_del l p c t h)"
    by (simp add: threadlist_remtail_def removenode_eq tl_del_def)
  with g show ?thesis by blast
qed

lemma isempty_refines:
  assumes "lists_inv h T L Q" "l \<in> L"
  shows "threadlist_isempty l h \<longleftrightarrow> Q l = []"
proof -
  have "tl_count h l = of_nat (length (Q l))" "distinct (Q l)" "set (Q l) \<subseteq> T" "finite T" "card T < 2 ^ 32"
    using assms by (auto simp: lists_inv_def tl_rep_def)
  moreover from this have "length (Q l) < 2 ^ 32"
    by (metis card_mono distinct_card le_less_trans)
  ultimately show ?thesis
    by (simp add: threadlist_isempty_def word_unat_eq_iff [where 'a = 32] unat_of_nat_id del: unat_eq_unat_iff)
qed

lemma lists_inv_init:
  assumes "lists_inv h T L Q" "l \<notin> L"
  shows "lists_inv (threadlist_init l h) T (insert l L) (Q(l := []))"
proof -
  have "tl_rep (threadlist_init l h) m (Q m)" if "m \<in> L" for m
    by (rule tl_rep_frame [where h = h])
      (use assms that in \<open>auto simp: threadlist_init_def lists_inv_def spine_def\<close>)
  moreover have "tl_rep (threadlist_init l h) l []"
    by (simp add: tl_rep_def spine_def threadlist_init_def)
  ultimately show ?thesis
    using assms by (auto simp: lists_inv_def threadlist_init_def)
qed

subsection \<open>Sequences of operations against sequences on lists\<close>

text \<open>
  The mutators as one datatype. \<open>tl_exec\<close> runs the code, \<open>tl_spec\<close> is what it promises: an
  operation on the lists of threads. A removal yields the removed thread, or nothing for \<^verbatim>\<open>NULL\<close>.
\<close>

datatype tlop = AddHead lid tid | AddTail lid tid | InsertAfter lid tid tid | InsertBefore lid tid tid
  | RemHead lid | RemTail lid | Remove lid tid

fun tl_exec :: "tlop \<Rightarrow> tlheap \<Rightarrow> (tid option \<times> tlheap) kp" where
  "tl_exec (AddHead l t) h = map_option (Pair None) (threadlist_addhead l t h)"
| "tl_exec (AddTail l t) h = map_option (Pair None) (threadlist_addtail l t h)"
| "tl_exec (InsertAfter l x t) h = map_option (Pair None) (threadlist_insertafter l x t h)"
| "tl_exec (InsertBefore l t x) h = map_option (Pair None) (threadlist_insertbefore l t x h)"
| "tl_exec (RemHead l) h = threadlist_remhead l h"
| "tl_exec (RemTail l) h = threadlist_remtail l h"
| "tl_exec (Remove l t) h = map_option (Pair None) (threadlist_remove l t h)"

fun insert_after :: "'a \<Rightarrow> 'a \<Rightarrow> 'a list \<Rightarrow> 'a list" where
  "insert_after x t [] = []"
| "insert_after x t (y # ys) = (if y = x then y # t # ys else y # insert_after x t ys)"

fun insert_before :: "'a \<Rightarrow> 'a \<Rightarrow> 'a list \<Rightarrow> 'a list" where
  "insert_before t x [] = []"
| "insert_before t x (y # ys) = (if y = x then t # y # ys else y # insert_before t x ys)"

fun tl_spec :: "tlop \<Rightarrow> (lid \<Rightarrow> tid list) \<Rightarrow> tid option \<times> (lid \<Rightarrow> tid list)" where
  "tl_spec (AddHead l t) Q = (None, Q(l := t # Q l))"
| "tl_spec (AddTail l t) Q = (None, Q(l := Q l @ [t]))"
| "tl_spec (InsertAfter l x t) Q = (None, Q(l := insert_after x t (Q l)))"
| "tl_spec (InsertBefore l t x) Q = (None, Q(l := insert_before t x (Q l)))"
| "tl_spec (RemHead l) Q = (if Q l = [] then (None, Q) else (Some (hd (Q l)), Q(l := tl (Q l))))"
| "tl_spec (RemTail l) Q = (if Q l = [] then (None, Q) else (Some (last (Q l)), Q(l := butlast (Q l))))"
| "tl_spec (Remove l t) Q = (None, Q(l := remove1 t (Q l)))"

text \<open>The callers' obligations: a thread that is added is on no list, one that is removed or used as
  a position is on the named list.\<close>

fun tl_pre :: "tid set \<Rightarrow> lid set \<Rightarrow> (lid \<Rightarrow> tid list) \<Rightarrow> tlop \<Rightarrow> bool" where
  "tl_pre T L Q (AddHead l t) = (l \<in> L \<and> on_no_list T L Q t)"
| "tl_pre T L Q (AddTail l t) = (l \<in> L \<and> on_no_list T L Q t)"
| "tl_pre T L Q (InsertAfter l x t) = (l \<in> L \<and> x \<in> set (Q l) \<and> on_no_list T L Q t)"
| "tl_pre T L Q (InsertBefore l t x) = (l \<in> L \<and> x \<in> set (Q l) \<and> on_no_list T L Q t)"
| "tl_pre T L Q (RemHead l) = (l \<in> L)"
| "tl_pre T L Q (RemTail l) = (l \<in> L)"
| "tl_pre T L Q (Remove l t) = (l \<in> L \<and> t \<in> set (Q l))"

lemma insert_after_split: "x \<notin> set us \<Longrightarrow> insert_after x t (us @ x # vs) = us @ x # t # vs"
  by (induction us) auto

lemma insert_before_split: "x \<notin> set us \<Longrightarrow> insert_before t x (us @ x # vs) = us @ t # x # vs"
  by (induction us) auto

lemma tl_exec_refines:
  assumes inv: "lists_inv h T L Q" and pre: "tl_pre T L Q op"
  shows "\<exists>h'. tl_exec op h = Some (fst (tl_spec op Q), h') \<and> lists_inv h' T L (snd (tl_spec op Q))"
proof (cases op)
  case (AddHead l t)
  then show ?thesis using addhead_refines [OF inv] pre by fastforce
next
  case (AddTail l t)
  then show ?thesis using addtail_refines [OF inv] pre by fastforce
next
  case (InsertAfter l x t)
  then obtain us vs where "Q l = us @ x # vs" "x \<notin> set us" "l \<in> L" "on_no_list T L Q t"
    using pre by (auto dest: split_list_first)
  then show ?thesis
    using insertafter_refines [OF inv] InsertAfter by (fastforce simp: insert_after_split)
next
  case (InsertBefore l t x)
  then obtain us vs where "Q l = us @ x # vs" "x \<notin> set us" "l \<in> L" "on_no_list T L Q t"
    using pre by (auto dest: split_list_first)
  then show ?thesis
    using insertbefore_refines [OF inv] InsertBefore by (fastforce simp: insert_before_split)
next
  case (RemHead l)
  then show ?thesis
    using pre inv remhead_empty [OF inv, of l] remhead_refines [OF inv, of l] by (cases "Q l") auto
next
  case (RemTail l)
  then show ?thesis
    using pre inv remtail_empty [OF inv, of l] remtail_refines [OF inv, of l]
    by (cases "Q l" rule: rev_cases) auto
next
  case (Remove l t)
  then obtain us vs where "Q l = us @ t # vs" "t \<notin> set us" "l \<in> L"
    using pre by (auto dest: split_list_first)
  then show ?thesis
    using remove_refines [OF inv] Remove by (fastforce simp: remove1_append)
qed

primrec tl_exec_seq :: "tlop list \<Rightarrow> tlheap \<Rightarrow> (tid option list \<times> tlheap) kp" where
  "tl_exec_seq [] h = Some ([], h)"
| "tl_exec_seq (a # as) h = do {
     (r, h1) \<leftarrow> tl_exec a h;
     (rs, h2) \<leftarrow> tl_exec_seq as h1;
     Some (r # rs, h2)
   }"

primrec tl_spec_seq :: "tlop list \<Rightarrow> (lid \<Rightarrow> tid list) \<Rightarrow> tid option list \<times> (lid \<Rightarrow> tid list)" where
  "tl_spec_seq [] Q = ([], Q)"
| "tl_spec_seq (a # as) Q =
     (let (r, Q1) = tl_spec a Q; (rs, Q2) = tl_spec_seq as Q1 in (r # rs, Q2))"

primrec tl_pre_seq :: "tid set \<Rightarrow> lid set \<Rightarrow> (lid \<Rightarrow> tid list) \<Rightarrow> tlop list \<Rightarrow> bool" where
  "tl_pre_seq T L Q [] = True"
| "tl_pre_seq T L Q (a # as) = (tl_pre T L Q a \<and> tl_pre_seq T L (snd (tl_spec a Q)) as)"

lemma tl_exec_seq_refines:
  "lists_inv h T L Q \<Longrightarrow> tl_pre_seq T L Q ops \<Longrightarrow>
     \<exists>h'. tl_exec_seq ops h = Some (fst (tl_spec_seq ops Q), h') \<and> lists_inv h' T L (snd (tl_spec_seq ops Q))"
proof (induction ops arbitrary: h Q)
  case (Cons a as)
  then obtain h1 where "tl_exec a h = Some (fst (tl_spec a Q), h1)" "lists_inv h1 T L (snd (tl_spec a Q))"
    using tl_exec_refines by (metis tl_pre_seq.simps(2))
  with Cons.IH [of h1] Cons.prems(2) show ?case
    by (fastforce simp: split_def Let_def)
qed simp

subsection \<open>The queue contract\<close>

text \<open>What the scheduler and the wait channels rely on: a family of first-in first-out queues of
  threads, of which a thread is on at most one.\<close>

locale thread_queues =
  fixes addtail :: "lid \<Rightarrow> tid \<Rightarrow> 'h \<Rightarrow> 'h kp"
    and remhead :: "lid \<Rightarrow> 'h \<Rightarrow> (tid option \<times> 'h) kp"
    and isempty :: "lid \<Rightarrow> 'h \<Rightarrow> bool"
    and rep :: "'h \<Rightarrow> tid set \<Rightarrow> lid set \<Rightarrow> (lid \<Rightarrow> tid list) \<Rightarrow> bool"
  assumes addtail_law: "rep h T L Q \<Longrightarrow> l \<in> L \<Longrightarrow> on_no_list T L Q t \<Longrightarrow>
      \<exists>h'. addtail l t h = Some h' \<and> rep h' T L (Q(l := Q l @ [t]))"
    and remhead_law: "rep h T L Q \<Longrightarrow> l \<in> L \<Longrightarrow> Q l = t # ts \<Longrightarrow>
      \<exists>h'. remhead l h = Some (Some t, h') \<and> rep h' T L (Q(l := ts))"
    and remhead_none: "rep h T L Q \<Longrightarrow> l \<in> L \<Longrightarrow> Q l = [] \<Longrightarrow> remhead l h = Some (None, h)"
    and isempty_law: "rep h T L Q \<Longrightarrow> l \<in> L \<Longrightarrow> isempty l h \<longleftrightarrow> Q l = []"
    and rep_distinct: "rep h T L Q \<Longrightarrow> l \<in> L \<Longrightarrow> distinct (Q l)"
    and rep_sub: "rep h T L Q \<Longrightarrow> l \<in> L \<Longrightarrow> set (Q l) \<subseteq> T"
    and rep_disj: "rep h T L Q \<Longrightarrow> l \<in> L \<Longrightarrow> m \<in> L \<Longrightarrow> m \<noteq> l \<Longrightarrow> set (Q m) \<inter> set (Q l) = {}"
begin

lemma head_free:
  assumes "rep h T L Q" "l \<in> L" "Q l = t # ts"
  shows "on_no_list T L (Q(l := ts)) t"
proof -
  have "t \<notin> set ((Q(l := ts)) m)" if "m \<in> L" for m
    using rep_distinct [OF assms(1,2)] rep_disj [OF assms(1,2) that] assms(3) by auto
  then show ?thesis
    using rep_sub [OF assms(1,2)] assms(3) by (simp add: on_no_list_def)
qed

text \<open>Taking the head of one queue and putting it at the end of another: the step of
  \<^verbatim>\<open>wchan_wakeone\<close>, \<^verbatim>\<open>wchan_wakeall\<close> and of the scheduler.\<close>

lemma move_head:
  assumes "rep h T L Q" "l \<in> L" "m \<in> L" "Q l = t # ts"
  shows "\<exists>h1 h2. remhead l h = Some (Some t, h1) \<and> addtail m t h1 = Some h2 \<and>
    rep h1 T L (Q(l := ts)) \<and> rep h2 T L ((Q(l := ts))(m := (Q(l := ts)) m @ [t]))"
  using remhead_law [OF assms(1,2,4)] addtail_law [OF _ assms(3) head_free [OF assms(1,2,4)]] by blast

lemma addtail_remhead:
  assumes "rep h T L Q" "l \<in> L" "on_no_list T L Q t" "Q l = []"
  shows "\<exists>h1 h2. addtail l t h = Some h1 \<and> \<not> isempty l h1 \<and> remhead l h1 = Some (Some t, h2) \<and> rep h2 T L Q"
proof -
  obtain h1 where h1: "addtail l t h = Some h1" "rep h1 T L (Q(l := [t]))"
    using addtail_law [OF assms(1-3)] assms(4) by auto
  then obtain h2 where "remhead l h1 = Some (Some t, h2)" "rep h2 T L (Q(l := []))"
    using remhead_law [OF h1(2) assms(2), of t "[]"] by auto
  moreover have "Q(l := []) = Q" using assms(4) by auto
  moreover have "\<not> isempty l h1" using isempty_law [OF h1(2) assms(2)] by simp
  ultimately show ?thesis using h1(1) by auto
qed

end

interpretation tlq: thread_queues threadlist_addtail threadlist_remhead threadlist_isempty lists_inv
  by unfold_locales (simp_all add: addtail_refines remhead_refines remhead_empty isempty_refines
    lists_inv_distinct lists_inv_sub lists_inv_disj)

subsection \<open>Properties\<close>

text \<open>An empty heap with the given threads and lists initialised by the code.\<close>

definition tl_nothing :: tlheap where
  "tl_nothing = \<lparr>tln_next = Map.empty, tln_prev = Map.empty, tln_self = Map.empty, tl_count = (\<lambda>_. 0)\<rparr>"

primrec tl_boot :: "tid list \<Rightarrow> lid list \<Rightarrow> tlheap kp" where
  "tl_boot ts [] = fold (\<lambda>t h. h \<bind> threadlistnode_init (Node t) (Some t)) ts (Some tl_nothing)"
| "tl_boot ts (l # ls) = map_option (threadlist_init l) (tl_boot ts ls)"

lemma tl_boot_nodes:
  "\<exists>h'. fold (\<lambda>t h. h \<bind> threadlistnode_init (Node t) (Some t)) ts (Some h) = Some h' \<and>
     tln_next h' = (\<lambda>n. if n \<in> Node ` set ts then None else tln_next h n) \<and>
     tln_prev h' = (\<lambda>n. if n \<in> Node ` set ts then None else tln_prev h n) \<and>
     (\<forall>t. tln_self h' (Node t) = (if t \<in> set ts then Some t else tln_self h (Node t)))"
proof (induction ts arbitrary: h)
  case (Cons t ts)
  obtain h1 where h1: "threadlistnode_init (Node t) (Some t) h = Some h1"
    "tln_next h1 = (tln_next h)(Node t := None)" "tln_prev h1 = (tln_prev h)(Node t := None)"
    "tln_self h1 = (tln_self h)(Node t := Some t)"
    by (simp add: threadlistnode_init_def)
  with Cons.IH [of h1] show ?case by (auto simp: fun_eq_iff)
qed simp

lemma tl_boot_inv:
  assumes "length ts < 2 ^ 32" "distinct ls"
  shows "\<exists>h. tl_boot ts ls = Some h \<and> lists_inv h (set ts) (set ls) (\<lambda>_. [])"
  using assms(2)
proof (induction ls)
  case Nil
  have "card (set ts) < 2 ^ 32" using assms(1) card_length [of ts] by linarith
  then show ?case
    using tl_boot_nodes [of ts tl_nothing] by (auto simp: lists_inv_def tl_nothing_def)
next
  case (Cons l ls)
  then obtain h where "tl_boot ts ls = Some h" "lists_inv h (set ts) (set ls) (\<lambda>_. [])" by auto
  moreover have "(\<lambda>_ :: lid. [] :: tid list)(l := []) = (\<lambda>_. [])" by auto
  ultimately show ?case using lists_inv_init [of h "set ts" "set ls" "\<lambda>_. []" l] Cons.prems by auto
qed

text \<open>C6: Any sequence of list operations whose callers' obligations hold, run by the code of
  \<^verbatim>\<open>threadlist.c\<close> on freshly initialised threads and lists, never follows a null pointer,
  returns exactly the threads the list specification returns, and ends in a heap whose lists are
  exactly the specified ones, doubly linked, with correct counts, disjoint, and with the nodes of
  all unlisted threads cleared.\<close>

theorem threadlist_ops_refine:
  assumes "length ts < 2 ^ 32" "distinct ls" "tl_pre_seq (set ts) (set ls) (\<lambda>_. []) ops"
  shows "\<exists>h h'. tl_boot ts ls = Some h \<and>
    tl_exec_seq ops h = Some (fst (tl_spec_seq ops (\<lambda>_. [])), h') \<and>
    lists_inv h' (set ts) (set ls) (snd (tl_spec_seq ops (\<lambda>_. [])))"
  using tl_boot_inv [OF assms(1,2)] tl_exec_seq_refines [OF _ assms(3)] by blast

theorem threadlist_ops_refine_witness:
  "map_option (\<lambda>h. map_option fst (tl_exec_seq
     [AddTail (Wchan 0) 1, AddTail (Wchan 0) 2, AddHead (Wchan 0) 3, InsertAfter (Wchan 0) 1 4, Remove (Wchan 0) 1, RemHead (Wchan 0), RemTail (Wchan 0), RemHead (Wchan 0), RemHead (Wchan 0)] h))
     (tl_boot [1, 2, 3, 4] [Wchan 0, Wchan 1]) =
   Some (Some [None, None, None, None, None, Some 3, Some 2, Some 4, None])"
  using threadlist_ops_refine [of "[1, 2, 3, 4]" "[Wchan 0, Wchan 1]"
    "[AddTail (Wchan 0) 1, AddTail (Wchan 0) 2, AddHead (Wchan 0) 3, InsertAfter (Wchan 0) 1 4, Remove (Wchan 0) 1, RemHead (Wchan 0), RemTail (Wchan 0), RemHead (Wchan 0), RemHead (Wchan 0)]"]
  by (auto simp: on_no_list_def)

end
