(* ===== verification/Kern.thy ===== *)
theory Kern
  imports Threadlist
begin

text \<open>
  The state of the thread system: \<^verbatim>\<open>struct thread\<close> (\<^verbatim>\<open>kern/include/thread.h\<close>), \<^verbatim>\<open>struct cpu\<close>
  (\<^verbatim>\<open>kern/include/cpu.h\<close>), \<^verbatim>\<open>struct spinlock\<close> (\<^verbatim>\<open>kern/include/spinlock.h\<close>) and the part of
  \<^verbatim>\<open>struct proc\<close> (\<^verbatim>\<open>kern/include/proc.h\<close>) that counts threads. Many cpus update these structures
  through pointers, so the state is a memory with one map per structure field, indexed by the address
  of the structure: a thread, a cpu number, the name of a spinlock or a process.
\<close>

datatype threadstate = S_RUN | S_READY | S_SLEEP | S_ZOMBIE

text \<open>The saved context of a thread that is switched out: inside \<^verbatim>\<open>thread_switch\<close>, whose local
  variable \<^verbatim>\<open>spl\<close> it holds, or about to enter \<^verbatim>\<open>thread_startup\<close> with an entry point.\<close>

datatype saved_context = Ctx_switch int | Ctx_startup nat

datatype splkid = Runqueue_lock nat | Ipi_lock nat | Proc_lock nat | Thread_count_lock
  | Wchan_lock nat

record tlbshootdown =
  ts_placeholder :: int

record kern =
  t_name :: "tid \<Rightarrow> string"
  t_wchan_name :: "tid \<Rightarrow> string option"
  t_state :: "tid \<Rightarrow> threadstate"
  t_stack :: "tid \<Rightarrow> u32 list option"
  t_context :: "tid \<Rightarrow> saved_context option"
  t_cpu :: "tid \<Rightarrow> nat option"
  t_proc :: "tid \<Rightarrow> nat option"
  t_in_interrupt :: "tid \<Rightarrow> bool"
  t_curspl :: "tid \<Rightarrow> int"
  t_iplhigh_count :: "tid \<Rightarrow> int"
  t_alloc :: "tid set"
  t_live :: "tid set"
  c_curthread :: "nat \<Rightarrow> tid"
  c_spinlocks :: "nat \<Rightarrow> u32"
  c_irqon :: "nat \<Rightarrow> bool"
  c_isidle :: "nat \<Rightarrow> bool"
  c_ipi_pending :: "nat \<Rightarrow> u32"
  c_shootdown :: "nat \<Rightarrow> tlbshootdown list"
  c_numshootdown :: "nat \<Rightarrow> u32"
  allcpus_num :: u32
  curcpu_exists :: bool
  splk_lock :: "splkid \<Rightarrow> u32"
  splk_holder :: "splkid \<Rightarrow> nat option"
  p_numthreads :: "nat \<Rightarrow> u32"
  lists :: tlheap
  thread_count :: u32
  mainbus_ipis :: "nat list"

text \<open>
  \<^verbatim>\<open>t_alloc\<close> are the threads whose structure is allocated, \<^verbatim>\<open>t_live\<close> those of them that have been set up
  to run; the code reads neither. \<^verbatim>\<open>c_irqon\<close> is the interrupt enable bit
  of a cpu. \<^verbatim>\<open>mainbus_ipis\<close> lists the cpus that were sent an interprocessor interrupt, latest first.
  The functions below run on the cpu \<open>me\<close>, the code's \<^verbatim>\<open>curcpu\<close>.
\<close>

abbreviation curthread :: "nat \<Rightarrow> kern \<Rightarrow> tid" where
  "curthread me s \<equiv> c_curthread s me"

end
