(* ===== verification/Spinlock.thy ===== *)
theory Spinlock
  imports Kern
begin

text \<open>
  Interrupt priority levels (\<^verbatim>\<open>kern/thread/spl.c\<close>, \<^verbatim>\<open>kern/include/spl.h\<close>) and spinlocks
  (\<^verbatim>\<open>kern/thread/spinlock.c\<close>, \<^verbatim>\<open>kern/arch/mips/include/spinlock.h\<close>). The first part has the functions
  as one cpu runs them, the second the same code as single memory accesses of many cpus, for which
  mutual exclusion is shown. \<^verbatim>\<open>membar_*\<close> order the accesses; the interleaving is sequentially consistent.
\<close>

subsection \<open>Interrupt priority levels\<close>

definition IPL_NONE :: int where "IPL_NONE = 0"
definition IPL_HIGH :: int where "IPL_HIGH = 1"

definition cpu_irqoff :: "nat \<Rightarrow> kern \<Rightarrow> kern" where
  "cpu_irqoff me s = s\<lparr>c_irqon := (c_irqon s)(me := False)\<rparr>"

definition cpu_irqon :: "nat \<Rightarrow> kern \<Rightarrow> kern" where
  "cpu_irqon me s = s\<lparr>c_irqon := (c_irqon s)(me := True)\<rparr>"

definition splraise :: "nat \<Rightarrow> int \<Rightarrow> int \<Rightarrow> kern \<Rightarrow> kern kp" where
  "splraise me oldspl newspl s = (let cur = curthread me s in do {
     kassert (oldspl = IPL_NONE);
     kassert (newspl = IPL_HIGH);
     if \<not> curcpu_exists s then Some s
     else
       let s1 = (if t_iplhigh_count s cur = 0 then cpu_irqoff me s else s) in
       Some (s1\<lparr>t_iplhigh_count := (t_iplhigh_count s1)(cur := t_iplhigh_count s1 cur + 1)\<rparr>)
   })"

definition spllower :: "nat \<Rightarrow> int \<Rightarrow> int \<Rightarrow> kern \<Rightarrow> kern kp" where
  "spllower me oldspl newspl s = (let cur = curthread me s in do {
     kassert (oldspl = IPL_HIGH);
     kassert (newspl = IPL_NONE);
     if \<not> curcpu_exists s then Some s
     else
       let s1 = s\<lparr>t_iplhigh_count := (t_iplhigh_count s)(cur := t_iplhigh_count s cur - 1)\<rparr> in
       Some (if t_iplhigh_count s1 cur = 0 then cpu_irqon me s1 else s1)
   })"

definition splx :: "nat \<Rightarrow> int \<Rightarrow> kern \<Rightarrow> (int \<times> kern) kp" where
  "splx me spl s = (let cur = curthread me s in
     if \<not> curcpu_exists s then Some (spl, s)
     else if t_curspl s cur < spl then do {
       s1 \<leftarrow> splraise me (t_curspl s cur) spl s;
       let ret = t_curspl s1 cur;
       Some (ret, s1\<lparr>t_curspl := (t_curspl s1)(cur := spl)\<rparr>)
     }
     else if t_curspl s cur > spl then do {
       let ret = t_curspl s cur;
       let s1 = s\<lparr>t_curspl := (t_curspl s)(cur := spl)\<rparr>;
       s2 \<leftarrow> spllower me ret spl s1;
       Some (ret, s2)
     }
     else Some (spl, s))"

definition spl0 :: "nat \<Rightarrow> kern \<Rightarrow> (int \<times> kern) kp" where
  "spl0 me s = splx me IPL_NONE s"

definition splhigh :: "nat \<Rightarrow> kern \<Rightarrow> (int \<times> kern) kp" where
  "splhigh me s = splx me IPL_HIGH s"

subsection \<open>Spinlocks\<close>

definition spinlock_data_set :: "splkid \<Rightarrow> u32 \<Rightarrow> kern \<Rightarrow> kern" where
  "spinlock_data_set k val s = s\<lparr>splk_lock := (splk_lock s)(k := val)\<rparr>"

definition spinlock_data_get :: "splkid \<Rightarrow> kern \<Rightarrow> u32" where
  "spinlock_data_get k s = splk_lock s k"

text \<open>\<open>sc\<close>: the store conditional succeeds. If it fails, the function pretends the lock was held.\<close>

definition spinlock_data_testandset :: "bool \<Rightarrow> splkid \<Rightarrow> kern \<Rightarrow> u32 \<times> kern" where
  "spinlock_data_testandset sc k s =
     (let x = splk_lock s k in
      if sc then (x, s\<lparr>splk_lock := (splk_lock s)(k := 1)\<rparr>) else (1, s))"

definition spinlock_init :: "splkid \<Rightarrow> kern \<Rightarrow> kern" where
  "spinlock_init k s = (spinlock_data_set k 0 s)\<lparr>splk_holder := (splk_holder s)(k := None)\<rparr>"

definition spinlock_cleanup :: "splkid \<Rightarrow> kern \<Rightarrow> unit kp" where
  "spinlock_cleanup k s = do {
     kassert (splk_holder s k = None);
     kassert (spinlock_data_get k s = 0)
   }"

text \<open>The spin loop as one cpu runs it by itself: on a lock that another cpu holds it never ends.\<close>

partial_function (option) spinlock_spin :: "splkid \<Rightarrow> kern \<Rightarrow> kern kp" where
  "spinlock_spin k s =
     (if spinlock_data_get k s \<noteq> 0 then spinlock_spin k s
      else let (old, s1) = spinlock_data_testandset True k s in
        if old \<noteq> 0 then spinlock_spin k s1 else Some s1)"

definition spinlock_acquire :: "nat \<Rightarrow> splkid \<Rightarrow> kern \<Rightarrow> kern kp" where
  "spinlock_acquire me k s = do {
     s1 \<leftarrow> splraise me IPL_NONE IPL_HIGH s;
     s2 \<leftarrow> (if curcpu_exists s1 then do {
              kassert (splk_holder s1 k \<noteq> Some me);
              Some (s1\<lparr>c_spinlocks := (c_spinlocks s1)(me := c_spinlocks s1 me + 1)\<rparr>)
            } else Some s1);
     s3 \<leftarrow> spinlock_spin k s2;
     Some (s3\<lparr>splk_holder := (splk_holder s3)(k := if curcpu_exists s then Some me else None)\<rparr>)
   }"

definition spinlock_release :: "nat \<Rightarrow> splkid \<Rightarrow> kern \<Rightarrow> kern kp" where
  "spinlock_release me k s = do {
     s1 \<leftarrow> (if curcpu_exists s then do {
              kassert (splk_holder s k = Some me);
              kassert (c_spinlocks s me > 0);
              Some (s\<lparr>c_spinlocks := (c_spinlocks s)(me := c_spinlocks s me - 1)\<rparr>)
            } else Some s);
     let s2 = s1\<lparr>splk_holder := (splk_holder s1)(k := None)\<rparr>;
     let s3 = spinlock_data_set k 0 s2;
     spllower me IPL_HIGH IPL_NONE s3
   }"

definition spinlock_do_i_hold :: "nat \<Rightarrow> splkid \<Rightarrow> kern \<Rightarrow> bool" where
  "spinlock_do_i_hold me k s = (\<not> curcpu_exists s \<or> splk_holder s k = Some me)"

subsection \<open>What one cpu sees\<close>

lemmas spl_defs = IPL_NONE_def IPL_HIGH_def cpu_irqoff_def cpu_irqon_def splraise_def spllower_def
  splx_def spl0_def splhigh_def
lemmas spinlock_defs = spinlock_data_set_def spinlock_data_get_def spinlock_data_testandset_def
  spinlock_init_def spinlock_cleanup_def spinlock_do_i_hold_def

lemma spinlock_spin_free: "splk_lock s k = 0 \<Longrightarrow> spinlock_spin k s = Some (s\<lparr>splk_lock := (splk_lock s)(k := 1)\<rparr>)"
  by (subst spinlock_spin.simps) (simp add: spinlock_defs)

text \<open>The state after an acquisition of a free lock, and after the matching release.\<close>

definition acquired :: "nat \<Rightarrow> splkid \<Rightarrow> kern \<Rightarrow> kern" where
  "acquired me k s = s\<lparr>
     c_irqon := (c_irqon s)(me := c_irqon s me \<and> t_iplhigh_count s (curthread me s) \<noteq> 0),
     t_iplhigh_count := (t_iplhigh_count s)(curthread me s := t_iplhigh_count s (curthread me s) + 1),
     c_spinlocks := (c_spinlocks s)(me := c_spinlocks s me + 1),
     splk_lock := (splk_lock s)(k := 1),
     splk_holder := (splk_holder s)(k := Some me)\<rparr>"

definition released :: "nat \<Rightarrow> splkid \<Rightarrow> kern \<Rightarrow> kern" where
  "released me k s = s\<lparr>
     c_irqon := (c_irqon s)(me := c_irqon s me \<or> t_iplhigh_count s (curthread me s) = 1),
     t_iplhigh_count := (t_iplhigh_count s)(curthread me s := t_iplhigh_count s (curthread me s) - 1),
     c_spinlocks := (c_spinlocks s)(me := c_spinlocks s me - 1),
     splk_lock := (splk_lock s)(k := 0),
     splk_holder := (splk_holder s)(k := None)\<rparr>"

lemma spinlock_acquire_eq:
  assumes "curcpu_exists s" "splk_lock s k = 0" "splk_holder s k \<noteq> Some me"
  shows "spinlock_acquire me k s = Some (acquired me k s)"
  using assms
  by (simp add: spinlock_acquire_def spl_defs spinlock_spin_free acquired_def Let_def)

lemma spinlock_release_eq:
  assumes "curcpu_exists s" "splk_holder s k = Some me" "0 < c_spinlocks s me"
  shows "spinlock_release me k s = Some (released me k s)"
  using assms
  by (simp add: spinlock_release_def spl_defs spinlock_defs released_def Let_def)
subsection \<open>Nesting of interrupt levels and spinlocks\<close>

datatype splop = Op_splx int | Op_acquire splkid | Op_release splkid

fun splop_exec :: "nat \<Rightarrow> splop \<Rightarrow> kern \<Rightarrow> kern kp" where
  "splop_exec me (Op_splx l) s = map_option snd (splx me l s)"
| "splop_exec me (Op_acquire k) s = spinlock_acquire me k s"
| "splop_exec me (Op_release k) s = spinlock_release me k s"

text \<open>What the sequence means: the level last set, and the locks now held.\<close>

fun splop_spec :: "splop \<Rightarrow> int \<times> splkid set \<Rightarrow> int \<times> splkid set" where
  "splop_spec (Op_splx l) (_, H) = (l, H)"
| "splop_spec (Op_acquire k) (l, H) = (l, insert k H)"
| "splop_spec (Op_release k) (l, H) = (l, H - {k})"

fun splop_pre :: "int \<times> splkid set \<Rightarrow> splop \<Rightarrow> bool" where
  "splop_pre (_, H) (Op_splx l) = (l \<in> {IPL_NONE, IPL_HIGH})"
| "splop_pre (_, H) (Op_acquire k) = (k \<notin> H \<and> card H + 1 < 2 ^ 32)"
| "splop_pre (_, H) (Op_release k) = (k \<in> H)"

primrec splops_exec :: "nat \<Rightarrow> splop list \<Rightarrow> kern \<Rightarrow> kern kp" where
  "splops_exec me [] s = Some s"
| "splops_exec me (a # as) s = splop_exec me a s \<bind> splops_exec me as"

primrec splops_pre :: "int \<times> splkid set \<Rightarrow> splop list \<Rightarrow> bool" where
  "splops_pre a [] = True"
| "splops_pre a (x # xs) = (splop_pre a x \<and> splops_pre (splop_spec x a) xs)"

definition spl_rep :: "nat \<Rightarrow> int \<times> splkid set \<Rightarrow> kern \<Rightarrow> bool" where
  "spl_rep me a s \<longleftrightarrow> curcpu_exists s \<and> t_curspl s (curthread me s) = fst a \<and> fst a \<in> {IPL_NONE, IPL_HIGH} \<and>
     finite (snd a) \<and> card (snd a) < 2 ^ 32 \<and> c_spinlocks s me = of_nat (card (snd a)) \<and>
     (\<forall>k. if k \<in> snd a then splk_holder s k = Some me else splk_holder s k = None \<and> splk_lock s k = 0) \<and>
     t_iplhigh_count s (curthread me s) = fst a + int (card (snd a)) \<and>
     (c_irqon s me \<longleftrightarrow> t_iplhigh_count s (curthread me s) = 0)"

lemma spl_rep_splx:
  assumes "spl_rep me (l, H) s" "l' \<in> {IPL_NONE, IPL_HIGH}"
  shows "\<exists>s'. splx me l' s = Some (l, s') \<and> spl_rep me (l', H) s'"
  using assms by (auto simp: spl_rep_def spl_defs Let_def split: if_splits)

lemma spl_rep_acquire:
  assumes "spl_rep me (l, H) s" "k \<notin> H" "card H + 1 < 2 ^ 32"
  shows "spinlock_acquire me k s = Some (acquired me k s) \<and> spl_rep me (l, insert k H) (acquired me k s)"
proof
  have k: "splk_holder s k = None" "splk_lock s k = 0" and "curcpu_exists s"
    using assms(1,2) by (auto simp: spl_rep_def split: if_splits)
  then show "spinlock_acquire me k s = Some (acquired me k s)"
    by (simp add: spinlock_acquire_eq)
  show "spl_rep me (l, insert k H) (acquired me k s)"
    using assms by (auto simp: spl_rep_def acquired_def spl_defs)
qed

lemma spl_rep_release:
  assumes "spl_rep me (l, H) s" "k \<in> H"
  shows "spinlock_release me k s = Some (released me k s) \<and> spl_rep me (l, H - {k}) (released me k s)"
proof
  have H: "finite H" "card H < 2 ^ 32" "c_spinlocks s me = of_nat (card H)"
    and k: "splk_holder s k = Some me" and ex: "curcpu_exists s"
    using assms by (auto simp: spl_rep_def split: if_splits)
  have pos: "0 < card H" using H(1) assms(2) by (auto simp: card_gt_0_iff)
  then have "unat (c_spinlocks s me) = card H" using H by (simp add: unat_of_nat_id)
  with pos have "0 < c_spinlocks s me" by (metis neq0_conv unat_0 word_neq_0_conv)
  with k ex show "spinlock_release me k s = Some (released me k s)"
    by (simp add: spinlock_release_eq)
  have "card (H - {k}) = card H - 1" using assms(2) H(1) by simp
  then show "spl_rep me (l, H - {k}) (released me k s)"
    using assms pos H by (auto simp: spl_rep_def released_def spl_defs of_nat_diff)
qed

lemma splop_exec_rep:
  assumes "spl_rep me a s" "splop_pre a x"
  shows "\<exists>s'. splop_exec me x s = Some s' \<and> spl_rep me (splop_spec x a) s'"
proof (cases a)
  case (Pair l H)
  show ?thesis
  proof (cases x)
    case (Op_splx l')
    then show ?thesis using spl_rep_splx [of me l H s l'] assms Pair by auto
  next
    case (Op_acquire k)
    then show ?thesis using spl_rep_acquire [of me l H s k] assms Pair by auto
  next
    case (Op_release k)
    then show ?thesis using spl_rep_release [of me l H s k] assms Pair by auto
  qed
qed

lemma splops_exec_rep:
  "spl_rep me a s \<Longrightarrow> splops_pre a xs \<Longrightarrow>
     \<exists>s'. splops_exec me xs s = Some s' \<and> spl_rep me (fold splop_spec xs a) s'"
proof (induction xs arbitrary: a s)
  case (Cons x xs)
  then obtain s1 where "splop_exec me x s = Some s1" "spl_rep me (splop_spec x a) s1"
    using splop_exec_rep [of me a s x] by auto
  with Cons.IH [of "splop_spec x a" s1] Cons.prems(2) show ?case by simp
qed simp

subsection \<open>Spinlocks among many cpus\<close>

text \<open>
  The accesses to one spinlock \<open>k\<close>, one per step: a cpu is outside, has raised the level and
  spins, has seen the word zero and is about to test-and-set it, has won it and is about to record
  itself as the holder, is in its critical section, or has cleared the holder and is about to clear
  the word. A failed assertion gives no next state.
\<close>

datatype spinpc = Outside | Spinning | Testandset | Gotit | Inside | Unsetting

definition spin_step :: "splkid \<Rightarrow> nat \<Rightarrow> bool \<Rightarrow> (nat \<Rightarrow> spinpc) \<times> kern \<Rightarrow> ((nat \<Rightarrow> spinpc) \<times> kern) kp" where
  "spin_step k me sc st = (let pc = fst st; s = snd st in
     case pc me of
       Outside \<Rightarrow> do {
         s1 \<leftarrow> splraise me IPL_NONE IPL_HIGH s;
         kassert (splk_holder s1 k \<noteq> Some me);
         Some (pc(me := Spinning), s1\<lparr>c_spinlocks := (c_spinlocks s1)(me := c_spinlocks s1 me + 1)\<rparr>)
       }
     | Spinning \<Rightarrow> Some (if spinlock_data_get k s \<noteq> 0 then (pc, s) else (pc(me := Testandset), s))
     | Testandset \<Rightarrow>
         (let (old, s1) = spinlock_data_testandset sc k s in
          Some (if old \<noteq> 0 then (pc(me := Spinning), s1) else (pc(me := Gotit), s1)))
     | Gotit \<Rightarrow> Some (pc(me := Inside), s\<lparr>splk_holder := (splk_holder s)(k := Some me)\<rparr>)
     | Inside \<Rightarrow> do {
         kassert (splk_holder s k = Some me);
         kassert (c_spinlocks s me > 0);
         Some (pc(me := Unsetting), s\<lparr>c_spinlocks := (c_spinlocks s)(me := c_spinlocks s me - 1),
           splk_holder := (splk_holder s)(k := None)\<rparr>)
       }
     | Unsetting \<Rightarrow> do {
         s1 \<leftarrow> spllower me IPL_HIGH IPL_NONE (spinlock_data_set k 0 s);
         Some (pc(me := Outside), s1)
       })"

inductive spin_reach :: "splkid \<Rightarrow> kern \<Rightarrow> (nat \<Rightarrow> spinpc) \<times> kern \<Rightarrow> bool" for k s0 where
  start: "spin_reach k s0 (\<lambda>_. Outside, spinlock_init k s0)"
| step: "spin_reach k s0 st \<Longrightarrow> spin_step k me sc st = Some st' \<Longrightarrow> spin_reach k s0 st'"

definition in_crit :: "spinpc \<Rightarrow> bool" where
  "in_crit p \<longleftrightarrow> p \<in> {Gotit, Inside, Unsetting}"

definition spin_inv :: "splkid \<Rightarrow> (nat \<Rightarrow> spinpc) \<times> kern \<Rightarrow> bool" where
  "spin_inv k st \<longleftrightarrow> (let pc = fst st; s = snd st in
     curcpu_exists s \<and>
     (\<forall>c d. in_crit (pc c) \<longrightarrow> in_crit (pc d) \<longrightarrow> c = d) \<and>
     (splk_lock s k = 0 \<longleftrightarrow> (\<forall>c. \<not> in_crit (pc c))) \<and>
     (\<forall>c. splk_holder s k = Some c \<longleftrightarrow> pc c = Inside) \<and>
     (\<forall>c. c_spinlocks s c = (if pc c \<in> {Outside, Unsetting} then 0 else 1)))"

lemma spin_step_inv:
  assumes "spin_inv k st"
  shows "\<exists>st'. spin_step k me sc st = Some st' \<and> spin_inv k st'"
proof (cases st)
  case (Pair pc s)
  show ?thesis
    using assms
    by (cases "pc me")
      (simp_all add: Pair spin_step_def spl_defs spinlock_defs spin_inv_def in_crit_def Let_def;
       metis spinpc.distinct)+
qed
lemma spin_reach_inv:
  assumes "spin_reach k s0 st" "curcpu_exists s0" "\<forall>c. c_spinlocks s0 c = 0"
  shows "spin_inv k st"
  using assms(1)
proof induction
  case start
  then show ?case using assms(2,3) by (simp add: spin_inv_def in_crit_def spinlock_defs)
next
  case (step st me sc st')
  then show ?case using spin_step_inv [of k st me sc] by auto
qed

primrec spin_run :: "splkid \<Rightarrow> nat \<Rightarrow> nat \<Rightarrow> (nat \<Rightarrow> spinpc) \<times> kern \<Rightarrow> ((nat \<Rightarrow> spinpc) \<times> kern) kp" where
  "spin_run k me 0 st = Some st"
| "spin_run k me (Suc n) st = spin_step k me True st \<bind> spin_run k me n"

text \<open>A cpu that runs alone from outside on a free lock performs \<^verbatim>\<open>spinlock_acquire\<close> in four
  accesses and \<^verbatim>\<open>spinlock_release\<close> in two.\<close>

lemma spin_run_acquire:
  assumes "curcpu_exists s" "splk_lock s k = 0" "splk_holder s k \<noteq> Some me" "pc me = Outside"
  shows "spin_run k me 4 (pc, s) = map_option (Pair (pc(me := Inside))) (spinlock_acquire me k s)"
  using assms by (simp add: spinlock_acquire_eq acquired_def numeral_eq_Suc spin_step_def spl_defs spinlock_defs Let_def)

lemma spin_run_release:
  assumes "curcpu_exists s" "pc me = Inside"
  shows "spin_run k me 2 (pc, s) = map_option (Pair (pc(me := Outside))) (spinlock_release me k s)"
  using assms by (simp add: spinlock_release_def numeral_eq_Suc spin_step_def spl_defs spinlock_defs kassert_def Let_def)

subsection \<open>Properties\<close>

text \<open>A concrete kernel state: four cpus, cpu \<open>c\<close> running thread \<open>c\<close> at the lowest level, all
  spinlocks free, all lists empty.\<close>

definition quiet_kern :: kern where
  "quiet_kern = \<lparr>
     t_name = (\<lambda>_. ''''), t_wchan_name = (\<lambda>_. None), t_state = (\<lambda>t. if t < 4 then S_RUN else S_READY),
     t_stack = (\<lambda>_. None), t_context = (\<lambda>_. None), t_cpu = (\<lambda>t. if t < 4 then Some t else None),
     t_proc = (\<lambda>t. if t < 4 then Some 0 else None),
     t_in_interrupt = (\<lambda>_. False), t_curspl = (\<lambda>_. 0), t_iplhigh_count = (\<lambda>_. 0), t_alloc = {0, 1, 2, 3}, t_live = {0, 1, 2, 3},
     c_curthread = (\<lambda>c. if c < 4 then c else 0), c_spinlocks = (\<lambda>_. 0), c_irqon = (\<lambda>_. True), c_isidle = (\<lambda>_. False),
     c_ipi_pending = (\<lambda>_. 0), c_shootdown = (\<lambda>_. replicate 16 \<lparr>ts_placeholder = 0\<rparr>), c_numshootdown = (\<lambda>_. 0),
     allcpus_num = 4, curcpu_exists = True, splk_lock = (\<lambda>_. 0), splk_holder = (\<lambda>_. None),
     p_numthreads = (\<lambda>p. if p = 0 then 4 else 0), lists = the (tl_boot [0, 1, 2, 3]
       ([Wchan 0, Wchan 1] @ map Runqueue [0, 1, 2, 3] @ map Zombies [0, 1, 2, 3])),
     thread_count = 4, mainbus_ipis = []\<rparr>"

text \<open>C11: Interrupt levels and spinlocks may be raised and lowered in any order, as the comment in
  \<^verbatim>\<open>spl.c\<close> claims: if a cpu sets levels with \<^verbatim>\<open>splx\<close>, acquires free locks and releases locks it
  holds in any sequence, nothing panics, and at the end interrupts are on exactly if the last level set
  is \<^verbatim>\<open>IPL_NONE\<close> and no spinlock is held.\<close>

theorem spl_spinlocks_nest:
  assumes "spl_rep me (l, {}) s" "splops_pre (l, {}) ops"
  shows "\<exists>s'. splops_exec me ops s = Some s' \<and>
    (c_irqon s' me \<longleftrightarrow> fold splop_spec ops (l, {}) = (IPL_NONE, {})) \<and>
    t_curspl s' (curthread me s') = fst (fold splop_spec ops (l, {})) \<and>
    {k. splk_holder s' k = Some me} = snd (fold splop_spec ops (l, {}))"
proof -
  obtain l' H where a: "fold splop_spec ops (l, {}) = (l', H)" by (cases "fold splop_spec ops (l, {})")
  obtain s' where s': "splops_exec me ops s = Some s'" "spl_rep me (l', H) s'"
    using splops_exec_rep [OF assms] a by auto
  then have "c_irqon s' me \<longleftrightarrow> l' = IPL_NONE \<and> H = {}"
    by (auto simp: spl_rep_def spl_defs)
  moreover have "{k. splk_holder s' k = Some me} = H"
    using s'(2) by (auto simp: spl_rep_def split: if_splits)
  ultimately show ?thesis using s' by (simp add: a spl_rep_def)
qed

theorem spl_spinlocks_nest_witness:
  "\<exists>s'. splops_exec 0 [Op_acquire (Wchan_lock 0), Op_splx 1, Op_acquire (Wchan_lock 1), Op_splx 0,
       Op_release (Wchan_lock 0)] quiet_kern = Some s' \<and> \<not> c_irqon s' 0 \<and>
     (\<exists>s''. splops_exec 0 [Op_release (Wchan_lock 1)] s' = Some s'' \<and> c_irqon s'' 0)"
proof -
  have 0: "spl_rep 0 (IPL_NONE, {}) quiet_kern"
    by (simp add: spl_rep_def quiet_kern_def spl_defs)
  have "\<exists>s'. splops_exec 0 [Op_acquire (Wchan_lock 0), Op_splx 1, Op_acquire (Wchan_lock 1), Op_splx 0,
       Op_release (Wchan_lock 0)] quiet_kern = Some s' \<and> \<not> c_irqon s' 0"
    using spl_spinlocks_nest [OF 0, of "[Op_acquire (Wchan_lock 0), Op_splx 1, Op_acquire (Wchan_lock 1),
      Op_splx 0, Op_release (Wchan_lock 0)]"] by (auto simp: spl_defs)
  moreover have "\<exists>s'. splops_exec 0 [Op_acquire (Wchan_lock 0), Op_splx 1, Op_acquire (Wchan_lock 1), Op_splx 0,
       Op_release (Wchan_lock 0), Op_release (Wchan_lock 1)] quiet_kern = Some s' \<and> c_irqon s' 0"
    using spl_spinlocks_nest [OF 0, of "[Op_acquire (Wchan_lock 0), Op_splx 1, Op_acquire (Wchan_lock 1),
      Op_splx 0, Op_release (Wchan_lock 0), Op_release (Wchan_lock 1)]"] by (auto simp: spl_defs)
  ultimately show ?thesis by (auto split: Option.bind_splits)
qed

text \<open>C9: However the cpus' accesses to a spinlock interleave, and whether or not store conditionals
  fail, at most one cpu is between \<^verbatim>\<open>spinlock_acquire\<close> and \<^verbatim>\<open>spinlock_release\<close>, the holder field names
  exactly that cpu, and neither the deadlock panic nor an assertion of \<^verbatim>\<open>spinlock_release\<close> can fire.\<close>

theorem spinlock_mutual_exclusion:
  assumes "curcpu_exists s0" "\<forall>c. c_spinlocks s0 c = 0" "spin_reach k s0 (pc, s)"
  shows "(\<forall>c d. pc c = Inside \<longrightarrow> pc d = Inside \<longrightarrow> c = d) \<and>
    (\<forall>c. splk_holder s k = Some c \<longleftrightarrow> pc c = Inside) \<and>
    (\<forall>me sc. spin_step k me sc (pc, s) \<noteq> None)"
proof -
  have inv: "spin_inv k (pc, s)" by (rule spin_reach_inv [OF assms(3,1,2)])
  moreover have "\<forall>me sc. spin_step k me sc (pc, s) \<noteq> None"
    using spin_step_inv [OF inv] by (metis option.distinct(1))
  ultimately show ?thesis by (simp add: spin_inv_def in_crit_def Let_def)
qed

theorem spinlock_mutual_exclusion_witness:
  "\<exists>pc s. spin_reach (Wchan_lock 0) quiet_kern (pc, s) \<and> pc 0 = Inside \<and> pc 1 = Spinning \<and>
     splk_holder s (Wchan_lock 0) = Some 0"
proof -
  let ?r = "spin_reach (Wchan_lock 0) quiet_kern"
  have q: "curcpu_exists quiet_kern" "\<forall>c. c_spinlocks quiet_kern c = 0"
    by (simp_all add: quiet_kern_def)
  have step: "?r st \<Longrightarrow> \<exists>st'. spin_step (Wchan_lock 0) c True st = Some st' \<and> ?r st'" for st c
    using spin_step_inv [OF spin_reach_inv [OF _ q]] spin_reach.step by blast
  have "?r (\<lambda>_. Outside, spinlock_init (Wchan_lock 0) quiet_kern)" by (rule spin_reach.start)
  from step [OF this, of 1] obtain pc1 s1 where 1: "?r (pc1, s1)" "pc1 0 = Outside" "pc1 1 = Spinning"
    "splk_lock s1 (Wchan_lock 0) = 0"
    by (auto simp: spin_step_def spl_defs spinlock_defs quiet_kern_def)
  from step [OF 1(1), of 0] 1 obtain pc2 s2 where 2: "?r (pc2, s2)" "pc2 0 = Spinning" "pc2 1 = Spinning"
    "splk_lock s2 (Wchan_lock 0) = 0"
    by (auto simp: spin_step_def spl_defs spinlock_defs Let_def split: Option.bind_splits if_splits)
  from step [OF 2(1), of 0] 2 obtain pc3 s3 where 3: "?r (pc3, s3)" "pc3 0 = Testandset" "pc3 1 = Spinning"
    "splk_lock s3 (Wchan_lock 0) = 0"
    by (auto simp: spin_step_def spinlock_defs)
  from step [OF 3(1), of 0] 3 obtain pc4 s4 where 4: "?r (pc4, s4)" "pc4 0 = Gotit" "pc4 1 = Spinning"
    by (auto simp: spin_step_def spinlock_defs)
  from step [OF 4(1), of 0] 4 obtain pc5 s5 where 5: "?r (pc5, s5)" "pc5 0 = Inside" "pc5 1 = Spinning"
    by (auto simp: spin_step_def spinlock_defs)
  with spinlock_mutual_exclusion [OF q 5(1)] show ?thesis by blast
qed

end
