(* ===== verification/Threads.thy ===== *)
theory Threads
  imports Spinlock
begin

unbundle bit_operations_syntax

text \<open>
  The thread system of \<^verbatim>\<open>kern/thread/thread.c\<close> with the parts of \<^verbatim>\<open>kern/proc/proc.c\<close> it calls: creation,
  forking, switching, exit and clean-up of threads, wait channels, migration between cpus, and
  interprocessor interrupts. Each function is what one cpu does, from spinlock to spinlock. A switch is
  cut where the code waits: in \<^verbatim>\<open>cpu_idle\<close>, where other cpus run, and at \<^verbatim>\<open>switchframe_switch\<close>, where the
  next thread goes on from its own saved context. \<^verbatim>\<open>as_activate\<close> and the machine-dependent hooks touch
  only the memory management unit and are left out.
\<close>

subsection \<open>Threads\<close>

definition THREAD_STACK_MAGIC :: u32 where "THREAD_STACK_MAGIC = 0xbaadf00d"
definition MAX_NAME_LENGTH :: nat where "MAX_NAME_LENGTH = 64"
definition STACK_WORDS :: nat where "STACK_WORDS = 1024"

definition thread_checkstack_init :: "tid \<Rightarrow> kern \<Rightarrow> kern kp" where
  "thread_checkstack_init t s = do {
     st \<leftarrow> t_stack s t;
     st1 \<leftarrow> wr st 0 THREAD_STACK_MAGIC;
     st2 \<leftarrow> wr st1 1 THREAD_STACK_MAGIC;
     st3 \<leftarrow> wr st2 2 THREAD_STACK_MAGIC;
     st4 \<leftarrow> wr st3 3 THREAD_STACK_MAGIC;
     Some (s\<lparr>t_stack := (t_stack s)(t := Some st4)\<rparr>)
   }"

definition thread_checkstack :: "tid \<Rightarrow> kern \<Rightarrow> unit kp" where
  "thread_checkstack t s =
     (case t_stack s t of
        None \<Rightarrow> Some ()
      | Some st \<Rightarrow> do {
          w0 \<leftarrow> rd st 0; kassert (w0 = THREAD_STACK_MAGIC);
          w1 \<leftarrow> rd st 1; kassert (w1 = THREAD_STACK_MAGIC);
          w2 \<leftarrow> rd st 2; kassert (w2 = THREAD_STACK_MAGIC);
          w3 \<leftarrow> rd st 3; kassert (w3 = THREAD_STACK_MAGIC)
        })"

text \<open>\<open>mem\<close> is the structure \<^verbatim>\<open>kmalloc\<close> gives, if any. The name is copied with its terminating zero
  into an array of \<^const>\<open>MAX_NAME_LENGTH\<close> bytes; a copy that does not fit is no defined behaviour.\<close>

definition thread_create :: "tid option \<Rightarrow> string \<Rightarrow> kern \<Rightarrow> (tid option \<times> kern) kp" where
  "thread_create mem name s =
     (if length name > MAX_NAME_LENGTH then Some (None, s)
      else case mem of
        None \<Rightarrow> Some (None, s)
      | Some t \<Rightarrow> do {
          kassert (length name + 1 \<le> MAX_NAME_LENGTH);
          h \<leftarrow> threadlistnode_init (Node t) (Some t) (lists s);
          Some (Some t, s\<lparr>
            t_alloc := insert t (t_alloc s),
            t_name := (t_name s)(t := name),
            t_wchan_name := (t_wchan_name s)(t := Some ''NEW''),
            t_state := (t_state s)(t := S_READY),
            lists := h,
            t_stack := (t_stack s)(t := None),
            t_context := (t_context s)(t := None),
            t_cpu := (t_cpu s)(t := None),
            t_proc := (t_proc s)(t := None),
            t_in_interrupt := (t_in_interrupt s)(t := False),
            t_curspl := (t_curspl s)(t := IPL_HIGH),
            t_iplhigh_count := (t_iplhigh_count s)(t := 1)\<rparr>)
        })"

definition thread_destroy :: "nat \<Rightarrow> tid \<Rightarrow> kern \<Rightarrow> kern kp" where
  "thread_destroy me t s = do {
     kassert (t \<noteq> curthread me s);
     kassert (t_state s t \<noteq> S_RUN);
     kassert (t_proc s t = None);
     threadlistnode_cleanup (Node t) (lists s);
     Some (s\<lparr>t_stack := (t_stack s)(t := None),
       t_wchan_name := (t_wchan_name s)(t := Some ''DESTROYED''),
       t_alloc := t_alloc s - {t}, t_live := t_live s - {t}\<rparr>)
   }"

text \<open>\<open>rm\<close> lifts a list operation to the kernel state.\<close>

definition on_lists :: "(tlheap \<Rightarrow> tlheap kp) \<Rightarrow> kern \<Rightarrow> kern kp" where
  "on_lists f s = map_option (\<lambda>h. s\<lparr>lists := h\<rparr>) (f (lists s))"

definition on_lists_ret :: "(tlheap \<Rightarrow> ('a \<times> tlheap) kp) \<Rightarrow> kern \<Rightarrow> ('a \<times> kern) kp" where
  "on_lists_ret f s = map_option (\<lambda>(r, h). (r, s\<lparr>lists := h\<rparr>)) (f (lists s))"

partial_function (option) exorcise :: "nat \<Rightarrow> kern \<Rightarrow> kern kp" where
  "exorcise me s = do {
     (z, s1) \<leftarrow> on_lists_ret (threadlist_remhead (Zombies me)) s;
     (case z of
        None \<Rightarrow> Some s1
      | Some z \<Rightarrow> do {
          kassert (z \<noteq> curthread me s1);
          kassert (t_state s1 z = S_ZOMBIE);
          s2 \<leftarrow> thread_destroy me z s1;
          exorcise me s2
        })
   }"

subsection \<open>Interprocessor interrupts\<close>

definition IPI_PANIC :: nat where "IPI_PANIC = 0"
definition IPI_OFFLINE :: nat where "IPI_OFFLINE = 1"
definition IPI_UNIDLE :: nat where "IPI_UNIDLE = 2"
definition IPI_TLBSHOOTDOWN :: nat where "IPI_TLBSHOOTDOWN = 3"
definition TLBSHOOTDOWN_MAX :: u32 where "TLBSHOOTDOWN_MAX = 16"

definition ipi_send :: "nat \<Rightarrow> nat \<Rightarrow> nat \<Rightarrow> kern \<Rightarrow> kern kp" where
  "ipi_send me target code s = do {
     kassert (code < 32);
     s1 \<leftarrow> spinlock_acquire me (Ipi_lock target) s;
     let s2 = s1\<lparr>c_ipi_pending := (c_ipi_pending s1)(target := c_ipi_pending s1 target OR push_bit code 1)\<rparr>;
     let s3 = s2\<lparr>mainbus_ipis := target # mainbus_ipis s2\<rparr>;
     spinlock_release me (Ipi_lock target) s3
   }"

fun ipi_broadcast_from :: "nat \<Rightarrow> nat \<Rightarrow> nat list \<Rightarrow> kern \<Rightarrow> kern kp" where
  "ipi_broadcast_from me code [] s = Some s"
| "ipi_broadcast_from me code (c # cs) s = do {
     s1 \<leftarrow> (if c \<noteq> me then ipi_send me c code s else Some s);
     ipi_broadcast_from me code cs s1
   }"

definition ipi_broadcast :: "nat \<Rightarrow> nat \<Rightarrow> kern \<Rightarrow> kern kp" where
  "ipi_broadcast me code s = ipi_broadcast_from me code [0..<unat (allcpus_num s)] s"

definition ipi_tlbshootdown :: "nat \<Rightarrow> nat \<Rightarrow> tlbshootdown \<Rightarrow> kern \<Rightarrow> kern kp" where
  "ipi_tlbshootdown me target mapping s = do {
     s1 \<leftarrow> spinlock_acquire me (Ipi_lock target) s;
     let n = c_numshootdown s1 target;
     kassert (n \<noteq> TLBSHOOTDOWN_MAX);
     sd \<leftarrow> wr (c_shootdown s1 target) (unat n) mapping;
     let s2 = s1\<lparr>c_shootdown := (c_shootdown s1)(target := sd),
                c_numshootdown := (c_numshootdown s1)(target := n + 1)\<rparr>;
     let s3 = s2\<lparr>c_ipi_pending := (c_ipi_pending s2)(target := c_ipi_pending s2 target OR push_bit IPI_TLBSHOOTDOWN 1)\<rparr>;
     let s4 = s3\<lparr>mainbus_ipis := target # mainbus_ipis s3\<rparr>;
     spinlock_release me (Ipi_lock target) s4
   }"

text \<open>The handler ends with the cpu halted, or with the shootdown requests it passed to
  \<^verbatim>\<open>vm_tlbshootdown\<close>.\<close>

datatype ipi_result = Cpu_halted kern | Ipi_handled "tlbshootdown list" kern

definition interprocessor_interrupt :: "nat \<Rightarrow> kern \<Rightarrow> ipi_result kp" where
  "interprocessor_interrupt me s = do {
     s1 \<leftarrow> spinlock_acquire me (Ipi_lock me) s;
     let bits = c_ipi_pending s1 me;
     if bits AND push_bit IPI_PANIC 1 \<noteq> 0 then
       map_option Cpu_halted (spinlock_release me (Ipi_lock me) s1)
     else if bits AND push_bit IPI_OFFLINE 1 \<noteq> 0 then do {
       s2 \<leftarrow> spinlock_release me (Ipi_lock me) s1;
       s3 \<leftarrow> spinlock_acquire me (Runqueue_lock me) s2;
       map_option Cpu_halted (spinlock_release me (Runqueue_lock me) s3)
     }
     else do {
       let shoot = bits AND push_bit IPI_TLBSHOOTDOWN 1 \<noteq> 0;
       let ms = (if shoot then take (unat (c_numshootdown s1 me)) (c_shootdown s1 me) else []);
       let s2 = (if shoot then s1\<lparr>c_numshootdown := (c_numshootdown s1)(me := 0)\<rparr> else s1);
       let s3 = s2\<lparr>c_ipi_pending := (c_ipi_pending s2)(me := 0)\<rparr>;
       map_option (Ipi_handled ms) (spinlock_release me (Ipi_lock me) s3)
     }
   }"
subsection \<open>Processes\<close>

definition proc_addthread :: "nat \<Rightarrow> nat \<Rightarrow> tid \<Rightarrow> kern \<Rightarrow> kern kp" where
  "proc_addthread me proc t s = do {
     kassert (t_proc s t = None);
     s1 \<leftarrow> spinlock_acquire me (Proc_lock proc) s;
     let s2 = s1\<lparr>p_numthreads := (p_numthreads s1)(proc := p_numthreads s1 proc + 1)\<rparr>;
     s3 \<leftarrow> spinlock_release me (Proc_lock proc) s2;
     (spl, s4) \<leftarrow> splhigh me s3;
     let s5 = s4\<lparr>t_proc := (t_proc s4)(t := Some proc)\<rparr>;
     map_option snd (splx me spl s5)
   }"

definition proc_remthread :: "nat \<Rightarrow> tid \<Rightarrow> kern \<Rightarrow> kern kp" where
  "proc_remthread me t s = do {
     proc \<leftarrow> t_proc s t;
     s1 \<leftarrow> spinlock_acquire me (Proc_lock proc) s;
     kassert (p_numthreads s1 proc > 0);
     let s2 = s1\<lparr>p_numthreads := (p_numthreads s1)(proc := p_numthreads s1 proc - 1)\<rparr>;
     s3 \<leftarrow> spinlock_release me (Proc_lock proc) s2;
     (spl, s4) \<leftarrow> splhigh me s3;
     let s5 = s4\<lparr>t_proc := (t_proc s4)(t := None)\<rparr>;
     map_option snd (splx me spl s5)
   }"

subsection \<open>Making threads runnable and switching\<close>

definition thread_make_runnable :: "nat \<Rightarrow> tid \<Rightarrow> bool \<Rightarrow> kern \<Rightarrow> kern kp" where
  "thread_make_runnable me target already_have_lock s = do {
     targetcpu \<leftarrow> t_cpu s target;
     s1 \<leftarrow> (if already_have_lock then do {
              kassert (spinlock_do_i_hold me (Runqueue_lock targetcpu) s);
              Some s
            } else spinlock_acquire me (Runqueue_lock targetcpu) s);
     let s2 = s1\<lparr>t_state := (t_state s1)(target := S_READY)\<rparr>;
     s3 \<leftarrow> on_lists (threadlist_addtail (Runqueue targetcpu) target) s2;
     s4 \<leftarrow> (if c_isidle s3 targetcpu \<and> targetcpu \<noteq> me then ipi_send me targetcpu IPI_UNIDLE s3 else Some s3);
     (if \<not> already_have_lock then spinlock_release me (Runqueue_lock targetcpu) s4 else Some s4)
   }"

record wchan =
  wc_name :: string
  wc_threads :: lid

text \<open>A call of \<^verbatim>\<open>thread_switch\<close> returns at once, leaves the cpu in \<^verbatim>\<open>cpu_idle\<close> with the value of the
  local \<^verbatim>\<open>spl\<close>, or ends with another thread (or the same one again) having returned from its own call.\<close>

datatype switch_result = Returned kern | Idling int kern | Resumed kern

definition thread_switch_tail :: "nat \<Rightarrow> int \<Rightarrow> kern \<Rightarrow> kern kp" where
  "thread_switch_tail me spl s = (let cur = curthread me s in do {
     let s1 = s\<lparr>t_wchan_name := (t_wchan_name s)(cur := None), t_state := (t_state s)(cur := S_RUN)\<rparr>;
     s2 \<leftarrow> spinlock_release me (Runqueue_lock me) s1;
     s3 \<leftarrow> exorcise me s2;
     map_option snd (splx me spl s3)
   })"

definition thread_startup :: "nat \<Rightarrow> kern \<Rightarrow> kern kp" where
  "thread_startup me s = (let cur = curthread me s in do {
     let s1 = s\<lparr>t_wchan_name := (t_wchan_name s)(cur := None), t_state := (t_state s)(cur := S_RUN)\<rparr>;
     s2 \<leftarrow> spinlock_release me (Runqueue_lock me) s1;
     s3 \<leftarrow> exorcise me s2;
     map_option snd (spl0 me s3)
   })"

definition thread_resume :: "nat \<Rightarrow> kern \<Rightarrow> kern kp" where
  "thread_resume me s = do {
     ctx \<leftarrow> t_context s (curthread me s);
     (case ctx of
        Ctx_switch spl \<Rightarrow> thread_switch_tail me spl s
      | Ctx_startup ep \<Rightarrow> thread_startup me s)
   }"

definition thread_switch_next :: "nat \<Rightarrow> int \<Rightarrow> kern \<Rightarrow> switch_result kp" where
  "thread_switch_next me spl s = do {
     (nxt, s1) \<leftarrow> on_lists_ret (threadlist_remhead (Runqueue me)) s;
     (case nxt of
        None \<Rightarrow> map_option (Idling spl) (spinlock_release me (Runqueue_lock me) s1)
      | Some nxt \<Rightarrow> (let cur = curthread me s1 in do {
          let s2 = s1\<lparr>c_isidle := (c_isidle s1)(me := False)\<rparr>;
          let s3 = s2\<lparr>c_curthread := (c_curthread s2)(me := nxt)\<rparr>;
          let s4 = s3\<lparr>t_context := (t_context s3)(cur := Some (Ctx_switch spl))\<rparr>;
          map_option Resumed (thread_resume me s4)
        }))
   }"

text \<open>After \<^verbatim>\<open>cpu_idle\<close> the loop takes the lock again and looks once more.\<close>

definition thread_switch_wake :: "nat \<Rightarrow> int \<Rightarrow> kern \<Rightarrow> switch_result kp" where
  "thread_switch_wake me spl s = do {
     s1 \<leftarrow> spinlock_acquire me (Runqueue_lock me) s;
     thread_switch_next me spl s1
   }"

definition thread_switch :: "nat \<Rightarrow> threadstate \<Rightarrow> wchan option \<Rightarrow> splkid option \<Rightarrow> kern \<Rightarrow> switch_result kp" where
  "thread_switch me newstate wc lk s = do {
     (spl, s1) \<leftarrow> splhigh me s;
     let cur = curthread me s1;
     if c_isidle s1 me then map_option (\<lambda>(_, s'). Returned s') (splx me spl s1)
     else do {
       thread_checkstack cur s1;
       s2 \<leftarrow> spinlock_acquire me (Runqueue_lock me) s1;
       if newstate = S_READY \<and> threadlist_isempty (Runqueue me) (lists s2) then do {
         s3 \<leftarrow> spinlock_release me (Runqueue_lock me) s2;
         map_option (\<lambda>(_, s'). Returned s') (splx me spl s3)
       }
       else do {
         s3 \<leftarrow> (case newstate of
             S_RUN \<Rightarrow> None
           | S_READY \<Rightarrow> thread_make_runnable me cur True s2
           | S_SLEEP \<Rightarrow> do {
               w \<leftarrow> wc;
               l \<leftarrow> lk;
               let sa = s2\<lparr>t_wchan_name := (t_wchan_name s2)(cur := Some (wc_name w))\<rparr>;
               sb \<leftarrow> on_lists (threadlist_addtail (wc_threads w) cur) sa;
               spinlock_release me l sb
             }
           | S_ZOMBIE \<Rightarrow>
               let sa = s2\<lparr>t_wchan_name := (t_wchan_name s2)(cur := Some ''ZOMBIE'')\<rparr> in
               on_lists (threadlist_addtail (Zombies me) cur) sa);
         let s4 = s3\<lparr>t_state := (t_state s3)(cur := newstate)\<rparr>;
         let s5 = s4\<lparr>c_isidle := (c_isidle s4)(me := True)\<rparr>;
         thread_switch_next me spl s5
       }
     }
   }"

definition thread_yield :: "nat \<Rightarrow> kern \<Rightarrow> switch_result kp" where
  "thread_yield me s = thread_switch me S_READY None None s"

subsection \<open>Wait channels\<close>

definition wchan_create :: "lid option \<Rightarrow> string \<Rightarrow> kern \<Rightarrow> wchan option \<times> kern" where
  "wchan_create mem name s =
     (case mem of
        None \<Rightarrow> (None, s)
      | Some l \<Rightarrow> (Some \<lparr>wc_name = name, wc_threads = l\<rparr>, s\<lparr>lists := threadlist_init l (lists s)\<rparr>))"

definition wchan_destroy :: "wchan \<Rightarrow> kern \<Rightarrow> unit kp" where
  "wchan_destroy wc s = threadlist_cleanup (wc_threads wc) (lists s)"

text \<open>\<^verbatim>\<open>wchan_sleep\<close> up to the switch, and what it does when the thread is resumed.\<close>

definition wchan_sleep :: "nat \<Rightarrow> wchan \<Rightarrow> splkid \<Rightarrow> kern \<Rightarrow> switch_result kp" where
  "wchan_sleep me wc lk s = do {
     kassert (\<not> t_in_interrupt s (curthread me s));
     kassert (spinlock_do_i_hold me lk s);
     kassert (c_spinlocks s me = 1);
     thread_switch me S_SLEEP (Some wc) (Some lk) s
   }"

definition wchan_sleep_return :: "nat \<Rightarrow> splkid \<Rightarrow> kern \<Rightarrow> kern kp" where
  "wchan_sleep_return me lk s = spinlock_acquire me lk s"

definition wchan_wakeone :: "nat \<Rightarrow> wchan \<Rightarrow> splkid \<Rightarrow> kern \<Rightarrow> kern kp" where
  "wchan_wakeone me wc lk s = do {
     kassert (spinlock_do_i_hold me lk s);
     (target, s1) \<leftarrow> on_lists_ret (threadlist_remhead (wc_threads wc)) s;
     (case target of
        None \<Rightarrow> Some s1
      | Some t \<Rightarrow> thread_make_runnable me t False s1)
   }"

partial_function (option) wakeall_grab :: "lid \<Rightarrow> lid \<Rightarrow> kern \<Rightarrow> kern kp" where
  "wakeall_grab wl l s = do {
     (target, s1) \<leftarrow> on_lists_ret (threadlist_remhead wl) s;
     (case target of
        None \<Rightarrow> Some s1
      | Some t \<Rightarrow> do {
          s2 \<leftarrow> on_lists (threadlist_addtail l t) s1;
          wakeall_grab wl l s2
        })
   }"

partial_function (option) wakeall_run :: "nat \<Rightarrow> lid \<Rightarrow> kern \<Rightarrow> kern kp" where
  "wakeall_run me l s = do {
     (target, s1) \<leftarrow> on_lists_ret (threadlist_remhead l) s;
     (case target of
        None \<Rightarrow> Some s1
      | Some t \<Rightarrow> do {
          s2 \<leftarrow> thread_make_runnable me t False s1;
          wakeall_run me l s2
        })
   }"

definition wchan_wakeall :: "nat \<Rightarrow> wchan \<Rightarrow> splkid \<Rightarrow> kern \<Rightarrow> kern kp" where
  "wchan_wakeall me wc lk s = do {
     kassert (spinlock_do_i_hold me lk s);
     let s1 = s\<lparr>lists := threadlist_init (Local me) (lists s)\<rparr>;
     s2 \<leftarrow> wakeall_grab (wc_threads wc) (Local me) s1;
     s3 \<leftarrow> wakeall_run me (Local me) s2;
     threadlist_cleanup (Local me) (lists s3);
     Some s3
   }"

definition wchan_isempty :: "nat \<Rightarrow> wchan \<Rightarrow> splkid \<Rightarrow> kern \<Rightarrow> bool kp" where
  "wchan_isempty me wc lk s = do {
     kassert (spinlock_do_i_hold me lk s);
     Some (threadlist_isempty (wc_threads wc) (lists s))
   }"
subsection \<open>Forking and exit\<close>

text \<open>\<open>tcw\<close> is \<^verbatim>\<open>thread_count_wchan\<close>; \<open>mem\<close> and \<open>stk\<close> are what \<^verbatim>\<open>kmalloc\<close> gives for the
  structure and the stack.\<close>

definition thread_fork :: "wchan \<Rightarrow> nat \<Rightarrow> tid option \<Rightarrow> u32 list option \<Rightarrow> string \<Rightarrow> nat option \<Rightarrow> nat \<Rightarrow>
    kern \<Rightarrow> ((errno + unit) \<times> kern) kp" where
  "thread_fork tcw me mem stk name proc entrypoint s = do {
     (newthread, s1) \<leftarrow> thread_create mem name s;
     (case newthread of
        None \<Rightarrow> Some (Inl ENOMEM, s1)
      | Some nt \<Rightarrow>
          let s2 = s1\<lparr>t_stack := (t_stack s1)(nt := stk)\<rparr> in
          if stk = None then do {
            s3 \<leftarrow> thread_destroy me nt s2;
            Some (Inl ENOMEM, s3)
          }
          else do {
            s3 \<leftarrow> thread_checkstack_init nt s2;
            let s4 = s3\<lparr>t_cpu := (t_cpu s3)(nt := t_cpu s3 (curthread me s3))\<rparr>;
            p \<leftarrow> (case proc of None \<Rightarrow> t_proc s4 (curthread me s4) | Some p \<Rightarrow> Some p);
            s5 \<leftarrow> proc_addthread me p nt s4;
            let s6 = s5\<lparr>t_iplhigh_count := (t_iplhigh_count s5)(nt := t_iplhigh_count s5 nt + 1)\<rparr>;
            s7 \<leftarrow> spinlock_acquire me Thread_count_lock s6;
            let s8 = s7\<lparr>thread_count := thread_count s7 + 1\<rparr>;
            s9 \<leftarrow> wchan_wakeall me tcw Thread_count_lock s8;
            s10 \<leftarrow> spinlock_release me Thread_count_lock s9;
            let s11 = s10\<lparr>t_context := (t_context s10)(nt := Some (Ctx_startup entrypoint)),
                         t_live := insert nt (t_live s10)\<rparr>;
            s12 \<leftarrow> thread_make_runnable me nt False s11;
            Some (Inr (), s12)
          })
   }"

definition thread_exit :: "wchan \<Rightarrow> nat \<Rightarrow> kern \<Rightarrow> switch_result kp" where
  "thread_exit tcw me s = do {
     let cur = curthread me s;
     s1 \<leftarrow> proc_remthread me cur s;
     kassert (t_proc s1 cur = None);
     thread_checkstack cur s1;
     s2 \<leftarrow> (if thread_count s1 \<noteq> 0 then do {
              sa \<leftarrow> spinlock_acquire me Thread_count_lock s1;
              let sb = sa\<lparr>thread_count := thread_count sa - 1\<rparr>;
              sc \<leftarrow> wchan_wakeall me tcw Thread_count_lock sb;
              spinlock_release me Thread_count_lock sc
            } else Some s1);
     (_, s3) \<leftarrow> splhigh me s2;
     r \<leftarrow> thread_switch me S_ZOMBIE None None s3;
     (case r of Returned _ \<Rightarrow> None | _ \<Rightarrow> Some r)
   }"

text \<open>The loop of \<^verbatim>\<open>thread_wait_for_count\<close>, one turn: the lock is held and the count is tested.\<close>

definition thread_wait_for_count_turn :: "wchan \<Rightarrow> nat \<Rightarrow> u32 \<Rightarrow> kern \<Rightarrow> switch_result kp" where
  "thread_wait_for_count_turn tcw me tc s =
     (if thread_count s \<noteq> tc then wchan_sleep me tcw Thread_count_lock s
      else map_option Returned (spinlock_release me Thread_count_lock s))"

definition thread_wait_for_count :: "wchan \<Rightarrow> nat \<Rightarrow> u32 \<Rightarrow> kern \<Rightarrow> switch_result kp" where
  "thread_wait_for_count tcw me tc s = do {
     s1 \<leftarrow> spinlock_acquire me Thread_count_lock s;
     thread_wait_for_count_turn tcw me tc s1
   }"

subsection \<open>Migration\<close>

fun migration_counts :: "nat \<Rightarrow> nat list \<Rightarrow> u32 \<Rightarrow> u32 \<Rightarrow> kern \<Rightarrow> (u32 \<times> u32 \<times> kern) kp" where
  "migration_counts me [] my_count total_count s = Some (my_count, total_count, s)"
| "migration_counts me (c # cs) my_count total_count s = do {
     s1 \<leftarrow> spinlock_acquire me (Runqueue_lock c) s;
     let total_count = total_count + tl_count (lists s1) (Runqueue c);
     let my_count = (if c = me then tl_count (lists s1) (Runqueue c) else my_count);
     s2 \<leftarrow> spinlock_release me (Runqueue_lock c) s1;
     migration_counts me cs my_count total_count s2
   }"

fun migration_victims :: "nat \<Rightarrow> nat \<Rightarrow> kern \<Rightarrow> kern kp" where
  "migration_victims me 0 s = Some s"
| "migration_victims me (Suc n) s = do {
     (t, s1) \<leftarrow> on_lists_ret (threadlist_remtail (Runqueue me)) s;
     t' \<leftarrow> t;
     s2 \<leftarrow> on_lists (threadlist_addhead (Local me) t') s1;
     migration_victims me n s2
   }"

fun migrate_to :: "nat \<Rightarrow> nat \<Rightarrow> u32 \<Rightarrow> nat \<Rightarrow> kern \<Rightarrow> (nat \<times> kern) kp" where
  "migrate_to me c one_share 0 s = Some (0, s)"
| "migrate_to me c one_share (Suc to_send) s =
     (if tl_count (lists s) (Runqueue c) < one_share then do {
        (t, s1) \<leftarrow> on_lists_ret (threadlist_remhead (Local me)) s;
        t' \<leftarrow> t;
        if t' = curthread me s1 then do {
          s2 \<leftarrow> on_lists (threadlist_addtail (Local me) t') s1;
          migrate_to me c one_share to_send s2
        }
        else do {
          let s2 = s1\<lparr>t_cpu := (t_cpu s1)(t' := Some c)\<rparr>;
          s3 \<leftarrow> on_lists (threadlist_addtail (Runqueue c) t') s2;
          s4 \<leftarrow> (if c_isidle s3 c then ipi_send me c IPI_UNIDLE s3 else Some s3);
          migrate_to me c one_share to_send s4
        }
      }
      else Some (Suc to_send, s))"

fun migrate_all :: "nat \<Rightarrow> nat list \<Rightarrow> u32 \<Rightarrow> nat \<Rightarrow> kern \<Rightarrow> kern kp" where
  "migrate_all me [] one_share to_send s = Some s"
| "migrate_all me (c # cs) one_share to_send s =
     (if to_send = 0 then Some s
      else if c = me then migrate_all me cs one_share to_send s
      else do {
        s1 \<leftarrow> spinlock_acquire me (Runqueue_lock c) s;
        (n, s2) \<leftarrow> migrate_to me c one_share to_send s1;
        s3 \<leftarrow> spinlock_release me (Runqueue_lock c) s2;
        migrate_all me cs one_share n s3
      })"

definition thread_consider_migration :: "nat \<Rightarrow> kern \<Rightarrow> kern kp" where
  "thread_consider_migration me s = do {
     let numcpus = allcpus_num s;
     let cs = [0..<unat numcpus];
     (my_count, total_count, s1) \<leftarrow> migration_counts me cs 0 0 s;
     let one_share = DIVROUNDUP total_count numcpus;
     if my_count < one_share then Some s1
     else do {
       let to_send = unat (my_count - one_share);
       let s2 = s1\<lparr>lists := threadlist_init (Local me) (lists s1)\<rparr>;
       s3 \<leftarrow> spinlock_acquire me (Runqueue_lock me) s2;
       s4 \<leftarrow> migration_victims me to_send s3;
       s5 \<leftarrow> spinlock_release me (Runqueue_lock me) s4;
       s6 \<leftarrow> migrate_all me cs one_share to_send s5;
       s7 \<leftarrow> (if \<not> threadlist_isempty (Local me) (lists s6) then do {
                sa \<leftarrow> spinlock_acquire me (Runqueue_lock me) s6;
                sb \<leftarrow> wakeall_grab (Local me) (Runqueue me) sa;
                spinlock_release me (Runqueue_lock me) sb
              } else Some s6);
       kassert (threadlist_isempty (Local me) (lists s7));
       threadlist_cleanup (Local me) (lists s7);
       Some s7
     }
   }"

text \<open>\<^verbatim>\<open>schedule\<close> has an empty body.\<close>

definition schedule :: "nat \<Rightarrow> kern \<Rightarrow> kern" where
  "schedule me s = s"

definition thread_shutdown :: "nat \<Rightarrow> kern \<Rightarrow> kern kp" where
  "thread_shutdown me s = ipi_broadcast me IPI_OFFLINE s"

definition thread_panic :: "nat \<Rightarrow> kern \<Rightarrow> kern kp" where
  "thread_panic me s = do {
     s1 \<leftarrow> ipi_broadcast me IPI_PANIC s;
     Some (s1\<lparr>lists := set_prev (Tail (Runqueue me)) (Some (Head (Runqueue me)))
       (set_next (Head (Runqueue me)) (Some (Tail (Runqueue me))) (set_count (Runqueue me) 0 (lists s1)))\<rparr>)
   }"

end
