(* ===== verification/Sched.thy ===== *)
theory Sched
  imports Threads
begin

unbundle bit_operations_syntax

text \<open>
  The invariant of the thread system of \<^verbatim>\<open>kern/thread/thread.c\<close> and the proof that every operation keeps it:
  a thread is always in exactly one place (running, on the run queue of its cpu, asleep on one channel, or
  dead on one zombie list), interrupt counts and spinlocks balance over every context switch, and no
  assertion fires. The lemmas give for each operation its exact effect on the lists.
\<close>

subsection \<open>The invariant of the thread system\<close>

definition cpus :: "kern \<Rightarrow> nat set" where
  "cpus s = {c. c < unat (allcpus_num s)}"

text \<open>The lists in use: the run queues and zombie lists of the cpus, and the lists \<open>W\<close> of wait
  channels and of running code.\<close>

definition lids :: "lid set \<Rightarrow> kern \<Rightarrow> lid set" where
  "lids W s = Runqueue ` cpus s \<union> Zombies ` cpus s \<union> W"

fun ctx_ok :: "saved_context option \<Rightarrow> bool" where
  "ctx_ok None = False"
| "ctx_ok (Some (Ctx_switch spl)) = (spl \<in> {IPL_NONE, IPL_HIGH})"
| "ctx_ok (Some (Ctx_startup ep)) = True"

text \<open>A cpu that holds the spinlocks \<open>H\<close>: it runs a thread that belongs to it, the interrupt count of that
  thread is its level plus the number of spinlocks, and interrupts are on exactly if it is zero.\<close>

definition cpu_ok :: "kern \<Rightarrow> nat \<Rightarrow> nat \<Rightarrow> bool" where
  "cpu_ok s held c \<longleftrightarrow> (let t = curthread c s in
     t \<in> t_live s \<and> t_cpu s t = Some c \<and> t_curspl s t \<in> {IPL_NONE, IPL_HIGH} \<and>
     (c_isidle s c \<longrightarrow> t_curspl s t = IPL_HIGH) \<and> (\<not> c_isidle s c \<longrightarrow> t_state s t = S_RUN) \<and>
     t_iplhigh_count s t = t_curspl s t + int held \<and> (c_irqon s c \<longleftrightarrow> t_iplhigh_count s t = 0))"

text \<open>A thread is running on a cpu that is not idle, or on a list, or among the threads \<open>F\<close> the
  running code has just taken off a list. If no cpu has it as its current thread, it has a saved context and
  the interrupt count of a thread inside \<^verbatim>\<open>thread_switch\<close>.\<close>

definition thr_ok :: "lid set \<Rightarrow> (lid \<Rightarrow> tid list) \<Rightarrow> tid set \<Rightarrow> kern \<Rightarrow> tid \<Rightarrow> bool" where
  "thr_ok W Q F s t \<longleftrightarrow> (\<exists>c \<in> cpus s. t_cpu s t = Some c) \<and>
     (t_state s t = S_RUN \<longrightarrow> (\<exists>c \<in> cpus s. \<not> c_isidle s c \<and> curthread c s = t)) \<and>
     (t_state s t \<noteq> S_RUN \<longrightarrow> (t \<in> F \<longleftrightarrow> (\<forall>l \<in> lids W s. t \<notin> set (Q l)))) \<and>
     ((\<forall>c \<in> cpus s. curthread c s \<noteq> t) \<longrightarrow>
        ctx_ok (t_context s t) \<and> t_curspl s t = IPL_HIGH \<and> t_iplhigh_count s t = 2)"

fun list_ok :: "(lid \<Rightarrow> tid list) \<Rightarrow> kern \<Rightarrow> lid \<Rightarrow> bool" where
  "list_ok Q s (Runqueue c) = (\<forall>t \<in> set (Q (Runqueue c)). t_state s t = S_READY \<and> t_cpu s t = Some c)"
| "list_ok Q s (Zombies c) =
     (\<forall>t \<in> set (Q (Zombies c)). t_state s t = S_ZOMBIE \<and> t_cpu s t = Some c \<and> t_proc s t = None)"
| "list_ok Q s (Wchan w) = (\<forall>t \<in> set (Q (Wchan w)). t_state s t = S_SLEEP)"
| "list_ok Q s (Local c) = (\<forall>t \<in> set (Q (Local c)). t_state s t = S_SLEEP \<or> t_state s t = S_READY)"

definition locks_ok :: "nat \<Rightarrow> splkid set \<Rightarrow> kern \<Rightarrow> bool" where
  "locks_ok me H s \<longleftrightarrow> finite H \<and> card H < 2 ^ 31 \<and>
     (\<forall>k. if k \<in> H then splk_holder s k = Some me else splk_holder s k = None \<and> splk_lock s k = 0) \<and>
     (\<forall>c. c_spinlocks s c = (if c = me then of_nat (card H) else 0))"

definition sched_inv :: "lid set \<Rightarrow> (lid \<Rightarrow> tid list) \<Rightarrow> tid set \<Rightarrow> nat \<Rightarrow> splkid set \<Rightarrow> kern \<Rightarrow> bool" where
  "sched_inv W Q F me H s \<longleftrightarrow> curcpu_exists s \<and> me \<in> cpus s \<and> W \<subseteq> range Wchan \<union> range Local \<and>
     lists_inv (lists s) (t_alloc s) (lids W s) Q \<and> t_live s \<subseteq> t_alloc s \<and>
     (\<forall>l \<in> lids W s. set (Q l) \<subseteq> t_live s) \<and> locks_ok me H s \<and> F \<subseteq> {t \<in> t_live s. t_state s t \<noteq> S_RUN} \<and>
     (\<forall>c \<in> cpus s. cpu_ok s (if c = me then card H else 0) c) \<and>
     (\<forall>t \<in> t_live s. thr_ok W Q F s t) \<and>
     (\<forall>l \<in> lids W s. list_ok Q s l)"

lemma sched_invD:
  assumes "sched_inv W Q F me H s"
  shows "curcpu_exists s" "me \<in> cpus s" "W \<subseteq> range Wchan \<union> range Local"
    "lists_inv (lists s) (t_alloc s) (lids W s) Q" "locks_ok me H s" "F \<subseteq> {t \<in> t_live s. t_state s t \<noteq> S_RUN}"
    "c \<in> cpus s \<Longrightarrow> cpu_ok s (if c = me then card H else 0) c" "t \<in> t_live s \<Longrightarrow> thr_ok W Q F s t"
    "l \<in> lids W s \<Longrightarrow> list_ok Q s l" "t_live s \<subseteq> t_alloc s" "l \<in> lids W s \<Longrightarrow> set (Q l) \<subseteq> t_live s"
  using assms unfolding sched_inv_def by auto

lemma lids_mem: "c \<in> cpus s \<Longrightarrow> Runqueue c \<in> lids W s" "c \<in> cpus s \<Longrightarrow> Zombies c \<in> lids W s"
  "w \<in> W \<Longrightarrow> w \<in> lids W s"
  by (auto simp: lids_def)

lemma sched_inv_cur_distinct:
  assumes "sched_inv W Q F me H s" "c \<in> cpus s" "d \<in> cpus s" "curthread c s = curthread d s"
  shows "c = d"
  using sched_invD(7) [OF assms(1,2)] sched_invD(7) [OF assms(1,3)] assms(4) by (simp add: cpu_ok_def Let_def)

text \<open>A thread that runs on a cpu which is not idle is on no list.\<close>

lemma sched_inv_listed:
  assumes "sched_inv W Q F me H s" "l \<in> lids W s" "t \<in> set (Q l)"
  shows "t \<in> t_live s" "t_state s t \<noteq> S_RUN" "t \<notin> F"
proof -
  show live: "t \<in> t_live s"
    using sched_invD(11) [OF assms(1,2)] assms(3) by blast
  show run: "t_state s t \<noteq> S_RUN"
    using sched_invD(9) [OF assms(1,2)] assms(3) by (cases l) auto
  show "t \<notin> F"
    using sched_invD(8) [OF assms(1) live] assms(2,3) run by (auto simp: thr_ok_def)
qed

lemma sched_inv_running:
  assumes "sched_inv W Q F me H s" "c \<in> cpus s" "\<not> c_isidle s c"
  shows "on_no_list (t_alloc s) (lids W s) Q (curthread c s)" "t_state s (curthread c s) = S_RUN"
    "curthread c s \<notin> F"
proof -
  show run: "t_state s (curthread c s) = S_RUN"
    using sched_invD(7) [OF assms(1,2)] assms(3) by (simp add: cpu_ok_def Let_def)
  show "on_no_list (t_alloc s) (lids W s) Q (curthread c s)"
    using sched_invD(7) [OF assms(1,2)] sched_inv_listed(2) [OF assms(1)] run sched_invD(10) [OF assms(1)]
    by (auto simp: on_no_list_def cpu_ok_def Let_def)
  show "curthread c s \<notin> F"
    using sched_invD(6) [OF assms(1)] run by auto
qed

lemma sched_inv_floating:
  assumes "sched_inv W Q F me H s" "t \<in> F"
  shows "on_no_list (t_alloc s) (lids W s) Q t"
  using sched_invD(6) [OF assms(1)] sched_invD(8) [OF assms(1)] sched_invD(10) [OF assms(1)] assms(2)
  by (auto simp: on_no_list_def thr_ok_def)

subsection \<open>Spinlocks keep the invariant\<close>

lemma locks_ok_free:
  "locks_ok me H s \<Longrightarrow> k \<notin> H \<Longrightarrow> splk_holder s k = None \<and> splk_lock s k = 0"
  by (auto simp: locks_ok_def split: if_splits)

lemma locks_ok_count:
  assumes "locks_ok me H s"
  shows "unat (c_spinlocks s me) = card H"
  using assms by (simp add: locks_ok_def unat_of_nat_id)

lemma locks_ok_acquired:
  "locks_ok me H s \<Longrightarrow> k \<notin> H \<Longrightarrow> card H + 1 < 2 ^ 31 \<Longrightarrow> locks_ok me (insert k H) (acquired me k s)"
  unfolding locks_ok_def acquired_def by auto

lemma locks_ok_released:
  assumes "locks_ok me H s" "k \<in> H"
  shows "locks_ok me (H - {k}) (released me k s)"
proof -
  have "finite H" using assms(1) by (simp add: locks_ok_def)
  then have "card H = Suc (card (H - {k}))" using assms(2) by (metis card.remove)
  then show ?thesis
    using assms by (auto simp: locks_ok_def released_def)
qed

text \<open>Whatever changes only the level, the interrupt count and the spinlocks of the cpu keeps the
  invariant if it keeps the count in step.\<close>

lemma sched_inv_relevel:
  assumes inv: "sched_inv W Q F me H s" and locks: "locks_ok me H' s'"
    and s': "s' = s\<lparr>c_irqon := (c_irqon s)(me := n = 0), t_curspl := (t_curspl s)(curthread me s := l),
      t_iplhigh_count := (t_iplhigh_count s)(curthread me s := n), c_spinlocks := sl, splk_lock := w, splk_holder := h\<rparr>"
    and l: "l \<in> {IPL_NONE, IPL_HIGH}" "c_isidle s me \<Longrightarrow> l = IPL_HIGH" "n = l + int (card H')"
  shows "sched_inv W Q F me H' s'"
proof -
  note d = sched_invD [OF inv]
  have cpu: "cpu_ok s' (if c = me then card H' else 0) c" if "c \<in> cpus s" for c
    using d(7) [OF that] d(2) sched_inv_cur_distinct [OF inv that d(2)] l
    by (cases "c = me") (auto simp: cpu_ok_def s' Let_def)
  have cps: "cpus s' = cpus s" by (simp add: cpus_def s')
  have lid: "lids W s' = lids W s" by (simp add: lids_def cps)
  have thr: "thr_ok W Q F s' t" if "t \<in> t_live s" for t
    using d(8) [OF that] d(2) unfolding thr_ok_def lid cps by (auto simp: s')
  have ls: "list_ok Q s' m" if "m \<in> lids W s" for m
    using d(9) [OF that] by (cases m) (auto simp: s')
  show ?thesis
    unfolding sched_inv_def cps lid using d(1-4,6,10,11) cpu thr ls locks by (simp add: s')
qed

lemma cpu_okD:
  assumes "sched_inv W Q F me H s"
  shows "t_iplhigh_count s (curthread me s) = t_curspl s (curthread me s) + int (card H)"
    "c_irqon s me \<longleftrightarrow> t_iplhigh_count s (curthread me s) = 0"
    "t_curspl s (curthread me s) \<in> {IPL_NONE, IPL_HIGH}"
    "c_isidle s me \<Longrightarrow> t_curspl s (curthread me s) = IPL_HIGH"
  using sched_invD(7) [OF assms sched_invD(2) [OF assms]] by (simp_all add: cpu_ok_def Let_def)

lemma acquire_inv:
  assumes inv: "sched_inv W Q F me H s" and k: "k \<notin> H" "card H + 1 < 2 ^ 31"
  shows "spinlock_acquire me k s = Some (acquired me k s)"
    "sched_inv W Q F me (insert k H) (acquired me k s)"
proof -
  note d = sched_invD [OF inv] and c = cpu_okD [OF inv]
  show "spinlock_acquire me k s = Some (acquired me k s)"
    using d(1) locks_ok_free [OF d(5) k(1)] by (simp add: spinlock_acquire_eq)
  have "finite H" using d(5) by (simp add: locks_ok_def)
  with k(1) have n: "t_iplhigh_count s (curthread me s) + 1 = t_curspl s (curthread me s) + int (card (insert k H))"
    by (simp add: c(1))
  have off: "(t_iplhigh_count s (curthread me s) + 1 = 0) = False"
    using c(1,3) by (auto simp: IPL_NONE_def IPL_HIGH_def)
  show "sched_inv W Q F me (insert k H) (acquired me k s)"
  proof (rule sched_inv_relevel [OF inv locks_ok_acquired [OF d(5) k],
          where n = "t_iplhigh_count s (curthread me s) + 1" and l = "t_curspl s (curthread me s)"
            and sl = "(c_spinlocks s)(me := c_spinlocks s me + 1)" and w = "(splk_lock s)(k := 1)"
            and h = "(splk_holder s)(k := Some me)"])
    show "acquired me k s = s\<lparr>
      c_irqon := (c_irqon s)(me := t_iplhigh_count s (curthread me s) + 1 = 0),
      t_curspl := (t_curspl s)(curthread me s := t_curspl s (curthread me s)),
      t_iplhigh_count := (t_iplhigh_count s)(curthread me s := t_iplhigh_count s (curthread me s) + 1),
      c_spinlocks := (c_spinlocks s)(me := c_spinlocks s me + 1), splk_lock := (splk_lock s)(k := 1),
      splk_holder := (splk_holder s)(k := Some me)\<rparr>"
      by (simp add: acquired_def off c(2))
  qed (fact c(3), fact c(4), fact n)
qed

lemma release_inv:
  assumes inv: "sched_inv W Q F me H s" and k: "k \<in> H"
  shows "spinlock_release me k s = Some (released me k s)" "sched_inv W Q F me (H - {k}) (released me k s)"
proof -
  note d = sched_invD [OF inv] and c = cpu_okD [OF inv]
  have card: "card H = Suc (card (H - {k}))"
    using card.remove [OF _ k] d(5) by (simp add: locks_ok_def)
  then have pos: "0 < card H" by linarith
  then have "0 < unat (c_spinlocks s me)" by (simp add: locks_ok_count [OF d(5)])
  moreover have "splk_holder s k = Some me"
    using d(5) k by (auto simp: locks_ok_def split: if_splits)
  ultimately show "spinlock_release me k s = Some (released me k s)"
    using d(1) by (intro spinlock_release_eq) (simp_all add: word_less_nat_alt)
  have irq: "(c_irqon s me \<or> t_iplhigh_count s (curthread me s) = 1) = (t_iplhigh_count s (curthread me s) - 1 = 0)"
    using c(1-3) pos by (auto simp: IPL_NONE_def IPL_HIGH_def)
  have n: "t_iplhigh_count s (curthread me s) - 1 = t_curspl s (curthread me s) + int (card (H - {k}))"
    using c(1) card by linarith
  show "sched_inv W Q F me (H - {k}) (released me k s)"
  proof (rule sched_inv_relevel [OF inv locks_ok_released [OF d(5) k],
          where n = "t_iplhigh_count s (curthread me s) - 1" and l = "t_curspl s (curthread me s)"
            and sl = "(c_spinlocks s)(me := c_spinlocks s me - 1)" and w = "(splk_lock s)(k := 0)"
            and h = "(splk_holder s)(k := None)"])
    show "released me k s = s\<lparr>
      c_irqon := (c_irqon s)(me := t_iplhigh_count s (curthread me s) - 1 = 0),
      t_curspl := (t_curspl s)(curthread me s := t_curspl s (curthread me s)),
      t_iplhigh_count := (t_iplhigh_count s)(curthread me s := t_iplhigh_count s (curthread me s) - 1),
      c_spinlocks := (c_spinlocks s)(me := c_spinlocks s me - 1), splk_lock := (splk_lock s)(k := 0),
      splk_holder := (splk_holder s)(k := None)\<rparr>"
      by (simp add: released_def irq)
  qed (fact c(3), fact c(4), fact n)
qed

definition relevel :: "nat \<Rightarrow> int \<Rightarrow> int \<Rightarrow> kern \<Rightarrow> kern" where
  "relevel me l n s = s\<lparr>c_irqon := (c_irqon s)(me := n = 0), t_curspl := (t_curspl s)(curthread me s := l),
     t_iplhigh_count := (t_iplhigh_count s)(curthread me s := n)\<rparr>"

lemma splx_inv:
  assumes inv: "sched_inv W Q F me H s" and l: "l \<in> {IPL_NONE, IPL_HIGH}" "c_isidle s me \<longrightarrow> l = IPL_HIGH"
  shows "splx me l s = Some (t_curspl s (curthread me s), relevel me l (l + int (card H)) s)"
    "sched_inv W Q F me H (relevel me l (l + int (card H)) s)"
proof -
  note d = sched_invD [OF inv] and c = cpu_okD [OF inv]
  define s' where "s' = relevel me l (l + int (card H)) s"
  have eq: "s' = s" if "t_curspl s (curthread me s) = l"
    unfolding s'_def relevel_def using c that
    by (intro kern.equality) (simp_all add: fun_upd_idem)
  have up: "s' = s\<lparr>c_irqon := (c_irqon s)(me := False), t_curspl := (t_curspl s)(curthread me s := 1),
      t_iplhigh_count := (t_iplhigh_count s)(curthread me s := 1 + int (card H))\<rparr>" if "l = 1"
    unfolding s'_def relevel_def using that by simp
  consider "t_curspl s (curthread me s) = l" | "t_curspl s (curthread me s) = 0" "l = 1"
    | "t_curspl s (curthread me s) = 1" "l = 0"
    using c(3) l(1) by (auto simp: IPL_NONE_def IPL_HIGH_def)
  then have "splx me l s = Some (t_curspl s (curthread me s), s')"
  proof cases
    case 1
    then show ?thesis using eq d(1) by (simp add: splx_def Let_def)
  next
    case 2
    then show ?thesis using c(1,2) d(1) up by (simp add: spl_defs Let_def fun_upd_idem add.commute)
  next
    case 3
    then show ?thesis using c(1,2) d(1) by (simp add: spl_defs Let_def s'_def relevel_def fun_upd_idem)
  qed
  then show "splx me l s = Some (t_curspl s (curthread me s), relevel me l (l + int (card H)) s)"
    by (simp add: s'_def)
  have "locks_ok me H s'" using d(5) by (simp add: locks_ok_def s'_def relevel_def)
  then show "sched_inv W Q F me H (relevel me l (l + int (card H)) s)"
    unfolding s'_def
    by (rule sched_inv_relevel [OF inv, where l = l and n = "l + int (card H)" and sl = "c_spinlocks s" and w = "splk_lock s" and h = "splk_holder s"])
      (use l in \<open>simp_all add: relevel_def\<close>)
qed

text \<open>The fields the invariant is about; the others may change freely.\<close>

lemma sched_inv_cong:
  assumes "t_state s' = t_state s" "t_context s' = t_context s" "t_cpu s' = t_cpu s" "t_proc s' = t_proc s"
    "t_curspl s' = t_curspl s" "t_iplhigh_count s' = t_iplhigh_count s" "t_live s' = t_live s" "t_alloc s' = t_alloc s"
    "c_curthread s' = c_curthread s" "c_spinlocks s' = c_spinlocks s" "c_irqon s' = c_irqon s"
    "c_isidle s' = c_isidle s" "allcpus_num s' = allcpus_num s" "curcpu_exists s' = curcpu_exists s"
    "splk_lock s' = splk_lock s" "splk_holder s' = splk_holder s" "lists s' = lists s"
  shows "sched_inv W Q F me H s' = sched_inv W Q F me H s"
proof -
  have "list_ok Q s' m = list_ok Q s m" for m
    by (cases m) (simp_all add: assms)
  moreover have "cpus s' = cpus s" by (simp add: cpus_def assms)
  ultimately show ?thesis
    by (simp add: sched_inv_def lids_def cpu_ok_def thr_ok_def locks_ok_def assms Let_def)
qed

lemma sched_inv_irrelevant [simp]:
  "sched_inv W Q F me H (s\<lparr>t_wchan_name := x1\<rparr>) = sched_inv W Q F me H s"
  "sched_inv W Q F me H (s\<lparr>c_ipi_pending := x2\<rparr>) = sched_inv W Q F me H s"
  "sched_inv W Q F me H (s\<lparr>mainbus_ipis := x3\<rparr>) = sched_inv W Q F me H s"
  "sched_inv W Q F me H (s\<lparr>thread_count := x4\<rparr>) = sched_inv W Q F me H s"
  "sched_inv W Q F me H (s\<lparr>p_numthreads := x5\<rparr>) = sched_inv W Q F me H s"
  "sched_inv W Q F me H (s\<lparr>t_stack := x6\<rparr>) = sched_inv W Q F me H s"
  "sched_inv W Q F me H (s\<lparr>t_name := x7\<rparr>) = sched_inv W Q F me H s"
  "sched_inv W Q F me H (s\<lparr>c_shootdown := x8\<rparr>) = sched_inv W Q F me H s"
  "sched_inv W Q F me H (s\<lparr>c_numshootdown := x9\<rparr>) = sched_inv W Q F me H s"
  "sched_inv W Q F me H (s\<lparr>t_in_interrupt := x10\<rparr>) = sched_inv W Q F me H s"
  by (rule sched_inv_cong; simp)+

text \<open>What the wake-up functions leave alone.\<close>

definition undisturbed :: "kern \<Rightarrow> kern \<Rightarrow> bool" where
  "undisturbed s s' \<longleftrightarrow> c_curthread s' = c_curthread s \<and> c_isidle s' = c_isidle s \<and>
     allcpus_num s' = allcpus_num s \<and> t_cpu s' = t_cpu s \<and> t_proc s' = t_proc s \<and> t_live s' = t_live s \<and>
     t_in_interrupt s' = t_in_interrupt s \<and> t_stack s' = t_stack s \<and> t_curspl s' = t_curspl s \<and>
     t_alloc s' = t_alloc s \<and>
     t_context s' = t_context s \<and> thread_count s' = thread_count s \<and> p_numthreads s' = p_numthreads s \<and>
     (\<forall>t. t \<notin> t_live s \<longrightarrow> (\<forall>c. curthread c s \<noteq> t) \<longrightarrow>
        t_iplhigh_count s' t = t_iplhigh_count s t \<and> t_state s' t = t_state s t)"

lemma undisturbed_trans: "undisturbed s s' \<Longrightarrow> undisturbed s' s'' \<Longrightarrow> undisturbed s s''"
  by (auto simp: undisturbed_def)

lemma undisturbed_locks [simp]: "undisturbed s (acquired me k s)" "undisturbed s (released me k s)"
  by (auto simp: undisturbed_def acquired_def released_def)

lemma undisturbed_cpus: "undisturbed s s' \<Longrightarrow> cpus s' = cpus s" "undisturbed s s' \<Longrightarrow> lids W s' = lids W s"
  by (auto simp: undisturbed_def cpus_def lids_def)

lemma ipi_send_inv:
  assumes inv: "sched_inv W Q F me H s" and H: "Ipi_lock target \<notin> H" "card H + 1 < 2 ^ 31" and code: "code < 32"
  shows "\<exists>s'. ipi_send me target code s = Some s' \<and> sched_inv W Q F me H s' \<and> undisturbed s s' \<and>
    lists s' = lists s \<and> t_state s' = t_state s \<and> mainbus_ipis s' = target # mainbus_ipis s"
proof -
  let ?k = "Ipi_lock target"
  let ?s1 = "acquired me ?k s"
  let ?s2 = "?s1\<lparr>c_ipi_pending := (c_ipi_pending ?s1)(target := c_ipi_pending ?s1 target OR push_bit code 1),
    mainbus_ipis := target # mainbus_ipis ?s1\<rparr>"
  have "sched_inv W Q F me (insert ?k H) ?s2"
    using acquire_inv(2) [OF inv H] by simp
  from release_inv [OF this, of ?k] H(1)
  have "spinlock_release me ?k ?s2 = Some (released me ?k ?s2)" "sched_inv W Q F me H (released me ?k ?s2)"
    by simp_all
  then show ?thesis
    using code acquire_inv(1) [OF inv H]
    by (auto simp: ipi_send_def undisturbed_def acquired_def released_def)
qed

subsection \<open>Taking a thread off a list and putting it on one\<close>

lemma on_lists_simps [simp]:
  "f (lists s) = Some h \<Longrightarrow> on_lists f s = Some (s\<lparr>lists := h\<rparr>)"
  "g (lists s) = Some (r, h) \<Longrightarrow> on_lists_ret g s = Some (r, s\<lparr>lists := h\<rparr>)"
  by (simp_all add: on_lists_def on_lists_ret_def)

lemma list_ok_mono:
  "list_ok Q s l \<Longrightarrow> set (Q' l) \<subseteq> set (Q l) \<Longrightarrow> list_ok Q' s l"
  by (cases l) auto

lemma list_ok_cong:
  "list_ok Q s l \<Longrightarrow> (\<And>t. t \<in> set (Q l) \<Longrightarrow> t_state s' t = t_state s t \<and> t_cpu s' t = t_cpu s t \<and> t_proc s' t = t_proc s t) \<Longrightarrow>
     list_ok Q s' l"
  by (cases l) auto

lemma sched_inv_take:
  assumes inv: "sched_inv W Q F me H s" and l: "l \<in> lids W s" and Q: "set (Q l) = insert t (set ts)" "t \<notin> set ts"
    and h: "lists_inv h (t_alloc s) (lids W s) (Q(l := ts))"
  shows "sched_inv W (Q(l := ts)) (insert t F) me H (s\<lparr>lists := h\<rparr>)"
proof -
  note d = sched_invD [OF inv]
  let ?s = "s\<lparr>lists := h\<rparr>"
  have cps: "cpus ?s = cpus s" "lids W ?s = lids W s" by (simp_all add: cpus_def lids_def)
  have t: "t \<in> t_live s" "t_state s t \<noteq> S_RUN"
    using sched_inv_listed [OF inv l] Q by auto
  have other: "t \<notin> set (Q m)" if "m \<in> lids W s" "m \<noteq> l" for m
    using lists_inv_disj [OF d(4) l that] Q by auto
  have thr: "thr_ok W (Q(l := ts)) (insert t F) ?s u" if "u \<in> t_live s" for u
    using d(8) [OF that] other Q l unfolding thr_ok_def cps by (auto split: if_splits)
  have "list_ok (Q(l := ts)) ?s m" if "m \<in> lids W s" for m
  proof (rule list_ok_cong)
    show "list_ok (Q(l := ts)) s m"
      by (rule list_ok_mono [OF d(9) [OF that]]) (use Q in auto)
  qed simp
  moreover have "set ((Q(l := ts)) m) \<subseteq> t_live s" if "m \<in> lids W s" for m
    using d(11) [OF l] d(11) [OF that] Q by auto
  ultimately show ?thesis
    unfolding sched_inv_def cps using d(1-7,10) t thr h
    by (auto simp: locks_ok_def cpu_ok_def Let_def)
qed

text \<open>The states and owners a list admits.\<close>

fun admits :: "kern \<Rightarrow> lid \<Rightarrow> tid \<Rightarrow> threadstate \<Rightarrow> bool" where
  "admits s (Runqueue c) t st = (st = S_READY \<and> t_cpu s t = Some c)"
| "admits s (Zombies c) t st = (st = S_ZOMBIE \<and> t_cpu s t = Some c \<and> t_proc s t = None)"
| "admits s (Wchan w) t st = (st = S_SLEEP)"
| "admits s (Local c) t st = (st = S_SLEEP \<or> st = S_READY)"

lemma list_ok_admits: "list_ok Q s l \<longleftrightarrow> (\<forall>t \<in> set (Q l). admits s l t (t_state s t))"
  by (cases l) auto

lemma admits_not_run: "admits s l t st \<Longrightarrow> st \<noteq> S_RUN"
  by (cases l) auto

lemma sched_inv_put:
  assumes inv: "sched_inv W Q F me H s" and l: "l \<in> lids W s" and t: "t \<in> F" and st: "admits s l t st"
    and Q: "set ts = insert t (set (Q l))"
    and h: "lists_inv h (t_alloc s) (lids W s) (Q(l := ts))"
  shows "sched_inv W (Q(l := ts)) (F - {t}) me H (s\<lparr>lists := h, t_state := (t_state s)(t := st)\<rparr>)"
proof -
  note d = sched_invD [OF inv]
  let ?s = "s\<lparr>lists := h, t_state := (t_state s)(t := st)\<rparr>"
  have cps: "cpus ?s = cpus s" "lids W ?s = lids W s" by (simp_all add: cpus_def lids_def)
  have run: "t_state s t \<noteq> S_RUN" "st \<noteq> S_RUN"
    using d(6) t admits_not_run [OF st] by auto
  have off: "t \<notin> set (Q m)" if "m \<in> lids W s" for m
    using sched_inv_floating [OF inv t] that by (simp add: on_no_list_def)
  have cpu: "cpu_ok ?s (if c = me then card H else 0) c" if "c \<in> cpus s" for c
    using d(7) [OF that] sched_inv_running(2) [OF inv that] run by (auto simp: cpu_ok_def Let_def)
  have thr: "thr_ok W (Q(l := ts)) (F - {t}) ?s u" if "u \<in> t_live s" for u
    using d(8) [OF that] off Q l run unfolding thr_ok_def cps by (auto split: if_splits)
  have "list_ok (Q(l := ts)) ?s m" if "m \<in> lids W s" for m
  proof (cases "m = l")
    case True
    have "admits ?s l u (t_state ?s u)" if "u \<in> set ts" for u
      using d(9) [OF l] st that Q by (cases l) (auto simp: list_ok_admits)
    then show ?thesis by (simp add: True list_ok_admits)
  next
    case False
    then show ?thesis
      using d(9) [OF that] off [OF that] by (cases m) auto
  qed
  moreover have "set ((Q(l := ts)) m) \<subseteq> t_live s" if "m \<in> lids W s" for m
    using d(11) [OF l] d(11) [OF that] Q d(6) t by auto
  ultimately show ?thesis
    unfolding sched_inv_def cps using d(1-6,10) cpu thr h run by (auto simp: locks_ok_def)
qed

lemma make_runnable_inv:
  assumes inv: "sched_inv W Q F me H s" and t: "t \<in> F" "t_cpu s t = Some c"
    and H: "Runqueue_lock c \<notin> H" "Ipi_lock c \<notin> H" "card H + 2 < 2 ^ 31"
  shows "\<exists>s'. thread_make_runnable me t False s = Some s' \<and>
    sched_inv W (Q(Runqueue c := Q (Runqueue c) @ [t])) (F - {t}) me H s' \<and> undisturbed s s' \<and>
    t_state s' = (t_state s)(t := S_READY) \<and>
    mainbus_ipis s' = (if c_isidle s c \<and> c \<noteq> me then c # mainbus_ipis s else mainbus_ipis s)"
proof -
  let ?k = "Runqueue_lock c" and ?Q = "Q(Runqueue c := Q (Runqueue c) @ [t])"
  let ?s1 = "acquired me ?k s"
  note d = sched_invD [OF inv]
  have a: "spinlock_acquire me ?k s = Some ?s1" "sched_inv W Q F me (insert ?k H) ?s1"
    using acquire_inv [OF inv H(1)] H(3) by simp_all
  have c: "c \<in> cpus s" using d(6) t d(8) [of t] by (auto simp: thr_ok_def)
  have same: "cpus ?s1 = cpus s" "lids W ?s1 = lids W s" "t_alloc ?s1 = t_alloc s" "t_cpu ?s1 = t_cpu s"
    "lists ?s1 = lists s" "t_state ?s1 = t_state s" "c_isidle ?s1 = c_isidle s"
    by (simp_all add: acquired_def cpus_def lids_def)
  obtain h where h: "threadlist_addtail (Runqueue c) t (lists s) = Some h" "lists_inv h (t_alloc s) (lids W s) ?Q"
    using tlq.addtail_law [OF d(4) lids_mem(1) [OF c] sched_inv_floating [OF inv t(1)]] by blast
  define s3 where "s3 = ?s1\<lparr>t_state := (t_state ?s1)(t := S_READY), lists := h\<rparr>"
  have s3: "on_lists (threadlist_addtail (Runqueue c) t) (?s1\<lparr>t_state := (t_state ?s1)(t := S_READY)\<rparr>) = Some s3"
    unfolding s3_def by (simp add: h same)
  have "s3 = ?s1\<lparr>lists := h, t_state := (t_state ?s1)(t := S_READY)\<rparr>" by (simp add: s3_def)
  then have inv3: "sched_inv W ?Q (F - {t}) me (insert ?k H) s3"
    using sched_inv_put [OF a(2), of "Runqueue c" t S_READY "Q (Runqueue c) @ [t]" h] t h c
    by (simp add: same lids_mem)
  have fin: "finite H" using d(5) by (simp add: locks_ok_def)
  have H': "Ipi_lock c \<notin> insert ?k H" "card (insert ?k H) + 1 < 2 ^ 31"
    using H fin by simp_all
  obtain s4 where s4: "(if c_isidle s3 c \<and> c \<noteq> me then ipi_send me c IPI_UNIDLE s3 else Some s3) = Some s4"
    "sched_inv W ?Q (F - {t}) me (insert ?k H) s4" "undisturbed s3 s4" "t_state s4 = t_state s3"
    "mainbus_ipis s4 = (if c_isidle s c \<and> c \<noteq> me then c # mainbus_ipis s else mainbus_ipis s)"
  proof (cases "c_isidle s3 c \<and> c \<noteq> me")
    case True
    then show thesis
      using ipi_send_inv [OF inv3 H', of IPI_UNIDLE] that
      by (auto simp: IPI_UNIDLE_def s3_def acquired_def)
  next
    case False
    then show thesis using that [of s3] inv3 by (auto simp: undisturbed_def s3_def acquired_def)
  qed
  have "t \<in> t_live s" using d(6) t(1) by auto
  then have "undisturbed s s3" by (auto simp: undisturbed_def s3_def acquired_def)
  moreover have r: "spinlock_release me ?k s4 = Some (released me ?k s4)"
    "sched_inv W ?Q (F - {t}) me H (released me ?k s4)"
    using release_inv [OF s4(2), of ?k] H(1) by simp_all
  moreover have "thread_make_runnable me t False s = Some (released me ?k s4)"
    using a(1) s3 s4(1) r(1) by (simp add: thread_make_runnable_def t(2))
  ultimately show ?thesis
    using s4(3-5) by (auto simp: undisturbed_def released_def s3_def acquired_def)
qed

text \<open>The head of a list, taken off.\<close>

lemma take_head:
  assumes inv: "sched_inv W Q F me H s" and l: "l \<in> lids W s"
  shows "Q l = [] \<Longrightarrow> on_lists_ret (threadlist_remhead l) s = Some (None, s)"
    "Q l = t # ts \<Longrightarrow> \<exists>h. on_lists_ret (threadlist_remhead l) s = Some (Some t, s\<lparr>lists := h\<rparr>) \<and>
       sched_inv W (Q(l := ts)) (insert t F) me H (s\<lparr>lists := h\<rparr>)"
proof -
  note d = sched_invD [OF inv]
  show "on_lists_ret (threadlist_remhead l) s = Some (None, s)" if "Q l = []"
    using tlq.remhead_none [OF d(4) l that] by simp
  assume Q: "Q l = t # ts"
  then obtain h where h: "threadlist_remhead l (lists s) = Some (Some t, h)" "lists_inv h (t_alloc s) (lids W s) (Q(l := ts))"
    using tlq.remhead_law [OF d(4) l] by blast
  have "t \<notin> set ts" using lists_inv_distinct [OF d(4) l] Q by simp
  then show "\<exists>h. on_lists_ret (threadlist_remhead l) s = Some (Some t, s\<lparr>lists := h\<rparr>) \<and>
       sched_inv W (Q(l := ts)) (insert t F) me H (s\<lparr>lists := h\<rparr>)"
    using sched_inv_take [OF inv l _ _ h(2)] Q h(1) by auto
qed

text \<open>What wakes a thread: it goes to the end of the run queue of its cpu.\<close>

definition woken :: "kern \<Rightarrow> tid \<Rightarrow> (lid \<Rightarrow> tid list) \<Rightarrow> lid \<Rightarrow> tid list" where
  "woken s t Q = (case t_cpu s t of None \<Rightarrow> Q | Some c \<Rightarrow> Q(Runqueue c := Q (Runqueue c) @ [t]))"

definition no_cpu_locks :: "splkid set \<Rightarrow> bool" where
  "no_cpu_locks H \<longleftrightarrow> card H + 2 < 2 ^ 31 \<and> (\<forall>c. Runqueue_lock c \<notin> H \<and> Ipi_lock c \<notin> H)"

lemma wake_head:
  assumes inv: "sched_inv W Q {} me H s" and l: "l \<in> lids W s" "Q l = t # ts" and H: "no_cpu_locks H"
  shows "\<exists>h s'. on_lists_ret (threadlist_remhead l) s = Some (Some t, s\<lparr>lists := h\<rparr>) \<and>
    thread_make_runnable me t False (s\<lparr>lists := h\<rparr>) = Some s' \<and>
    sched_inv W (woken s t (Q(l := ts))) {} me H s' \<and> undisturbed s s' \<and> t_state s' = (t_state s)(t := S_READY)"
proof -
  obtain h where h: "on_lists_ret (threadlist_remhead l) s = Some (Some t, s\<lparr>lists := h\<rparr>)"
    "sched_inv W (Q(l := ts)) {t} me H (s\<lparr>lists := h\<rparr>)"
    using take_head(2) [OF inv l] by blast
  have "t \<in> t_live s" using sched_inv_listed(1) [OF inv l(1), of t] l(2) by simp
  then obtain c where c: "t_cpu s t = Some c"
    using sched_invD(8) [OF inv] by (auto simp: thr_ok_def)
  have "Runqueue_lock c \<notin> H" "Ipi_lock c \<notin> H" "card H + 2 < 2 ^ 31"
    using H by (simp_all add: no_cpu_locks_def)
  from make_runnable_inv [OF h(2) _ _ this, of t] obtain s'
    where "thread_make_runnable me t False (s\<lparr>lists := h\<rparr>) = Some s'"
      "sched_inv W ((Q(l := ts))(Runqueue c := (Q(l := ts)) (Runqueue c) @ [t])) {} me H s'"
      "undisturbed (s\<lparr>lists := h\<rparr>) s'" "t_state s' = (t_state s)(t := S_READY)"
    using c by auto
  then show ?thesis using h(1) c by (auto simp: woken_def undisturbed_def)
qed

lemma wakeone_inv:
  assumes inv: "sched_inv W Q {} me H s" and w: "wc_threads wc \<in> W" and H: "no_cpu_locks H" and k: "k \<in> H"
  shows "\<exists>s'. wchan_wakeone me wc k s = Some s' \<and> undisturbed s s' \<and>
    sched_inv W (case Q (wc_threads wc) of [] \<Rightarrow> Q | t # ts \<Rightarrow> woken s t (Q(wc_threads wc := ts))) {} me H s'"
proof -
  have hold: "spinlock_do_i_hold me k s"
    using sched_invD(5) [OF inv] k by (auto simp: spinlock_do_i_hold_def locks_ok_def split: if_splits)
  note l = lids_mem(3) [OF w, of s]
  show ?thesis
  proof (cases "Q (wc_threads wc)")
    case Nil
    then show ?thesis
      using take_head(1) [OF inv l] inv hold by (auto simp: wchan_wakeone_def undisturbed_def)
  next
    case (Cons t ts)
    then show ?thesis
      using wake_head [OF inv l Cons H] hold by (auto simp: wchan_wakeone_def)
  qed
qed

text \<open>Moving all threads of one list to the end of another.\<close>

lemma lists_upd_simps [simp]:
  "admits (s\<lparr>lists := h\<rparr>) l t st = admits s l t st" "cpus (s\<lparr>lists := h\<rparr>) = cpus s"
  "lids W (s\<lparr>lists := h\<rparr>) = lids W s" "woken (s\<lparr>lists := h\<rparr>) = woken s"
  "undisturbed s (s\<lparr>lists := h\<rparr>)" "undisturbed (s\<lparr>lists := h\<rparr>) s' = undisturbed s s'"
  by (cases l; simp) (auto simp: cpus_def lids_def woken_def fun_eq_iff undisturbed_def)

lemma move_head_inv:
  assumes inv: "sched_inv W Q {} me H s" and l: "l \<in> lids W s" "m \<in> lids W s" "l \<noteq> m" and Q: "Q l = t # ts"
    and ok: "admits s m t (t_state s t)"
  shows "\<exists>h h'. on_lists_ret (threadlist_remhead l) s = Some (Some t, s\<lparr>lists := h\<rparr>) \<and>
    on_lists (threadlist_addtail m t) (s\<lparr>lists := h\<rparr>) = Some (s\<lparr>lists := h'\<rparr>) \<and>
    sched_inv W (Q(l := ts, m := Q m @ [t])) {} me H (s\<lparr>lists := h'\<rparr>)"
proof -
  obtain h where h: "on_lists_ret (threadlist_remhead l) s = Some (Some t, s\<lparr>lists := h\<rparr>)"
    "sched_inv W (Q(l := ts)) {t} me H (s\<lparr>lists := h\<rparr>)"
    using take_head(2) [OF inv l(1) Q] by blast
  obtain h' where h': "threadlist_addtail m t h = Some h'"
    "lists_inv h' (t_alloc s) (lids W s) ((Q(l := ts))(m := Q m @ [t]))"
    using tlq.addtail_law [OF sched_invD(4) [OF h(2)], of m t] sched_inv_floating [OF h(2), of t] l by auto
  have "sched_inv W ((Q(l := ts))(m := Q m @ [t])) ({t} - {t}) me H
      (s\<lparr>lists := h\<rparr>\<lparr>lists := h', t_state := (t_state (s\<lparr>lists := h\<rparr>))(t := t_state s t)\<rparr>)"
    by (rule sched_inv_put [OF h(2)]) (use l ok h' in auto)
  then show ?thesis
    using h(1) h'(1) by (intro exI [of _ h] exI [of _ h']) simp
qed

lemma wakeall_grab_inv:
  assumes "sched_inv W Q {} me H s" "l \<in> lids W s" "m \<in> lids W s" "l \<noteq> m" "Q l = ts"
    "\<And>t. t \<in> set ts \<Longrightarrow> admits s m t (t_state s t)" "Q' = Q(l := [], m := Q m @ ts)"
  shows "\<exists>h. wakeall_grab l m s = Some (s\<lparr>lists := h\<rparr>) \<and> sched_inv W Q' {} me H (s\<lparr>lists := h\<rparr>)"
  using assms
proof (induction ts arbitrary: Q s)
  case Nil
  have "Q' = Q" using Nil.prems(5,7) by auto
  moreover have "wakeall_grab l m s = Some s"
    by (subst wakeall_grab.simps) (simp add: take_head(1) [OF Nil.prems(1,2,5)])
  ultimately show ?case
    using Nil.prems(1) by (intro exI [of _ "lists s"]) simp
next
  case (Cons t ts)
  obtain h h' where h: "on_lists_ret (threadlist_remhead l) s = Some (Some t, s\<lparr>lists := h\<rparr>)"
    "on_lists (threadlist_addtail m t) (s\<lparr>lists := h\<rparr>) = Some (s\<lparr>lists := h'\<rparr>)"
    "sched_inv W (Q(l := ts, m := Q m @ [t])) {} me H (s\<lparr>lists := h'\<rparr>)"
    using move_head_inv [OF Cons.prems(1-5)] Cons.prems(6) [of t] by auto
  have "\<exists>h. wakeall_grab l m (s\<lparr>lists := h'\<rparr>) = Some (s\<lparr>lists := h'\<rparr>\<lparr>lists := h\<rparr>) \<and>
      sched_inv W Q' {} me H (s\<lparr>lists := h'\<rparr>\<lparr>lists := h\<rparr>)"
    by (rule Cons.IH [OF h(3)]) (use Cons.prems(2-4,6,7) in \<open>auto simp: fun_eq_iff\<close>)
  moreover have "wakeall_grab l m s = wakeall_grab l m (s\<lparr>lists := h'\<rparr>)"
    by (subst wakeall_grab.simps) (simp add: h(1,2))
  ultimately show ?case by simp
qed

lemma woken_cong: "t_cpu s' = t_cpu s \<Longrightarrow> woken s' = woken s"
  by (simp add: woken_def fun_eq_iff)

lemma woken_other: "l \<notin> range Runqueue \<Longrightarrow> woken s t Q l = Q l"
  by (auto simp: woken_def split: option.splits)

lemma woken_simps [simp]: "woken s t Q (Local c) = Q (Local c)" "woken s t Q (Wchan w) = Q (Wchan w)"
  "woken s t Q (Zombies c) = Q (Zombies c)"
  by (auto intro!: woken_other)

lemma woken_upd: "l \<notin> range Runqueue \<Longrightarrow> (woken s t Q)(l := x) = woken s t (Q(l := x))"
  by (auto simp: woken_def fun_eq_iff split: option.splits)

lemma wakeall_run_inv:
  assumes "sched_inv W Q {} me H s" "l \<in> lids W s" "l \<notin> range Runqueue" "Q l = ts" "no_cpu_locks H"
    "Q' = fold (woken s) ts (Q(l := []))"
  shows "\<exists>s'. wakeall_run me l s = Some s' \<and> undisturbed s s' \<and> sched_inv W Q' {} me H s'"
  using assms
proof (induction ts arbitrary: Q s)
  case Nil
  have "Q' = Q" using Nil.prems(4,6) by auto
  moreover have "wakeall_run me l s = Some s"
    by (subst wakeall_run.simps) (simp add: take_head(1) [OF Nil.prems(1,2,4)])
  ultimately show ?case
    using Nil.prems(1) by (auto simp: undisturbed_def)
next
  case (Cons t ts)
  obtain h s1 where h: "on_lists_ret (threadlist_remhead l) s = Some (Some t, s\<lparr>lists := h\<rparr>)"
    "thread_make_runnable me t False (s\<lparr>lists := h\<rparr>) = Some s1"
    "sched_inv W (woken s t (Q(l := ts))) {} me H s1" "undisturbed s s1"
    using wake_head [OF Cons.prems(1,2,4,5)] by blast
  have same: "woken s1 = woken s" "lids W s1 = lids W s"
    using h(4) woken_cong [of s1 s] by (auto simp: undisturbed_def lids_def cpus_def)
  have eq: "(woken s t (Q(l := ts)))(l := []) = woken s t (Q(l := []))"
    using Cons.prems(3) by (simp add: woken_upd)
  have "\<exists>s'. wakeall_run me l s1 = Some s' \<and> undisturbed s1 s' \<and> sched_inv W Q' {} me H s'"
  proof (rule Cons.IH [OF h(3)])
    show "Q' = fold (woken s1) ts ((woken s t (Q(l := ts)))(l := []))"
      unfolding same eq using Cons.prems(6) by (simp only: fold_simps(2))
  qed (use Cons.prems(2,3,5) in \<open>simp_all add: same woken_other\<close>)
  moreover have "wakeall_run me l s = wakeall_run me l s1"
    by (subst wakeall_run.simps) (simp add: h(1,2))
  ultimately show ?case
    using undisturbed_trans [OF h(4)] by auto
qed

text \<open>A list on the stack comes and goes empty.\<close>

lemma sched_inv_local:
  assumes inv: "sched_inv W Q {} me H s" and W: "Local me \<notin> W"
  shows "sched_inv (insert (Local me) W) (Q(Local me := [])) {} me H
    (s\<lparr>lists := threadlist_init (Local me) (lists s)\<rparr>)" (is "sched_inv ?W ?Q _ _ _ ?s")
proof -
  note d = sched_invD [OF inv]
  have new: "Local me \<notin> lids W s" using W by (auto simp: lids_def)
  have cps: "cpus ?s = cpus s" "lids ?W s = insert (Local me) (lids W s)"
    by (auto simp: lids_def)
  have cps': "lids ?W ?s = insert (Local me) (lids W s)"
    by (simp add: cps)
  have "lists_inv (lists ?s) (t_alloc ?s) (lids ?W ?s) ?Q"
    using lists_inv_init [OF d(4) new] by (simp add: cps)
  moreover have "thr_ok ?W ?Q {} ?s t" if "t \<in> t_live s" for t
  proof -
    have "?Q l = Q l" if "l \<in> lids W s" for l using that new by auto
    then have "(\<forall>l \<in> lids ?W ?s. t \<notin> set (?Q l)) \<longleftrightarrow> (\<forall>l \<in> lids W s. t \<notin> set (Q l))"
      unfolding cps' by simp
    then show ?thesis using d(8) [OF that] unfolding thr_ok_def cps(1) by simp
  qed
  moreover have "list_ok ?Q ?s l" if "l \<in> lids ?W ?s" for l
  proof (cases "l = Local me")
    case False
    then have "list_ok Q s l" using that d(9) cps' by simp
    then show ?thesis using False by (cases l) auto
  qed simp
  moreover have "set (?Q m) \<subseteq> t_live s" if "m \<in> lids ?W ?s" for m
    using d(11) [of m] that cps' by auto
  ultimately show ?thesis
    unfolding sched_inv_def using d(1-3,5,7,10) by (auto simp: cps(1) locks_ok_def cpu_ok_def Let_def)
qed

lemma sched_inv_unlocal:
  assumes inv: "sched_inv (insert (Local me) W) Q {} me H s" and Q: "Q (Local me) = []"
  shows "sched_inv W Q {} me H s"
proof -
  note d = sched_invD [OF inv]
  have L: "lids (insert (Local me) W) s = insert (Local me) (lids W s)" by (auto simp: lids_def)
  have "lists_inv (lists s) (t_alloc s) (lids W s) Q"
    using d(4) Q unfolding L lists_inv_def by auto
  moreover have "thr_ok W Q {} s t" if "t \<in> t_live s" for t
    using d(8) [OF that] Q unfolding thr_ok_def L by auto
  ultimately show ?thesis
    unfolding sched_inv_def using d(1-3,5,7,9,10,11) by (auto simp: L)
qed

lemma wakeall_inv:
  assumes inv: "sched_inv W Q {} me H s" and w: "wc_threads wc \<in> W" "wc_threads wc \<in> range Wchan" "Local me \<notin> W"
    and H: "no_cpu_locks H" "k \<in> H"
  shows "\<exists>s'. wchan_wakeall me wc k s = Some s' \<and> undisturbed s s' \<and>
    sched_inv W (fold (woken s) (Q (wc_threads wc)) (Q(wc_threads wc := [], Local me := []))) {} me H s'"
proof -
  let ?l = "Local me" and ?w = "wc_threads wc"
  let ?s1 = "s\<lparr>lists := threadlist_init ?l (lists s)\<rparr>" and ?W = "insert ?l W"
  note d = sched_invD [OF inv]
  have hold: "spinlock_do_i_hold me k s"
    using d(5) H(2) by (auto simp: spinlock_do_i_hold_def locks_ok_def split: if_splits)
  have inv1: "sched_inv ?W (Q(?l := [])) {} me H ?s1" by (rule sched_inv_local [OF inv w(3)])
  have l: "?w \<in> lids ?W ?s1" "?l \<in> lids ?W ?s1" "?w \<noteq> ?l"
    using w by (auto simp: lids_def)
  have "t_state s t = S_SLEEP" if "t \<in> set (Q ?w)" for t
    using d(9) [OF lids_mem(3) [OF w(1)]] w(2) that by auto
  then obtain h where g: "wakeall_grab ?w ?l ?s1 = Some (?s1\<lparr>lists := h\<rparr>)"
    "sched_inv ?W ((Q(?l := []))(?w := [], ?l := Q ?w)) {} me H (?s1\<lparr>lists := h\<rparr>)"
    using wakeall_grab_inv [OF inv1 l, of "Q ?w" "(Q(?l := []))(?w := [], ?l := Q ?w)"] l(3) by auto
  obtain s' where s': "wakeall_run me ?l (?s1\<lparr>lists := h\<rparr>) = Some s'" "undisturbed (?s1\<lparr>lists := h\<rparr>) s'"
    "sched_inv ?W (fold (woken s) (Q ?w) (Q(?w := [], ?l := []))) {} me H s'"
    using wakeall_run_inv [OF g(2), of ?l "Q ?w" "fold (woken s) (Q ?w) (Q(?w := [], ?l := []))"] H(1) l
    by (auto simp: fun_upd_twist)
  have empty: "fold (woken s) ts R ?l = R ?l" for ts and R :: "lid \<Rightarrow> tid list"
    by (induction ts arbitrary: R) simp_all
  have "threadlist_isempty ?l (lists s')"
    using tlq.isempty_law [OF sched_invD(4) [OF s'(3)], of ?l] by (simp add: lids_def empty)
  then have "threadlist_cleanup ?l (lists s') = Some ()"
    by (simp add: threadlist_cleanup_def threadlist_isempty_def)
  then have "wchan_wakeall me wc k s = Some s'"
    using hold g(1) s'(1) by (simp add: wchan_wakeall_def)
  moreover have "undisturbed s s'" using s'(2) by (auto simp: undisturbed_def)
  ultimately show ?thesis
    using sched_inv_unlocal [OF s'(3)] by (simp add: empty)
qed

subsection \<open>Switching\<close>

text \<open>The running thread goes on a list and its cpu becomes idle.\<close>

lemma sched_inv_park:
  assumes inv: "sched_inv W Q {} me H s" and idle: "\<not> c_isidle s me" and l: "l \<in> lids W s"
    and st: "admits s l (curthread me s) st" and lev: "t_curspl s (curthread me s) = IPL_HIGH"
    and h: "lists_inv h (t_alloc s) (lids W s) (Q(l := Q l @ [curthread me s]))"
  shows "sched_inv W (Q(l := Q l @ [curthread me s])) {} me H
    (s\<lparr>lists := h, t_state := (t_state s)(curthread me s := st), c_isidle := (c_isidle s)(me := True)\<rparr>)"
    (is "sched_inv W ?Q _ _ _ ?s")
proof -
  note d = sched_invD [OF inv]
  let ?t = "curthread me s"
  note run = sched_inv_running [OF inv d(2) idle]
  have cps: "cpus ?s = cpus s" "lids W ?s = lids W s" by (simp_all add: cpus_def lids_def)
  have "st \<noteq> S_RUN" using admits_not_run [OF st] .
  have off: "?t \<notin> set (Q m)" if "m \<in> lids W s" for m
    using run(1) that by (simp add: on_no_list_def)
  have cpu: "cpu_ok ?s (if c = me then card H else 0) c" if "c \<in> cpus s" for c
    using d(7) [OF that] sched_inv_cur_distinct [OF inv that d(2)] lev
    by (cases "c = me") (auto simp: cpu_ok_def Let_def)
  have thr: "thr_ok W ?Q {} ?s u" if "u \<in> t_live s" for u
  proof (cases "u = ?t")
    case True
    then show ?thesis
      using d(8) [OF that] d(2) l \<open>st \<noteq> S_RUN\<close> unfolding thr_ok_def cps by auto
  next
    case False
    then show ?thesis
      using d(8) [OF that] l unfolding thr_ok_def cps by (auto split: if_splits)
  qed
  have "list_ok ?Q ?s m" if "m \<in> lids W s" for m
  proof (cases "m = l")
    case True
    have "admits ?s l u (t_state ?s u)" if "u \<in> set (?Q l)" for u
      using d(9) [OF l] st that by (cases l) (auto simp: list_ok_admits)
    then show ?thesis by (simp add: True list_ok_admits)
  next
    case False
    then show ?thesis
      using d(9) [OF that] off [OF that] by (cases m) auto
  qed
  moreover have "set (?Q m) \<subseteq> t_live s" if "m \<in> lids W s" for m
    using d(11) [OF l] d(11) [OF that] d(7) [OF d(2)] by (auto simp: cpu_ok_def Let_def)
  ultimately show ?thesis
    unfolding sched_inv_def cps using d(1-5,10) cpu thr h by (auto simp: locks_ok_def)
qed

text \<open>An idle cpu takes up a thread from its run queue.\<close>

lemma sched_inv_unpark:
  assumes inv: "sched_inv W Q {nxt} me H s" and idle: "c_isidle s me" and H: "card H = 1"
    and nxt: "t_cpu s nxt = Some me" and spl: "spl \<in> {IPL_NONE, IPL_HIGH}"
  shows "sched_inv W Q {} me H (s\<lparr>c_isidle := (c_isidle s)(me := False), c_curthread := (c_curthread s)(me := nxt),
    t_context := (t_context s)(curthread me s := Some (Ctx_switch spl)), t_state := (t_state s)(nxt := S_RUN)\<rparr>)"
    (is "sched_inv W Q {} me H ?s")
proof -
  note d = sched_invD [OF inv]
  have cps: "cpus ?s = cpus s" "lids W ?s = lids W s" by (simp_all add: cpus_def lids_def)
  have live: "nxt \<in> t_live s" using d(6) by auto
  have own: "curthread c s = nxt \<Longrightarrow> c = me" "curthread c s = curthread me s \<Longrightarrow> c = me" if "c \<in> cpus s" for c
    using d(7) [OF that] d(7) [OF d(2)] nxt by (auto simp: cpu_ok_def Let_def)
  have lev: "t_curspl s nxt = IPL_HIGH" "t_iplhigh_count s nxt = 2"
    using d(8) [OF live] own(1) cpu_okD [OF inv] idle H
    by (auto simp: thr_ok_def IPL_HIGH_def)
  have cpu: "cpu_ok ?s (if c = me then card H else 0) c" if "c \<in> cpus s" for c
    using d(7) [OF that] own [OF that] live nxt lev H cpu_okD(1,2,4) [OF inv] idle
    by (cases "c = me") (auto simp: cpu_ok_def Let_def IPL_HIGH_def)
  have thr: "thr_ok W Q {} ?s u" if u: "u \<in> t_live s" for u
  proof (cases "u = nxt")
    case True
    then show ?thesis
      using d(2) nxt lev unfolding thr_ok_def cps by auto
  next
    case False
    have cur: "t_curspl s (curthread me s) = IPL_HIGH" "t_iplhigh_count s (curthread me s) = 2"
      using cpu_okD(1,4) [OF inv] idle H by (simp_all add: IPL_HIGH_def)
    note old = d(8) [OF u, unfolded thr_ok_def]
    have "\<exists>c \<in> cpus s. \<not> c_isidle ?s c \<and> curthread c ?s = u" if run: "t_state s u = S_RUN"
    proof -
      obtain c where c: "c \<in> cpus s" "\<not> c_isidle s c" "curthread c s = u" using old run by blast
      with idle have "c \<noteq> me" by blast
      with c show ?thesis by (intro bexI [of _ c]) simp_all
    qed
    moreover have "ctx_ok (t_context ?s u) \<and> t_curspl s u = IPL_HIGH \<and> t_iplhigh_count s u = 2"
      if "\<forall>c \<in> cpus s. curthread c ?s \<noteq> u"
    proof (cases "u = curthread me s")
      case True
      then show ?thesis using cur spl by simp
    next
      case other: False
      then have "\<forall>c \<in> cpus s. curthread c s \<noteq> u" using that by (auto split: if_splits)
      then show ?thesis using old other by simp
    qed
    ultimately show ?thesis using old False unfolding thr_ok_def cps by simp
  qed
  have "list_ok Q ?s m" if "m \<in> lids W s" for m
    by (rule list_ok_cong [OF d(9) [OF that]])
      (use sched_inv_floating [OF inv, of nxt] that in \<open>auto simp: on_no_list_def\<close>)
  then show ?thesis
    unfolding sched_inv_def cps using d(1-5,10,11) cpu thr by (auto simp: locks_ok_def)
qed

lemma lists_inv_forget:
  assumes "lists_inv h T L Q" "on_no_list T L Q t"
  shows "lists_inv h (T - {t}) L Q"
  using assms card_Diff1_le [of T t] unfolding lists_inv_def on_no_list_def by auto

lemma destroy_inv:
  assumes inv: "sched_inv W Q {t} me H s" and idle: "\<not> c_isidle s me"
    and t: "t_cpu s t = Some me" "t_proc s t = None"
  shows "\<exists>s'. thread_destroy me t s = Some s' \<and> sched_inv W Q {} me H s' \<and>
    s' = s\<lparr>t_stack := (t_stack s)(t := None), t_wchan_name := t_wchan_name s',
      t_alloc := t_alloc s - {t}, t_live := t_live s - {t}\<rparr>"
proof -
  note d = sched_invD [OF inv]
  let ?s = "s\<lparr>t_stack := (t_stack s)(t := None), t_wchan_name := (t_wchan_name s)(t := Some ''DESTROYED''),
    t_alloc := t_alloc s - {t}, t_live := t_live s - {t}\<rparr>"
  have t': "t \<in> t_live s" "t_state s t \<noteq> S_RUN" and ta: "t \<in> t_alloc s" using d(6,10) by auto
  have cur: "t \<noteq> curthread c s" if "c \<in> cpus s" for c
    using d(7) [OF that] t t' sched_inv_running(2) [OF inv d(2) idle]
    by (cases "c = me") (auto simp: cpu_ok_def Let_def)
  note off = sched_inv_floating [OF inv, of t, simplified]
  have "threadlistnode_cleanup (Node t) (lists s) = Some ()"
    using lists_inv_free [OF d(4) ta] off lists_inv_def [of "lists s"] d(4) ta
    by (auto simp: threadlistnode_cleanup_def on_no_list_def)
  then have "thread_destroy me t s = Some ?s"
    using cur [OF d(2)] t'(2) t(2) by (simp add: thread_destroy_def)
  moreover have "sched_inv W Q {} me H ?s"
  proof -
    have cps: "cpus ?s = cpus s" "lids W ?s = lids W s" by (simp_all add: cpus_def lids_def)
    have cpu: "cpu_ok ?s (if c = me then card H else 0) c" if "c \<in> cpus s" for c
      using d(7) [OF that] cur [OF that] by (auto simp: cpu_ok_def Let_def)
    have thr: "thr_ok W Q {} ?s u" if "u \<in> t_live s" "u \<noteq> t" for u
      using d(8) [OF that(1)] that(2) unfolding thr_ok_def cps by auto
    have "list_ok Q ?s m" if "m \<in> lids W s" for m
      using d(9) [OF that] by (cases m) auto
    moreover have "set (Q m) \<subseteq> t_live s - {t}" if "m \<in> lids W s" for m
      using d(11) [OF that] off that by (auto simp: on_no_list_def)
    ultimately show ?thesis
      unfolding sched_inv_def cps using d(1-5,10) cpu thr lists_inv_forget [OF d(4) off]
      by (auto simp: locks_ok_def)
  qed
  ultimately show ?thesis by (intro exI [of _ ?s] conjI) simp_all
qed

lemma exorcise_inv:
  assumes "sched_inv W Q {} me H s" "\<not> c_isidle s me" "Q (Zombies me) = zs" "Q' = Q(Zombies me := [])"
  shows "\<exists>s'. exorcise me s = Some s' \<and> sched_inv W Q' {} me H s' \<and>
    (\<forall>u. u \<notin> set zs \<longrightarrow> t_stack s' u = t_stack s u) \<and>
    s' = s\<lparr>lists := lists s', t_stack := t_stack s', t_wchan_name := t_wchan_name s', t_alloc := t_alloc s', t_live := t_live s - set zs\<rparr>"
  using assms
proof (induction zs arbitrary: Q s)
  case Nil
  note l = lids_mem(2) [OF sched_invD(2) [OF Nil.prems(1)], of W]
  have "exorcise me s = Some s"
    by (subst exorcise.simps) (simp add: take_head(1) [OF Nil.prems(1) l Nil.prems(3)])
  moreover have "Q' = Q" using Nil.prems(3,4) by auto
  ultimately show ?case using Nil.prems(1) by simp
next
  case (Cons z zs)
  note me = sched_invD(2) [OF Cons.prems(1)]
  note l = lids_mem(2) [OF me, of W]
  obtain h where h: "on_lists_ret (threadlist_remhead (Zombies me)) s = Some (Some z, s\<lparr>lists := h\<rparr>)"
    "sched_inv W (Q(Zombies me := zs)) {z} me H (s\<lparr>lists := h\<rparr>)"
    using take_head(2) [OF Cons.prems(1) l Cons.prems(3)] by blast
  have z: "t_state s z = S_ZOMBIE" "t_cpu s z = Some me" "t_proc s z = None"
    using sched_invD(9) [OF Cons.prems(1) l] Cons.prems(3) by auto
  obtain s1 where s1: "thread_destroy me z (s\<lparr>lists := h\<rparr>) = Some s1" "sched_inv W (Q(Zombies me := zs)) {} me H s1"
    "s1 = s\<lparr>lists := h, t_stack := (t_stack s)(z := None), t_wchan_name := t_wchan_name s1, t_alloc := t_alloc s - {z}, t_live := t_live s - {z}\<rparr>"
    using destroy_inv [OF h(2)] Cons.prems(2) z by auto
  have "\<exists>s'. exorcise me s1 = Some s' \<and> sched_inv W Q' {} me H s' \<and>
      (\<forall>u. u \<notin> set zs \<longrightarrow> t_stack s' u = t_stack s1 u) \<and>
      s' = s1\<lparr>lists := lists s', t_stack := t_stack s', t_wchan_name := t_wchan_name s', t_alloc := t_alloc s', t_live := t_live s1 - set zs\<rparr>"
  proof (rule Cons.IH [OF s1(2)])
    show "\<not> c_isidle s1 me" using Cons.prems(2) by (subst s1(3)) simp
  qed (use Cons.prems(4) in \<open>simp_all add: fun_eq_iff\<close>)
  then obtain s' where s': "exorcise me s1 = Some s'" "sched_inv W Q' {} me H s'"
      "\<forall>u. u \<notin> set zs \<longrightarrow> t_stack s' u = t_stack s1 u"
      "s' = s1\<lparr>lists := lists s', t_stack := t_stack s', t_wchan_name := t_wchan_name s', t_alloc := t_alloc s', t_live := t_live s1 - set zs\<rparr>"
    by (elim exE conjE)
  have "z \<noteq> curthread me s"
    using sched_inv_running(2) [OF Cons.prems(1) me Cons.prems(2)] z(1) by auto
  then have "exorcise me s = Some s'"
    by (subst exorcise.simps) (simp add: h(1) z(1) s1(1) s'(1))
  moreover have "s' = s\<lparr>lists := lists s', t_stack := t_stack s', t_wchan_name := t_wchan_name s', t_alloc := t_alloc s', t_live := t_live s - set (z # zs)\<rparr>"
  proof -
    have "t_live s1 = t_live s - {z}" by (subst s1(3)) simp
    then have "t_live s1 - set zs = t_live s - set (z # zs)" by auto
    then show ?thesis by (subst s'(4), subst s1(3)) simp
  qed
  moreover have "t_stack s1 = (t_stack s)(z := None)" by (subst s1(3)) simp
  then have "\<forall>u. u \<notin> set (z # zs) \<longrightarrow> t_stack s' u = t_stack s u" using s'(3) by simp
  ultimately show ?case using s'(2) by (intro exI [of _ s'] conjI)
qed

text \<open>What a switch on one cpu leaves alone.\<close>

definition elsewhere :: "nat \<Rightarrow> kern \<Rightarrow> kern \<Rightarrow> bool" where
  "elsewhere me s s' \<longleftrightarrow> (\<forall>c. c \<noteq> me \<longrightarrow> curthread c s' = curthread c s \<and> c_isidle s' c = c_isidle s c) \<and>
     t_cpu s' = t_cpu s \<and> t_proc s' = t_proc s \<and> allcpus_num s' = allcpus_num s \<and>
     thread_count s' = thread_count s \<and> t_in_interrupt s' = t_in_interrupt s \<and> p_numthreads s' = p_numthreads s \<and>
     (\<forall>t \<in> t_live s'. t \<in> t_live s \<and> t_stack s' t = t_stack s t) \<and>
     (\<forall>t \<in> t_live s - t_live s'. t_proc s t = None)"

lemma elsewhere_trans: "elsewhere me s s' \<Longrightarrow> elsewhere me s' s'' \<Longrightarrow> elsewhere me s s''"
  by (auto simp: elsewhere_def)

lemma undisturbed_elsewhere: "undisturbed s s' \<Longrightarrow> elsewhere me s s'"
  by (auto simp: undisturbed_def elsewhere_def)

fun ctx_level :: "saved_context option \<Rightarrow> int" where
  "ctx_level (Some (Ctx_switch spl)) = spl"
| "ctx_level _ = IPL_NONE"

text \<open>The common end of \<^verbatim>\<open>thread_switch\<close> and \<^verbatim>\<open>thread_startup\<close>.\<close>

lemma tail_inv:
  assumes inv: "sched_inv W Q {} me {Runqueue_lock me} s" and idle: "\<not> c_isidle s me"
    and spl: "spl \<in> {IPL_NONE, IPL_HIGH}"
  shows "\<exists>s'. (do {s2 \<leftarrow> spinlock_release me (Runqueue_lock me) s; s3 \<leftarrow> exorcise me s2; map_option snd (splx me spl s3)}) = Some s' \<and>
    sched_inv W (Q(Zombies me := [])) {} me {} s' \<and> elsewhere me s s' \<and>
    c_curthread s' = c_curthread s \<and> c_isidle s' = c_isidle s \<and> t_curspl s' (curthread me s) = spl"
proof -
  let ?r = "released me (Runqueue_lock me) s"
  have r: "spinlock_release me (Runqueue_lock me) s = Some ?r" "sched_inv W Q {} me {} ?r"
    using release_inv [OF inv, of "Runqueue_lock me"] by simp_all
  have ri: "\<not> c_isidle ?r me" using idle by (simp add: released_def)
  obtain e where e: "exorcise me ?r = Some e" "sched_inv W (Q(Zombies me := [])) {} me {} e"
    "\<forall>u. u \<notin> set (Q (Zombies me)) \<longrightarrow> t_stack e u = t_stack ?r u"
    "e = ?r\<lparr>lists := lists e, t_stack := t_stack e, t_wchan_name := t_wchan_name e, t_alloc := t_alloc e, t_live := t_live ?r - set (Q (Zombies me))\<rparr>"
    using exorcise_inv [OF r(2) ri refl refl] by (elim exE conjE)
  have "\<not> c_isidle e me" by (subst e(4)) (use ri in simp)
  then have ei: "c_isidle e me \<longrightarrow> spl = IPL_HIGH" by simp
  obtain x where x: "splx me spl e = Some (t_curspl e (curthread me e), x)" "sched_inv W (Q(Zombies me := [])) {} me {} x"
    "x = relevel me spl spl e"
    using splx_inv [OF e(2) spl ei] by simp
  have f1: "elsewhere me s e \<and> c_curthread e = c_curthread s \<and> c_isidle e = c_isidle s"
  proof -
    have "t_live e = t_live s - set (Q (Zombies me))" by (subst e(4)) (simp add: released_def)
    moreover have "t_stack ?r = t_stack s" by (simp add: released_def)
    moreover have "\<forall>t \<in> set (Q (Zombies me)). t_proc s t = None"
      using sched_invD(9) [OF inv lids_mem(2) [OF sched_invD(2) [OF inv]]] by simp
    moreover have "c_curthread e = c_curthread s" "c_isidle e = c_isidle s" "t_cpu e = t_cpu s" "t_proc e = t_proc s"
      "allcpus_num e = allcpus_num s" "thread_count e = thread_count s" "t_in_interrupt e = t_in_interrupt s" "p_numthreads e = p_numthreads s"
      by (subst e(4), simp add: released_def)+
    ultimately show ?thesis using e(3) by (simp add: elsewhere_def)
  qed
  have f2: "c_curthread x = c_curthread e" "c_isidle x = c_isidle e" "t_cpu x = t_cpu e" "t_proc x = t_proc e"
      "allcpus_num x = allcpus_num e" "thread_count x = thread_count e" "t_in_interrupt x = t_in_interrupt e" "p_numthreads x = p_numthreads e"
      "t_live x = t_live e" "t_stack x = t_stack e" "t_curspl x (curthread me e) = spl"
    by (simp_all add: x(3) relevel_def)
  then have "elsewhere me e x" by (simp add: elsewhere_def)
  then show ?thesis
    using r(1) e(1) x(1,2) f1 f2 elsewhere_trans [of me s e x] by auto
qed

text \<open>\<open>switched W Q me spl s r\<close>: \<open>r\<close> is what the loop at the end of \<^verbatim>\<open>thread_switch\<close> on \<open>me\<close> does
  when the lists are \<open>Q\<close>: idle if the run queue is empty, else resume its first thread.\<close>

definition switched :: "lid set \<Rightarrow> (lid \<Rightarrow> tid list) \<Rightarrow> nat \<Rightarrow> int \<Rightarrow> kern \<Rightarrow> switch_result kp \<Rightarrow> bool" where
  "switched W Q me spl s r \<longleftrightarrow>
     (case Q (Runqueue me) of
        [] \<Rightarrow> (\<exists>s'. r = Some (Idling spl s') \<and> sched_inv W Q {} me {} s' \<and> elsewhere me s s' \<and>
               c_isidle s' me \<and> curthread me s' = curthread me s)
      | t # ts \<Rightarrow> (\<exists>s'. r = Some (Resumed s') \<and> sched_inv W (Q(Runqueue me := ts, Zombies me := [])) {} me {} s' \<and>
               elsewhere me s s' \<and> \<not> c_isidle s' me \<and> curthread me s' = t \<and>
               t_curspl s' t = ctx_level (if t = curthread me s then Some (Ctx_switch spl) else t_context s t)))"

lemma next_inv:
  assumes inv: "sched_inv W Q {} me {Runqueue_lock me} s" and idle: "c_isidle s me"
    and spl: "spl \<in> {IPL_NONE, IPL_HIGH}"
  shows "switched W Q me spl s (thread_switch_next me spl s)"
proof -
  let ?k = "Runqueue_lock me"
  note d = sched_invD [OF inv]
  note l = lids_mem(1) [OF d(2), of W]
  show ?thesis
  proof (cases "Q (Runqueue me)")
    case Nil
    have "spinlock_release me ?k s = Some (released me ?k s)" "sched_inv W Q {} me {} (released me ?k s)"
      using release_inv [OF inv, of ?k] by simp_all
    then show ?thesis
      using take_head(1) [OF inv l Nil] idle undisturbed_elsewhere [OF undisturbed_locks(2)]
      by (simp add: switched_def thread_switch_next_def Nil released_def)
  next
    case (Cons t ts)
    let ?Q = "Q(Runqueue me := ts)"
    obtain h where h: "on_lists_ret (threadlist_remhead (Runqueue me)) s = Some (Some t, s\<lparr>lists := h\<rparr>)"
      "sched_inv W ?Q {t} me {?k} (s\<lparr>lists := h\<rparr>)"
      using take_head(2) [OF inv l Cons] by blast
    have t: "t_cpu s t = Some me" "t \<in> t_live s"
      using d(9) [OF l] Cons sched_inv_listed(1) [OF inv l] by auto
    define ctx where "ctx = (if t = curthread me s then Some (Ctx_switch spl) else t_context s t)"
    have ctx: "ctx_ok ctx"
    proof (cases "t = curthread me s")
      case False
      then have "\<forall>c \<in> cpus s. curthread c s \<noteq> t"
        using d(7) t(1) by (auto simp: cpu_ok_def Let_def)
      then show ?thesis using d(8) [OF t(2)] False by (simp add: thr_ok_def ctx_def)
    qed (use spl in \<open>simp add: ctx_def\<close>)
    define s4 where "s4 = s\<lparr>lists := h, c_isidle := (c_isidle s)(me := False), c_curthread := (c_curthread s)(me := t),
      t_context := (t_context s)(curthread me s := Some (Ctx_switch spl))\<rparr>"
    define s5 where "s5 = s4\<lparr>t_wchan_name := (t_wchan_name s4)(t := None), t_state := (t_state s4)(t := S_RUN)\<rparr>"
    let ?u = "s\<lparr>lists := h\<rparr>\<lparr>c_isidle := (c_isidle s)(me := False), c_curthread := (c_curthread s)(me := t),
      t_context := (t_context s)(curthread me s := Some (Ctx_switch spl)), t_state := (t_state s)(t := S_RUN)\<rparr>"
    have "sched_inv W ?Q {} me {?k} ?u"
      using sched_inv_unpark [OF h(2) _ _ _ spl] idle t by simp
    moreover have "s5 = ?u\<lparr>t_wchan_name := (t_wchan_name s4)(t := None)\<rparr>" by (simp add: s5_def s4_def)
    ultimately have inv5: "sched_inv W ?Q {} me {?k} s5" by simp
    have i5: "\<not> c_isidle s5 me" "curthread me s5 = t" by (simp_all add: s5_def s4_def)
    have lev: "ctx_level ctx \<in> {IPL_NONE, IPL_HIGH}"
      using ctx by (cases ctx rule: ctx_ok.cases) auto
    obtain s' where s': "(do {s2 \<leftarrow> spinlock_release me ?k s5; s3 \<leftarrow> exorcise me s2; map_option snd (splx me (ctx_level ctx) s3)}) = Some s'"
      "sched_inv W (?Q(Zombies me := [])) {} me {} s'" "elsewhere me s5 s'"
      "c_curthread s' = c_curthread s5" "c_isidle s' = c_isidle s5" "t_curspl s' (curthread me s5) = ctx_level ctx"
      using tail_inv [OF inv5 i5(1) lev] by (elim exE conjE)
    have c4: "t_context s4 (curthread me s4) = ctx" by (simp add: s4_def ctx_def)
    have "thread_resume me s4 = Some s'"
      using s'(1) ctx c4 i5(2)
      by (cases ctx rule: ctx_ok.cases)
        (simp_all add: thread_resume_def thread_switch_tail_def thread_startup_def spl0_def s5_def s4_def)
    then have "thread_switch_next me spl s = Some (Resumed s')"
      by (simp add: thread_switch_next_def h(1) s4_def)
    moreover have "elsewhere me s s5" by (simp add: elsewhere_def s5_def s4_def)
    ultimately show ?thesis
      using s' i5 elsewhere_trans [of me s s5 s'] by (simp add: switched_def Cons ctx_def)
  qed
qed

lemma switch_wake_inv:
  assumes inv: "sched_inv W Q {} me {} s" and idle: "c_isidle s me" and spl: "spl \<in> {IPL_NONE, IPL_HIGH}"
  shows "switched W Q me spl s (thread_switch_wake me spl s)"
proof -
  let ?s = "acquired me (Runqueue_lock me) s"
  have a: "spinlock_acquire me (Runqueue_lock me) s = Some ?s" "sched_inv W Q {} me {Runqueue_lock me} ?s"
    using acquire_inv [OF inv, of "Runqueue_lock me"] by simp_all
  have "switched W Q me spl ?s (thread_switch_next me spl ?s)"
    using next_inv [OF a(2) _ spl] idle by (simp add: acquired_def)
  moreover have "elsewhere me s ?s" by (rule undisturbed_elsewhere) simp
  ultimately show ?thesis
    using elsewhere_trans [of me s ?s] a(1)
    by (auto simp: thread_switch_wake_def switched_def acquired_def split: list.splits)
qed

lemma switched_pre:
  assumes "switched W Q me spl s1 r" "elsewhere me s s1" "curthread me s1 = curthread me s" "t_context s1 = t_context s"
  shows "switched W Q me spl s r"
  using assms elsewhere_trans [of me s s1] by (auto simp: switched_def split: list.splits)

text \<open>The beginning of \<^verbatim>\<open>thread_switch\<close>: interrupts off and the run queue locked.\<close>

definition switch_entry :: "nat \<Rightarrow> kern \<Rightarrow> kern \<Rightarrow> bool" where
  "switch_entry me s s1 \<longleftrightarrow> splhigh me s = Some (t_curspl s (curthread me s), s1) \<and> undisturbed s (s1\<lparr>t_curspl := t_curspl s\<rparr>) \<and>
     t_curspl s1 = (t_curspl s)(curthread me s := IPL_HIGH) \<and> lists s1 = lists s \<and> t_state s1 = t_state s \<and>
     spinlock_acquire me (Runqueue_lock me) s1 = Some (acquired me (Runqueue_lock me) s1)"

lemma switch_entry_inv:
  assumes inv: "sched_inv W Q {} me H s" and H: "Runqueue_lock me \<notin> H" "card H + 1 < 2 ^ 31"
  shows "\<exists>s1. switch_entry me s s1 \<and> sched_inv W Q {} me (insert (Runqueue_lock me) H) (acquired me (Runqueue_lock me) s1)"
proof -
  obtain s1 where s1: "splx me IPL_HIGH s = Some (t_curspl s (curthread me s), s1)" "sched_inv W Q {} me H s1"
    "s1 = relevel me IPL_HIGH (IPL_HIGH + int (card H)) s"
    using splx_inv [OF inv, of IPL_HIGH] by simp
  have "undisturbed s (s1\<lparr>t_curspl := t_curspl s\<rparr>)" "t_curspl s1 = (t_curspl s)(curthread me s := IPL_HIGH)"
    "lists s1 = lists s" "t_state s1 = t_state s"
    by (auto simp: s1(3) relevel_def undisturbed_def)
  then show ?thesis
    using s1(1) acquire_inv [OF s1(2) H] by (auto simp: switch_entry_def splhigh_def)
qed

lemma switch_entry_simps:
  assumes "switch_entry me s s1"
  shows "curthread c (acquired me k s1) = curthread c s" "c_isidle (acquired me k s1) = c_isidle s"
    "t_cpu (acquired me k s1) = t_cpu s" "t_proc (acquired me k s1) = t_proc s" "cpus (acquired me k s1) = cpus s"
    "lids W (acquired me k s1) = lids W s" "t_live (acquired me k s1) = t_live s" "lists (acquired me k s1) = lists s"
    "t_state (acquired me k s1) = t_state s" "t_context (acquired me k s1) = t_context s"
    "t_curspl (acquired me k s1) (curthread me s) = IPL_HIGH" "t_stack s1 = t_stack s" "curthread c s1 = curthread c s"
    "c_isidle s1 = c_isidle s" "elsewhere me s (acquired me k s1)"
  using assms
  by (auto simp: switch_entry_def undisturbed_def acquired_def cpus_def lids_def elsewhere_def)

text \<open>All three ways to give up the cpu put the thread on a list, mark the cpu idle and go on.\<close>

lemma park_next:
  assumes inv: "sched_inv W Q {} me (insert (Runqueue_lock me) H) s" and idle: "\<not> c_isidle s me"
    and l: "l \<in> lids W s" "admits s l (curthread me s) st" and lev: "t_curspl s (curthread me s) = IPL_HIGH"
    and H: "H \<subseteq> {k}" "k \<noteq> Runqueue_lock me" and spl: "spl \<in> {IPL_NONE, IPL_HIGH}"
  shows "\<exists>h. threadlist_addtail l (curthread me s) (lists s) = Some h \<and>
    (let s' = s\<lparr>lists := h, t_state := (t_state s)(curthread me s := st), c_isidle := (c_isidle s)(me := True)\<rparr>;
         s'' = (if H = {} then s' else released me k s')
     in (H \<noteq> {} \<longrightarrow> spinlock_release me k (s\<lparr>lists := h\<rparr>) = Some (released me k (s\<lparr>lists := h\<rparr>))) \<and>
        switched W (Q(l := Q l @ [curthread me s])) me spl s (thread_switch_next me spl s''))"
proof -
  note d = sched_invD [OF inv]
  let ?t = "curthread me s" and ?rq = "Runqueue_lock me" and ?Q = "Q(l := Q l @ [curthread me s])"
  obtain h where h: "threadlist_addtail l ?t (lists s) = Some h" "lists_inv h (t_alloc s) (lids W s) ?Q"
    using tlq.addtail_law [OF d(4) l(1) sched_inv_running(1) [OF inv d(2) idle]] by blast
  define s' where "s' = s\<lparr>lists := h, t_state := (t_state s)(?t := st), c_isidle := (c_isidle s)(me := True)\<rparr>"
  define s'' where "s'' = (if H = {} then s' else released me k s')"
  have inv': "sched_inv W ?Q {} me (insert ?rq H) s'"
    unfolding s'_def by (rule sched_inv_park [OF inv idle l lev h(2)])
  have inv'': "sched_inv W ?Q {} me {?rq} s''"
  proof (cases "H = {}")
    case True
    then show ?thesis using inv' by (simp add: s''_def)
  next
    case False
    then have "H = {k}" using H by blast
    then show ?thesis
      using release_inv(2) [OF inv', of k] H(2) by (simp add: s''_def insert_Diff_if)
  qed
  have rel: "spinlock_release me k (s\<lparr>lists := h\<rparr>) = Some (released me k (s\<lparr>lists := h\<rparr>))" if "H \<noteq> {}"
  proof -
    have "k \<in> insert ?rq H" using that H by blast
    then have "splk_holder s k = Some me" "0 < c_spinlocks s me"
      using d(5) locks_ok_count [OF d(5)] by (auto simp: locks_ok_def word_less_nat_alt card_gt_0_iff split: if_splits)
    then show ?thesis using d(1) by (intro spinlock_release_eq) simp_all
  qed
  have "switched W ?Q me spl s'' (thread_switch_next me spl s'')"
    by (rule next_inv [OF inv'' _ spl]) (simp add: s''_def s'_def released_def)
  then have "switched W ?Q me spl s (thread_switch_next me spl s'')"
    by (rule switched_pre) (simp_all add: s''_def s'_def released_def elsewhere_def)
  then show ?thesis
    unfolding Let_def s'_def s''_def by (intro exI [of _ h] conjI impI h(1) rel)
qed

lemma switch_idle:
  assumes "sched_inv W Q {} me H s" "c_isidle s me"
  shows "thread_switch me st wc lk s = Some (Returned s)"
  using cpu_okD(4) [OF assms] sched_invD(1) [OF assms(1)] assms(2)
  by (simp add: thread_switch_def splhigh_def splx_def)

lemma switch_zombie_inv:
  assumes inv: "sched_inv W Q {} me {} s" and idle: "\<not> c_isidle s me"
    and stk: "thread_checkstack (curthread me s) s = Some ()" and proc: "t_proc s (curthread me s) = None"
  shows "switched W (Q(Zombies me := Q (Zombies me) @ [curthread me s])) me (t_curspl s (curthread me s)) s
    (thread_switch me S_ZOMBIE None None s)"
proof -
  let ?k = "Runqueue_lock me" and ?t = "curthread me s" and ?spl = "t_curspl s (curthread me s)"
  note d = sched_invD [OF inv] and c = cpu_okD [OF inv]
  obtain s1 where e: "switch_entry me s s1" and inv1: "sched_inv W Q {} me {?k} (acquired me ?k s1)"
    using switch_entry_inv [OF inv] by auto
  note f = switch_entry_simps [OF e]
  define s2 where "s2 = (acquired me ?k s1)\<lparr>t_wchan_name := (t_wchan_name (acquired me ?k s1))(?t := Some ''ZOMBIE'')\<rparr>"
  have inv2: "sched_inv W Q {} me (insert ?k {}) s2" using inv1 by (simp add: s2_def)
  have own: "t_cpu s ?t = Some me" using d(7) [OF d(2)] by (simp add: cpu_ok_def Let_def)
  have f2: "curthread me s2 = ?t" "\<not> c_isidle s2 me" "Zombies me \<in> lids W s2" "lists s2 = lists s"
    "admits s2 (Zombies me) ?t S_ZOMBIE" "t_curspl s2 ?t = IPL_HIGH" "t_state s2 = t_state s"
    using idle own proc f lids_mem(2) [OF d(2), of W] by (simp_all add: s2_def lids_def cpus_def)
  obtain h where h: "threadlist_addtail (Zombies me) ?t (lists s2) = Some h"
    "switched W (Q(Zombies me := Q (Zombies me) @ [?t])) me ?spl s2 (thread_switch_next me ?spl
      (s2\<lparr>lists := h, t_state := (t_state s2)(?t := S_ZOMBIE), c_isidle := (c_isidle s2)(me := True)\<rparr>))"
    using park_next [OF inv2 f2(2,3) f2(5) [folded f2(1)] f2(6) [folded f2(1)], of "Wchan_lock 0" ?spl] c(3)
    by (auto simp: Let_def f2(1))
  have "thread_switch me S_ZOMBIE None None s = thread_switch_next me ?spl
      (s2\<lparr>lists := h, t_state := (t_state s2)(?t := S_ZOMBIE), c_isidle := (c_isidle s2)(me := True)\<rparr>)"
    using e h(1) stk idle f
    by (simp add: thread_switch_def switch_entry_def s2_def thread_checkstack_def Let_def)
  then show ?thesis
    using switched_pre [OF h(2), of s] f by (simp add: s2_def elsewhere_def)
qed

lemma switch_sleep_inv:
  assumes inv: "sched_inv W Q {} me {k} s" and idle: "\<not> c_isidle s me" and w: "wc_threads wc \<in> W" "wc_threads wc \<in> range Wchan"
    and k: "k \<noteq> Runqueue_lock me" and stk: "thread_checkstack (curthread me s) s = Some ()"
  shows "switched W (Q(wc_threads wc := Q (wc_threads wc) @ [curthread me s])) me (t_curspl s (curthread me s)) s
    (thread_switch me S_SLEEP (Some wc) (Some k) s)"
proof -
  let ?k = "Runqueue_lock me" and ?t = "curthread me s" and ?spl = "t_curspl s (curthread me s)" and ?w = "wc_threads wc"
  note d = sched_invD [OF inv] and c = cpu_okD [OF inv]
  obtain s1 where e: "switch_entry me s s1" and inv1: "sched_inv W Q {} me {?k, k} (acquired me ?k s1)"
    using switch_entry_inv [OF inv] k by auto
  note f = switch_entry_simps [OF e]
  define s2 where "s2 = (acquired me ?k s1)\<lparr>t_wchan_name := (t_wchan_name (acquired me ?k s1))(?t := Some (wc_name wc))\<rparr>"
  have inv2: "sched_inv W Q {} me (insert ?k {k}) s2" using inv1 by (simp add: s2_def)
  have f2: "curthread me s2 = ?t" "\<not> c_isidle s2 me" "?w \<in> lids W s2" "lists s2 = lists s"
    "admits s2 ?w ?t S_SLEEP" "t_curspl s2 ?t = IPL_HIGH" "t_state s2 = t_state s"
    using idle f w by (auto simp: s2_def lids_def)
  let ?s3 = "\<lambda>h. s2\<lparr>lists := h, t_state := (t_state s2)(?t := S_SLEEP), c_isidle := (c_isidle s2)(me := True)\<rparr>"
  obtain h where h: "threadlist_addtail ?w ?t (lists s2) = Some h"
    "spinlock_release me k (s2\<lparr>lists := h\<rparr>) = Some (released me k (s2\<lparr>lists := h\<rparr>))"
    "switched W (Q(?w := Q ?w @ [?t])) me ?spl s2 (thread_switch_next me ?spl (released me k (?s3 h)))"
    using park_next [OF inv2 f2(2,3) f2(5) [folded f2(1)] f2(6) [folded f2(1)], of k ?spl] c(3) k
    by (auto simp: Let_def f2(1))
  have "(released me k (s2\<lparr>lists := h\<rparr>))\<lparr>t_state := (t_state s)(?t := S_SLEEP), c_isidle := (c_isidle s)(me := True)\<rparr> =
      released me k (?s3 h)"
    using f by (simp add: released_def s2_def)
  moreover have "thread_switch me S_SLEEP (Some wc) (Some k) s = thread_switch_next me ?spl
      ((released me k (s2\<lparr>lists := h\<rparr>))\<lparr>t_state := (t_state s)(?t := S_SLEEP), c_isidle := (c_isidle s)(me := True)\<rparr>)"
    using e h(1,2) stk idle f
    by (simp add: thread_switch_def switch_entry_def s2_def thread_checkstack_def Let_def released_def)
  ultimately show ?thesis
    using switched_pre [OF h(3), of s] f by (simp add: s2_def elsewhere_def)
qed

lemma switch_ready_inv:
  assumes inv: "sched_inv W Q {} me {} s" and idle: "\<not> c_isidle s me"
    and stk: "thread_checkstack (curthread me s) s = Some ()" and ne: "Q (Runqueue me) \<noteq> []"
  shows "switched W (Q(Runqueue me := Q (Runqueue me) @ [curthread me s])) me (t_curspl s (curthread me s)) s
    (thread_switch me S_READY None None s)"
proof -
  let ?k = "Runqueue_lock me" and ?t = "curthread me s" and ?spl = "t_curspl s (curthread me s)"
  note d = sched_invD [OF inv] and c = cpu_okD [OF inv]
  obtain s1 where e: "switch_entry me s s1" and inv2: "sched_inv W Q {} me (insert ?k {}) (acquired me ?k s1)"
    using switch_entry_inv [OF inv] by auto
  note f = switch_entry_simps [OF e]
  let ?s2 = "acquired me ?k s1"
  have own: "t_cpu s ?t = Some me" using d(7) [OF d(2)] by (simp add: cpu_ok_def Let_def)
  note l = lids_mem(1) [OF d(2), of W]
  have f2: "curthread me ?s2 = ?t" "\<not> c_isidle ?s2 me" "Runqueue me \<in> lids W ?s2"
    "admits ?s2 (Runqueue me) ?t S_READY" "t_curspl ?s2 ?t = IPL_HIGH"
    using idle own f l by simp_all
  let ?s3 = "\<lambda>h. ?s2\<lparr>lists := h, t_state := (t_state ?s2)(?t := S_READY), c_isidle := (c_isidle ?s2)(me := True)\<rparr>"
  obtain h where h: "threadlist_addtail (Runqueue me) ?t (lists ?s2) = Some h"
    "switched W (Q(Runqueue me := Q (Runqueue me) @ [?t])) me ?spl ?s2 (thread_switch_next me ?spl (?s3 h))"
    using park_next [OF inv2 f2(2,3) f2(4) [folded f2(1)] f2(5) [folded f2(1)], of "Wchan_lock 0" ?spl] c(3)
    by (auto simp: Let_def f2(1))
  have mr: "thread_make_runnable me ?t True ?s2 = Some (?s2\<lparr>t_state := (t_state s)(?t := S_READY), lists := h\<rparr>)"
    using h(1) own f by (simp add: thread_make_runnable_def spinlock_do_i_hold_def on_lists_def acquired_def)
  have "\<not> threadlist_isempty (Runqueue me) (lists s)"
    using tlq.isempty_law [OF d(4) l] ne by simp
  then have "thread_switch me S_READY None None s = thread_switch_next me ?spl (?s3 h)"
    using e mr stk idle f
    by (simp add: thread_switch_def switch_entry_def thread_checkstack_def Let_def)
  then show ?thesis
    using switched_pre [OF h(2), of s] f by simp
qed

lemma switch_ready_alone:
  assumes inv: "sched_inv W Q {} me {} s" and idle: "\<not> c_isidle s me"
    and stk: "thread_checkstack (curthread me s) s = Some ()" and ne: "Q (Runqueue me) = []"
  shows "\<exists>s'. thread_switch me S_READY None None s = Some (Returned s') \<and> sched_inv W Q {} me {} s' \<and>
    undisturbed s s' \<and> lists s' = lists s \<and> t_state s' = t_state s"
proof -
  let ?k = "Runqueue_lock me" and ?spl = "t_curspl s (curthread me s)"
  note d = sched_invD [OF inv] and c = cpu_okD [OF inv]
  obtain s1 where e: "switch_entry me s s1" and inv2: "sched_inv W Q {} me {?k} (acquired me ?k s1)"
    using switch_entry_inv [OF inv] by auto
  note f = switch_entry_simps [OF e]
  let ?s3 = "released me ?k (acquired me ?k s1)"
  have r: "spinlock_release me ?k (acquired me ?k s1) = Some ?s3" "sched_inv W Q {} me {} ?s3"
    using release_inv [OF inv2, of ?k] by simp_all
  have i3: "\<not> c_isidle ?s3 me" using idle f by (simp add: released_def)
  obtain x where x: "splx me ?spl ?s3 = Some (t_curspl ?s3 (curthread me ?s3), x)" "sched_inv W Q {} me {} x"
    "x = relevel me ?spl ?spl ?s3"
    using splx_inv [OF r(2) c(3)] i3 by simp
  have cur3: "curthread me ?s3 = curthread me s" using f by (simp add: released_def)
  have lev: "(t_curspl s1)(curthread me s := ?spl) = t_curspl s"
    using e by (simp add: switch_entry_def)
  have "t_curspl x = t_curspl s"
    using lev cur3 by (simp add: x(3) relevel_def released_def acquired_def)
  moreover have "undisturbed s (x\<lparr>t_curspl := t_curspl s\<rparr>)" "lists x = lists s" "t_state x = t_state s"
    using e f by (auto simp: x(3) relevel_def switch_entry_def undisturbed_def released_def acquired_def)
  ultimately have "undisturbed s x \<and> lists x = lists s \<and> t_state x = t_state s"
    by (auto simp: undisturbed_def)
  moreover have "threadlist_isempty (Runqueue me) (lists s)"
    using tlq.isempty_law [OF d(4) lids_mem(1) [OF d(2), of W]] ne by simp
  then have "thread_switch me S_READY None None s = Some (Returned x)"
    using e r(1) x(1) stk idle f
    by (simp add: thread_switch_def switch_entry_def thread_checkstack_def Let_def)
  ultimately show ?thesis using x(2) by blast
qed

subsection \<open>Migration\<close>

definition but_cpu :: "kern \<Rightarrow> kern \<Rightarrow> bool" where
  "but_cpu s s' \<longleftrightarrow> undisturbed s (s'\<lparr>t_cpu := t_cpu s\<rparr>)"

lemma undisturbed_but_cpu: "undisturbed s s' \<Longrightarrow> but_cpu s s'"
  by (auto simp: but_cpu_def undisturbed_def)

lemma but_cpu_trans: "but_cpu s s' \<Longrightarrow> but_cpu s' s'' \<Longrightarrow> but_cpu s s''"
  by (auto simp: but_cpu_def undisturbed_def)

lemma but_cpu_same: "but_cpu s s' \<Longrightarrow> cpus s' = cpus s" "but_cpu s s' \<Longrightarrow> lids W s' = lids W s"
  "but_cpu s s' \<Longrightarrow> c_curthread s' = c_curthread s"
  by (auto simp: but_cpu_def undisturbed_def cpus_def lids_def)

lemma undisturbed_lists [simp]: "undisturbed s (s'\<lparr>lists := h\<rparr>) = undisturbed s s'"
  by (auto simp: undisturbed_def)

text \<open>A short critical section that reads a run queue.\<close>

lemma peek_inv:
  assumes inv: "sched_inv W Q F me H s" and k: "k \<notin> H" "card H + 1 < 2 ^ 31"
  shows "spinlock_acquire me k s = Some (acquired me k s)"
    "spinlock_release me k (acquired me k s) = Some (released me k (acquired me k s))"
    "sched_inv W Q F me H (released me k (acquired me k s))"
    "undisturbed s (released me k (acquired me k s))"
    "lists (released me k (acquired me k s)) = lists s" "t_state (released me k (acquired me k s)) = t_state s"
proof -
  note a = acquire_inv [OF inv k]
  from release_inv [OF a(2), of k] k(1)
  show "spinlock_release me k (acquired me k s) = Some (released me k (acquired me k s))"
    "sched_inv W Q F me H (released me k (acquired me k s))"
    by simp_all
qed (use acquire_inv(1) [OF inv k] in \<open>simp_all add: undisturbed_def acquired_def released_def\<close>)

lemma lists_inv_count:
  "lists_inv h T L Q \<Longrightarrow> l \<in> L \<Longrightarrow> tl_count h l = of_nat (length (Q l))"
  by (simp add: lists_inv_def tl_rep_def)

lemma migration_counts_inv:
  assumes "sched_inv W Q {} me {} s" "set cs \<subseteq> cpus s" "distinct cs"
  shows "\<exists>s'. migration_counts me cs my tot s =
      Some (if me \<in> set cs then of_nat (length (Q (Runqueue me))) else my,
            tot + of_nat (\<Sum>c \<leftarrow> cs. length (Q (Runqueue c))), s') \<and>
    sched_inv W Q {} me {} s' \<and> undisturbed s s' \<and> lists s' = lists s \<and> t_state s' = t_state s"
  using assms
proof (induction cs arbitrary: my tot s)
  case Nil
  then show ?case by (auto simp: undisturbed_def)
next
  case (Cons c cs)
  let ?k = "Runqueue_lock c"
  let ?s' = "released me ?k (acquired me ?k s)"
  note p = peek_inv [OF Cons.prems(1), of ?k, simplified]
  have "lists_inv (lists s) (t_alloc s) (lids W s) Q" "Runqueue c \<in> lids W s"
    using sched_invD(4) [OF Cons.prems(1)] Cons.prems(2) by (auto simp: lids_def)
  then have n: "tl_count (lists (acquired me ?k s)) (Runqueue c) = of_nat (length (Q (Runqueue c)))"
    by (simp add: lists_inv_count acquired_def)
  have "cpus ?s' = cpus s" using undisturbed_cpus(1) [OF p(4)] .
  with Cons.IH [OF p(3), of "if c = me then of_nat (length (Q (Runqueue c))) else my"
      "tot + of_nat (length (Q (Runqueue c)))"] Cons.prems(2,3)
  obtain s'' where "migration_counts me cs (if c = me then of_nat (length (Q (Runqueue c))) else my)
      (tot + of_nat (length (Q (Runqueue c)))) ?s' =
      Some (if me \<in> set cs then of_nat (length (Q (Runqueue me)))
        else if c = me then of_nat (length (Q (Runqueue c))) else my,
        tot + of_nat (length (Q (Runqueue c))) + of_nat (\<Sum>c \<leftarrow> cs. length (Q (Runqueue c))), s'')"
    "sched_inv W Q {} me {} s''" "undisturbed ?s' s''" "lists s'' = lists ?s'" "t_state s'' = t_state ?s'"
    by auto
  moreover have "undisturbed s s''" using undisturbed_trans [OF p(4) \<open>undisturbed ?s' s''\<close>] .
  ultimately show ?case
    using p n Cons.prems(3) by (cases "c = me") (auto simp: Let_def add.assoc)
qed

text \<open>The victims leave the tail of the own run queue.\<close>

lemma migration_victims_inv:
  assumes "sched_inv W Q {} me H s" "Local me \<in> W" "n \<le> length (Q (Runqueue me))"
    "Q' = Q(Runqueue me := take (length (Q (Runqueue me)) - n) (Q (Runqueue me)),
      Local me := drop (length (Q (Runqueue me)) - n) (Q (Runqueue me)) @ Q (Local me))"
  shows "\<exists>h. migration_victims me n s = Some (s\<lparr>lists := h\<rparr>) \<and> sched_inv W Q' {} me H (s\<lparr>lists := h\<rparr>)"
  using assms
proof (induction n arbitrary: Q s)
  case 0
  have "Q' = Q" using 0(4) by simp
  then show ?case using 0(1) by (intro exI [of _ "lists s"]) simp
next
  case (Suc n)
  let ?r = "Runqueue me" and ?l = "Local me"
  note d = sched_invD [OF Suc.prems(1)]
  have l: "?r \<in> lids W s" "?l \<in> lids W s" using d(2) Suc.prems(2) by (auto simp: lids_def)
  obtain us t where us: "Q ?r = us @ [t]" using Suc.prems(3) by (cases "Q ?r" rule: rev_cases) auto
  have ds: "distinct (us @ [t])" using lists_inv_distinct [OF d(4) l(1)] us by simp
  obtain h where h: "threadlist_remtail ?r (lists s) = Some (Some t, h)" "lists_inv h (t_alloc s) (lids W s) (Q(?r := us))"
    using remtail_refines [OF d(4) l(1) us] by blast
  have inv1: "sched_inv W (Q(?r := us)) {t} me H (s\<lparr>lists := h\<rparr>)"
    using sched_inv_take [OF Suc.prems(1) l(1) _ _ h(2), of t] us ds by auto
  have "on_no_list (t_alloc s) (lids W s) (Q(?r := us)) t"
    using sched_inv_floating [OF inv1, of t] by simp
  with addhead_refines [OF h(2) l(2)]
  obtain h' where h': "threadlist_addhead ?l t h = Some h'" "lists_inv h' (t_alloc s) (lids W s) (Q(?r := us, ?l := t # Q ?l))"
    by auto
  have "t_state s t = S_READY" using d(9) [OF l(1)] us by simp
  then have inv2: "sched_inv W (Q(?r := us, ?l := t # Q ?l)) {} me H (s\<lparr>lists := h'\<rparr>)"
    using sched_inv_put [OF inv1, of ?l t S_READY "t # Q ?l" h'] l h'(2) by (simp add: fun_upd_idem)
  have "\<exists>h. migration_victims me n (s\<lparr>lists := h'\<rparr>) = Some (s\<lparr>lists := h'\<rparr>\<lparr>lists := h\<rparr>) \<and>
      sched_inv W Q' {} me H (s\<lparr>lists := h'\<rparr>\<lparr>lists := h\<rparr>)"
    by (rule Suc.IH [OF inv2 Suc.prems(2)]) (use Suc.prems(3,4) us in \<open>auto simp: fun_eq_iff\<close>)
  moreover have "migration_victims me (Suc n) s = migration_victims me n (s\<lparr>lists := h'\<rparr>)"
    using h(1) h'(1) by (simp add: on_lists_ret_def on_lists_def)
  ultimately show ?case by simp
qed

text \<open>A floating thread that no cpu has as its current thread may change its cpu.\<close>

lemma sched_inv_recpu:
  assumes inv: "sched_inv W Q F me H s" and t: "t \<in> F" "\<forall>d \<in> cpus s. curthread d s \<noteq> t" and c: "c \<in> cpus s"
  shows "sched_inv W Q F me H (s\<lparr>t_cpu := (t_cpu s)(t := Some c)\<rparr>)" (is "sched_inv W Q F me H ?s")
proof -
  note d = sched_invD [OF inv]
  have cps: "cpus ?s = cpus s" "lids W ?s = lids W s" by (simp_all add: cpus_def lids_def)
  have cpu: "cpu_ok ?s (if a = me then card H else 0) a" if "a \<in> cpus s" for a
    using d(7) [OF that] t(2) that by (auto simp: cpu_ok_def Let_def)
  have thr: "thr_ok W Q F ?s u" if "u \<in> t_live s" for u
    using d(8) [OF that] c unfolding thr_ok_def cps by auto
  have "list_ok Q ?s m" if "m \<in> lids W s" for m
    by (rule list_ok_cong [OF d(9) [OF that]])
      (use sched_inv_floating [OF inv t(1)] that in \<open>auto simp: on_no_list_def\<close>)
  then show ?thesis
    unfolding sched_inv_def cps using d(1-6,10,11) cpu thr by (auto simp: locks_ok_def)
qed

definition victims_ok :: "nat \<Rightarrow> (lid \<Rightarrow> tid list) \<Rightarrow> kern \<Rightarrow> nat \<Rightarrow> bool" where
  "victims_ok me Q s n \<longleftrightarrow> n \<le> length (Q (Local me)) \<and>
     (\<forall>t \<in> set (Q (Local me)). t_state s t = S_READY \<and> t_cpu s t = Some me)"

text \<open>One victim goes to another cpu.\<close>

lemma migrate_one_inv:
  assumes inv: "sched_inv W Q {} me H s" and W: "Local me \<in> W" and c: "c \<in> cpus s" "c \<noteq> me"
    and H: "Ipi_lock c \<notin> H" "card H + 1 < 2 ^ 31" and Q: "Q (Local me) = t # ts" and v: "victims_ok me Q s (Suc n)"
    and t: "t \<noteq> curthread me s" and Q': "Q' = Q(Local me := ts, Runqueue c := Q (Runqueue c) @ [t])"
  shows "\<exists>h h' s'. on_lists_ret (threadlist_remhead (Local me)) s = Some (Some t, s\<lparr>lists := h\<rparr>) \<and>
    (let s2 = s\<lparr>lists := h, t_cpu := (t_cpu s)(t := Some c)\<rparr>; s3 = s2\<lparr>lists := h'\<rparr>
     in on_lists (threadlist_addtail (Runqueue c) t) s2 = Some s3 \<and>
        (if c_isidle s3 c then ipi_send me c IPI_UNIDLE s3 else Some s3) = Some s') \<and>
    sched_inv W Q' {} me H s' \<and> but_cpu s s' \<and> victims_ok me Q' s' n"
proof -
  note d = sched_invD [OF inv]
  note l = lids_mem(3) [OF W, of s] and r = lids_mem(1) [OF c(1), of W]
  obtain h where h: "on_lists_ret (threadlist_remhead (Local me)) s = Some (Some t, s\<lparr>lists := h\<rparr>)"
    "sched_inv W (Q(Local me := ts)) {t} me H (s\<lparr>lists := h\<rparr>)"
    using take_head(2) [OF inv l Q] by blast
  have own: "t_cpu s t = Some me" "t_state s t = S_READY" using v Q by (simp_all add: victims_ok_def)
  have cur: "\<forall>a \<in> cpus s. curthread a s \<noteq> t"
    using d(7) own(1) t by (auto simp: cpu_ok_def Let_def)
  let ?s2 = "s\<lparr>lists := h, t_cpu := (t_cpu s)(t := Some c)\<rparr>"
  have inv2: "sched_inv W (Q(Local me := ts)) {t} me H ?s2"
    using sched_inv_recpu [OF h(2), of t c] cur c(1) by simp
  have same: "cpus ?s2 = cpus s" "lids W ?s2 = lids W s" by (simp_all add: cpus_def lids_def)
  obtain h' where h': "threadlist_addtail (Runqueue c) t h = Some h'" "lists_inv h' (t_alloc s) (lids W s) Q'"
    using tlq.addtail_law [OF sched_invD(4) [OF inv2], of "Runqueue c" t] sched_inv_floating [OF inv2, of t] r Q'
    by (auto simp: same)
  let ?s3 = "?s2\<lparr>lists := h'\<rparr>"
  have "sched_inv W ((Q(Local me := ts))(Runqueue c := Q (Runqueue c) @ [t])) ({t} - {t}) me H
      (?s2\<lparr>lists := h', t_state := (t_state ?s2)(t := S_READY)\<rparr>)"
    by (rule sched_inv_put [OF inv2]) (use r h'(2) Q' in \<open>auto simp: same\<close>)
  then have inv3: "sched_inv W Q' {} me H ?s3" using own(2) Q' by (simp add: fun_upd_idem)
  obtain s' where s': "(if c_isidle ?s3 c then ipi_send me c IPI_UNIDLE ?s3 else Some ?s3) = Some s'"
    "sched_inv W Q' {} me H s'" "undisturbed ?s3 s'" "t_state s' = t_state s"
  proof (cases "c_isidle ?s3 c")
    case True
    then show thesis
      using ipi_send_inv [OF inv3 H, of IPI_UNIDLE] that by (auto simp: IPI_UNIDLE_def)
  next
    case False
    then show thesis using that [of ?s3] inv3 by (auto simp: undisturbed_def)
  qed
  have "t \<notin> set ts" using lists_inv_distinct [OF d(4) l] Q by simp
  then have "victims_ok me Q' s' n"
    using v Q Q' s'(3,4) by (auto simp: victims_ok_def undisturbed_def)
  moreover have "but_cpu s s'" using s'(3) by (auto simp: but_cpu_def undisturbed_def)
  ultimately show ?thesis
    using h(1) h'(1) s'(1,2) by (intro exI [of _ h] exI [of _ h'] exI [of _ s']) (simp add: Let_def on_lists_def)
qed

lemma migrate_to_inv:
  assumes "sched_inv W Q {} me H s" "Local me \<in> W" "c \<in> cpus s" "c \<noteq> me"
    "Ipi_lock c \<notin> H" "card H + 1 < 2 ^ 31" "victims_ok me Q s n"
  shows "\<exists>m s' Q'. migrate_to me c share n s = Some (m, s') \<and> sched_inv W Q' {} me H s' \<and> but_cpu s s' \<and>
    victims_ok me Q' s' m \<and> (\<forall>w. Q' (Wchan w) = Q (Wchan w) \<and> Q' (Zombies w) = Q (Zombies w))"
  using assms
proof (induction n arbitrary: Q s)
  case 0
  then show ?case by (auto simp: but_cpu_def undisturbed_def)
next
  case (Suc n)
  note inv = Suc.prems(1) and W = Suc.prems(2)
  note l = lids_mem(3) [OF W, of s]
  show ?case
  proof (cases "tl_count (lists s) (Runqueue c) < share")
    case False
    then show ?thesis using Suc.prems by (auto simp: but_cpu_def undisturbed_def)
  next
    case True
    obtain t ts where Q: "Q (Local me) = t # ts"
      using Suc.prems(7) by (cases "Q (Local me)") (auto simp: victims_ok_def)
    show ?thesis
    proof (cases "t = curthread me s")
      case cur: True
      obtain h where h: "on_lists_ret (threadlist_remhead (Local me)) s = Some (Some t, s\<lparr>lists := h\<rparr>)"
        "sched_inv W (Q(Local me := ts)) {t} me H (s\<lparr>lists := h\<rparr>)"
        using take_head(2) [OF inv l Q] by blast
      obtain h' where h': "threadlist_addtail (Local me) t h = Some h'"
        "lists_inv h' (t_alloc s) (lids W s) (Q(Local me := ts @ [t]))"
        using tlq.addtail_law [OF sched_invD(4) [OF h(2)], of "Local me" t] sched_inv_floating [OF h(2), of t] l by auto
      have st: "t_state s t = S_READY" using Suc.prems(7) Q by (simp add: victims_ok_def)
      have "sched_inv W ((Q(Local me := ts))(Local me := ts @ [t])) ({t} - {t}) me H
          (s\<lparr>lists := h\<rparr>\<lparr>lists := h', t_state := (t_state (s\<lparr>lists := h\<rparr>))(t := S_READY)\<rparr>)"
        by (rule sched_inv_put [OF h(2)]) (use l h'(2) in auto)
      moreover define Q1 where "Q1 = Q(Local me := ts @ [t])"
      ultimately have inv': "sched_inv W Q1 {} me H (s\<lparr>lists := h'\<rparr>)"
        using st by (simp add: fun_upd_idem)
      have "victims_ok me Q1 (s\<lparr>lists := h'\<rparr>) n" "\<And>w. Q1 (Wchan w) = Q (Wchan w)" "\<And>w. Q1 (Zombies w) = Q (Zombies w)"
        using Suc.prems(7) Q by (auto simp: victims_ok_def Q1_def)
      with Suc.IH [OF inv' W] Suc.prems(3-6)
      obtain m s' Q' where "migrate_to me c share n (s\<lparr>lists := h'\<rparr>) = Some (m, s')" "sched_inv W Q' {} me H s'"
        "but_cpu (s\<lparr>lists := h'\<rparr>) s'" "victims_ok me Q' s' m" "\<forall>w. Q' (Wchan w) = Q (Wchan w) \<and> Q' (Zombies w) = Q (Zombies w)"
        by auto
      then show ?thesis
        using True cur h(1) h'(1) by (auto simp: on_lists_def but_cpu_def)
    next
      case other: False
      define Q1 where "Q1 = Q(Local me := ts, Runqueue c := Q (Runqueue c) @ [t])"
      obtain h h' s1 where o: "on_lists_ret (threadlist_remhead (Local me)) s = Some (Some t, s\<lparr>lists := h\<rparr>)"
        "on_lists (threadlist_addtail (Runqueue c) t) (s\<lparr>lists := h, t_cpu := (t_cpu s)(t := Some c)\<rparr>) =
          Some (s\<lparr>lists := h, t_cpu := (t_cpu s)(t := Some c)\<rparr>\<lparr>lists := h'\<rparr>)"
        "(if c_isidle s c then ipi_send me c IPI_UNIDLE (s\<lparr>lists := h, t_cpu := (t_cpu s)(t := Some c)\<rparr>\<lparr>lists := h'\<rparr>)
          else Some (s\<lparr>lists := h, t_cpu := (t_cpu s)(t := Some c)\<rparr>\<lparr>lists := h'\<rparr>)) = Some s1"
        "sched_inv W Q1 {} me H s1" "but_cpu s s1" "victims_ok me Q1 s1 n"
        using migrate_one_inv [OF inv W Suc.prems(3-6) Q Suc.prems(7) other Q1_def]
        unfolding Let_def by (elim exE conjE) simp
      have "c \<in> cpus s1" using Suc.prems(3) but_cpu_same(1) [OF o(5)] by simp
      with Suc.IH [OF o(4) W _ Suc.prems(4-6) o(6)]
      obtain m s' Q' where "migrate_to me c share n s1 = Some (m, s')" "sched_inv W Q' {} me H s'"
        "but_cpu s1 s'" "victims_ok me Q' s' m" "\<forall>w. Q' (Wchan w) = Q1 (Wchan w) \<and> Q' (Zombies w) = Q1 (Zombies w)"
        by auto
      then show ?thesis
        using True other o(1,2,3) but_cpu_trans [OF o(5)] by (auto simp: Q1_def Let_def)
    qed
  qed
qed

lemma migrate_all_inv:
  assumes "sched_inv W Q {} me {} s" "Local me \<in> W" "set cs \<subseteq> cpus s" "victims_ok me Q s n"
  shows "\<exists>s' Q'. migrate_all me cs share n s = Some s' \<and> sched_inv W Q' {} me {} s' \<and> but_cpu s s' \<and>
    victims_ok me Q' s' 0 \<and> (\<forall>w. Q' (Wchan w) = Q (Wchan w) \<and> Q' (Zombies w) = Q (Zombies w))"
  using assms
proof (induction cs arbitrary: Q s n)
  case Nil
  then show ?case by (auto simp: but_cpu_def undisturbed_def victims_ok_def)
next
  case (Cons c cs)
  note inv = Cons.prems(1) and W = Cons.prems(2)
  consider "n = 0" | "n \<noteq> 0" "c = me" | "n \<noteq> 0" "c \<noteq> me" by blast
  then show ?case
  proof cases
    case 1
    then show ?thesis using Cons.prems by (auto simp: but_cpu_def undisturbed_def victims_ok_def)
  next
    case 2
    then show ?thesis using Cons.IH [OF inv W _ Cons.prems(4)] Cons.prems(3) by simp
  next
    case 3
    let ?k = "Runqueue_lock c"
    let ?s1 = "acquired me ?k s"
    have a: "spinlock_acquire me ?k s = Some ?s1" "sched_inv W Q {} me {?k} ?s1"
      using acquire_inv [OF inv, of ?k] by simp_all
    have u1: "undisturbed s ?s1" "t_state ?s1 = t_state s" by (auto simp: acquired_def undisturbed_def)
    then have "victims_ok me Q ?s1 n" "c \<in> cpus ?s1"
      using Cons.prems(3,4) undisturbed_cpus(1) [OF u1(1)] by (auto simp: victims_ok_def undisturbed_def)
    with migrate_to_inv [OF a(2) W _ 3(2), of n share]
    obtain m s2 Q2 where m: "migrate_to me c share n ?s1 = Some (m, s2)" "sched_inv W Q2 {} me {?k} s2"
      "but_cpu ?s1 s2" "victims_ok me Q2 s2 m" "\<forall>w. Q2 (Wchan w) = Q (Wchan w) \<and> Q2 (Zombies w) = Q (Zombies w)"
      by auto
    let ?s3 = "released me ?k s2"
    have r: "spinlock_release me ?k s2 = Some ?s3" "sched_inv W Q2 {} me {} ?s3"
      using release_inv [OF m(2), of ?k] by simp_all
    have b3: "but_cpu s ?s3"
      using undisturbed_but_cpu [OF u1(1)] m(3) undisturbed_but_cpu [OF undisturbed_locks(2) [of s2 me ?k]]
      by (meson but_cpu_trans)
    have "victims_ok me Q2 ?s3 m" "set cs \<subseteq> cpus ?s3"
      using m(4) Cons.prems(3) but_cpu_same(1) [OF b3] by (auto simp: victims_ok_def released_def)
    with Cons.IH [OF r(2) W] obtain s' Q' where "migrate_all me cs share m ?s3 = Some s'"
      "sched_inv W Q' {} me {} s'" "but_cpu ?s3 s'" "victims_ok me Q' s' 0" "\<forall>w. Q' (Wchan w) = Q2 (Wchan w) \<and> Q' (Zombies w) = Q2 (Zombies w)"
      by blast
    then show ?thesis
      using 3 a(1) m(1,5) r(1) but_cpu_trans [OF b3] by auto
  qed
qed

text \<open>Left-over victims go back to the own run queue.\<close>

definition migration_rest :: "nat \<Rightarrow> kern \<Rightarrow> kern kp" where
  "migration_rest me s = (if \<not> threadlist_isempty (Local me) (lists s) then do {
     sa \<leftarrow> spinlock_acquire me (Runqueue_lock me) s;
     sb \<leftarrow> wakeall_grab (Local me) (Runqueue me) sa;
     spinlock_release me (Runqueue_lock me) sb
   } else Some s)"

lemma migration_rest_inv:
  assumes inv: "sched_inv W Q {} me {} s" and W: "Local me \<in> W" and v: "victims_ok me Q s 0"
  shows "\<exists>s' Q'. migration_rest me s = Some s' \<and> sched_inv W Q' {} me {} s' \<and> undisturbed s s' \<and>
    Q' (Local me) = [] \<and> (\<forall>w. Q' (Wchan w) = Q (Wchan w) \<and> Q' (Zombies w) = Q (Zombies w))"
proof (cases "threadlist_isempty (Local me) (lists s)")
  case True
  then have "Q (Local me) = []" using tlq.isempty_law [OF sched_invD(4) [OF inv] lids_mem(3) [OF W]] by simp
  then show ?thesis using True inv by (auto simp: migration_rest_def undisturbed_def)
next
  case ne: False
  let ?k = "Runqueue_lock me"
  let ?sa = "acquired me ?k s"
  have sa: "spinlock_acquire me ?k s = Some ?sa" "sched_inv W Q {} me {?k} ?sa"
    using acquire_inv [OF inv, of ?k] by simp_all
  define Q' where "Q' = Q(Local me := [], Runqueue me := Q (Runqueue me) @ Q (Local me))"
  have "admits ?sa (Runqueue me) t (t_state ?sa t)" if "t \<in> set (Q (Local me))" for t
    using v that by (simp add: victims_ok_def acquired_def)
  moreover have "Local me \<in> lids W ?sa" "Runqueue me \<in> lids W ?sa"
    using W sched_invD(2) [OF sa(2)] by (auto simp: lids_def)
  ultimately obtain h where b: "wakeall_grab (Local me) (Runqueue me) ?sa = Some (?sa\<lparr>lists := h\<rparr>)"
    "sched_inv W Q' {} me {?k} (?sa\<lparr>lists := h\<rparr>)"
    using wakeall_grab_inv [OF sa(2), of "Local me" "Runqueue me" "Q (Local me)" Q'] by (auto simp: Q'_def)
  have "spinlock_release me ?k (?sa\<lparr>lists := h\<rparr>) = Some (released me ?k (?sa\<lparr>lists := h\<rparr>))"
    "sched_inv W Q' {} me {} (released me ?k (?sa\<lparr>lists := h\<rparr>))"
    using release_inv [OF b(2), of ?k] by simp_all
  then show ?thesis
    using ne sa(1) b(1)
    by (intro exI [of _ "released me ?k (?sa\<lparr>lists := h\<rparr>)"] exI [of _ Q'])
      (auto simp: migration_rest_def Q'_def undisturbed_def acquired_def released_def)
qed

lemma lists_inv_length:
  assumes "lists_inv h T L Q" "l \<in> L"
  shows "length (Q l) < 2 ^ 32"
proof -
  have "length (Q l) = card (set (Q l))" using lists_inv_distinct [OF assms] by (simp add: distinct_card)
  also have "\<dots> \<le> card T"
    using lists_inv_sub [OF assms] assms(1) by (intro card_mono) (auto simp: lists_inv_def)
  finally show ?thesis using assms(1) by (simp add: lists_inv_def)
qed

text \<open>The victims, taken off under the run queue lock and distributed.\<close>

lemma migration_send_inv:
  assumes inv: "sched_inv W Q {} me {} s" and W: "Local me \<in> W" "Q (Local me) = []"
    and k: "k \<le> length (Q (Runqueue me))" and cs: "set cs \<subseteq> cpus s"
  shows "\<exists>s' Q'. (do {
      s3 \<leftarrow> spinlock_acquire me (Runqueue_lock me) s;
      s4 \<leftarrow> migration_victims me k s3;
      s5 \<leftarrow> spinlock_release me (Runqueue_lock me) s4;
      migrate_all me cs share k s5
    }) = Some s' \<and> sched_inv W Q' {} me {} s' \<and> but_cpu s s' \<and> victims_ok me Q' s' 0 \<and>
    (\<forall>w. Q' (Wchan w) = Q (Wchan w) \<and> Q' (Zombies w) = Q (Zombies w))"
proof -
  let ?k = "Runqueue_lock me" and ?r = "Q (Runqueue me)"
  let ?s3 = "acquired me ?k s"
  have a: "spinlock_acquire me ?k s = Some ?s3" "sched_inv W Q {} me {?k} ?s3"
    using acquire_inv [OF inv, of ?k] by simp_all
  define Q4 where "Q4 = Q(Runqueue me := take (length ?r - k) ?r, Local me := drop (length ?r - k) ?r)"
  obtain h where v: "migration_victims me k ?s3 = Some (?s3\<lparr>lists := h\<rparr>)" "sched_inv W Q4 {} me {?k} (?s3\<lparr>lists := h\<rparr>)"
    using migration_victims_inv [OF a(2) W(1) k, of Q4] W(2) by (auto simp: Q4_def)
  let ?s5 = "released me ?k (?s3\<lparr>lists := h\<rparr>)"
  have r: "spinlock_release me ?k (?s3\<lparr>lists := h\<rparr>) = Some ?s5" "sched_inv W Q4 {} me {} ?s5"
    using release_inv [OF v(2), of ?k] by simp_all
  have u5: "undisturbed s ?s5" "t_state ?s5 = t_state s" by (auto simp: undisturbed_def acquired_def released_def)
  have "t_state s t = S_READY \<and> t_cpu s t = Some me" if "t \<in> set ?r" for t
    using sched_invD(9) [OF inv lids_mem(1) [OF sched_invD(2) [OF inv]]] that by simp
  then have "victims_ok me Q4 ?s5 k"
    using u5 k by (auto simp: victims_ok_def Q4_def undisturbed_def dest: in_set_dropD)
  moreover have "set cs \<subseteq> cpus ?s5" using cs undisturbed_cpus(1) [OF u5(1)] by simp
  ultimately obtain s6 Q6 where m: "migrate_all me cs share k ?s5 = Some s6" "sched_inv W Q6 {} me {} s6"
    "but_cpu ?s5 s6" "victims_ok me Q6 s6 0" "\<forall>w. Q6 (Wchan w) = Q4 (Wchan w) \<and> Q6 (Zombies w) = Q4 (Zombies w)"
    using migrate_all_inv [OF r(2) W(1), of cs k share] by auto
  then show ?thesis
    using a(1) v(1) r(1) but_cpu_trans [OF undisturbed_but_cpu [OF u5(1)] m(3)] by (auto simp: Q4_def)
qed

lemma consider_migration_inv:
  assumes inv: "sched_inv W Q {} me {} s" and W: "Local me \<notin> W"
  shows "\<exists>s' Q'. thread_consider_migration me s = Some s' \<and> sched_inv W Q' {} me {} s' \<and> but_cpu s s' \<and>
    (\<forall>w. Q' (Wchan w) = Q (Wchan w) \<and> Q' (Zombies w) = Q (Zombies w))"
proof -
  let ?cs = "[0..<unat (allcpus_num s)]" and ?W = "insert (Local me) W" and ?n = "length (Q (Runqueue me))"
  have cs: "set ?cs = cpus s" "me \<in> set ?cs" using sched_invD(2) [OF inv] by (auto simp: cpus_def)
  obtain tot s1 where s1: "migration_counts me ?cs 0 0 s = Some (of_nat ?n, tot, s1)" "sched_inv W Q {} me {} s1" "undisturbed s s1"
    using migration_counts_inv [OF inv, of ?cs 0 0] cs(1) unfolding if_P [OF cs(2)] by auto
  define share where "share = DIVROUNDUP tot (allcpus_num s)"
  show ?thesis
  proof (cases "of_nat ?n < share")
    case True
    then show ?thesis
      using s1 undisturbed_but_cpu [OF s1(3)] by (auto simp: thread_consider_migration_def share_def Let_def)
  next
    case False
    define k where "k = unat (of_nat ?n - share)"
    have d1: "lists_inv (lists s1) (t_alloc s1) (lids W s1) Q" "Runqueue me \<in> lids W s1"
      using sched_invD(2,4) [OF s1(2)] by (auto simp: lids_def)
    have kn: "k \<le> ?n"
      using False unat_sub [of share "of_nat ?n :: u32"] lists_inv_length [OF d1]
      by (simp add: k_def unat_of_nat_id not_less)
    let ?s2 = "s1\<lparr>lists := threadlist_init (Local me) (lists s1)\<rparr>"
    define Q2 where "Q2 = Q(Local me := [])"
    have inv2: "sched_inv ?W Q2 {} me {} ?s2" unfolding Q2_def by (rule sched_inv_local [OF s1(2) W])
    have cs2: "set ?cs \<subseteq> cpus ?s2" using cs undisturbed_cpus(1) [OF s1(3)] by simp
    obtain s6 Q6 where m: "(do {
        s3 \<leftarrow> spinlock_acquire me (Runqueue_lock me) ?s2;
        s4 \<leftarrow> migration_victims me k s3;
        s5 \<leftarrow> spinlock_release me (Runqueue_lock me) s4;
        migrate_all me ?cs share k s5
      }) = Some s6" "sched_inv ?W Q6 {} me {} s6" "but_cpu ?s2 s6" "victims_ok me Q6 s6 0" "\<forall>w. Q6 (Wchan w) = Q2 (Wchan w) \<and> Q6 (Zombies w) = Q2 (Zombies w)"
      using migration_send_inv [OF inv2 _ _ _ cs2, of k share] kn by (auto simp: Q2_def)
    obtain s7 Q7 where s7: "migration_rest me s6 = Some s7" "sched_inv ?W Q7 {} me {} s7" "undisturbed s6 s7"
      "Q7 (Local me) = []" "\<forall>w. Q7 (Wchan w) = Q6 (Wchan w) \<and> Q7 (Zombies w) = Q6 (Zombies w)"
      using migration_rest_inv [OF m(2) _ m(4)] by auto
    have "threadlist_isempty (Local me) (lists s7)"
      using tlq.isempty_law [OF sched_invD(4) [OF s7(2)], of "Local me"] s7(4) by (simp add: lids_def)
    then have "thread_consider_migration me s = Some s7"
      using s1(1) False m(1) s7(1)
      by (auto simp: thread_consider_migration_def share_def k_def Let_def threadlist_cleanup_def threadlist_isempty_def
          migration_rest_def split: Option.bind_splits)
    moreover have "but_cpu s s7"
      using undisturbed_but_cpu [OF s1(3)] m(3) undisturbed_but_cpu [OF s7(3)]
      by (auto simp: but_cpu_def undisturbed_def)
    ultimately show ?thesis
      using sched_inv_unlocal [OF s7(2,4)] s7(5) m(5) by (auto simp: Q2_def)
  qed
qed

subsection \<open>Processes, exit and fork\<close>

text \<open>Only what concerns live threads matters.\<close>

lemma sched_inv_agree:
  assumes inv: "sched_inv W Q F me H s"
    and thr: "\<And>t. t \<in> t_live s \<Longrightarrow> t_state s' t = t_state s t \<and> t_context s' t = t_context s t \<and>
      t_cpu s' t = t_cpu s t \<and> t_curspl s' t = t_curspl s t \<and> t_iplhigh_count s' t = t_iplhigh_count s t"
    and proc: "\<And>t c. c \<in> cpus s \<Longrightarrow> t \<in> set (Q (Zombies c)) \<Longrightarrow> t_proc s' t = None"
    and same: "t_live s' = t_live s" "c_curthread s' = c_curthread s" "c_spinlocks s' = c_spinlocks s"
      "c_irqon s' = c_irqon s" "c_isidle s' = c_isidle s" "allcpus_num s' = allcpus_num s"
      "curcpu_exists s' = curcpu_exists s" "splk_lock s' = splk_lock s" "splk_holder s' = splk_holder s"
    and lists: "lists_inv (lists s') (t_alloc s') (lids W s) Q" "t_live s \<subseteq> t_alloc s'"
  shows "sched_inv W Q F me H s'"
proof -
  note d = sched_invD [OF inv]
  have cps: "cpus s' = cpus s" "lids W s' = lids W s" by (simp_all add: cpus_def lids_def same)
  have cpu: "cpu_ok s' (if c = me then card H else 0) c" if "c \<in> cpus s" for c
    using d(7) [OF that] thr by (auto simp: cpu_ok_def Let_def same)
  have t: "thr_ok W Q F s' u" if "u \<in> t_live s" for u
    using d(8) [OF that] thr [OF that] unfolding thr_ok_def cps by (simp add: same)
  have "list_ok Q s' l" if l: "l \<in> lids W s" for l
  proof (cases l)
    case (Zombies c)
    then have "c \<in> cpus s" using l d(3) by (auto simp: lids_def)
    then show ?thesis using d(9,11) [OF l] thr proc Zombies by fastforce
  qed (use d(9,11) [OF l] thr in fastforce)+
  then show ?thesis
    unfolding sched_inv_def cps using d(1-3,5,6,11) thr cpu t lists by (auto simp: same locks_ok_def)
qed

text \<open>Attaching a thread to a process and detaching it: a short critical section, then a change of
  \<^verbatim>\<open>t_proc\<close> with interrupts off.\<close>

definition but_proc :: "kern \<Rightarrow> kern \<Rightarrow> bool" where
  "but_proc s s' \<longleftrightarrow> undisturbed s (s'\<lparr>t_proc := t_proc s, p_numthreads := p_numthreads s\<rparr>) \<and>
     lists s' = lists s \<and> t_state s' = t_state s"

lemma set_proc_inv:
  assumes inv: "sched_inv W Q {} me {} s" and idle: "\<not> c_isidle s me"
    and x: "x = None \<or> t \<notin> t_live s"
  shows "\<exists>s'. (do {
      s3 \<leftarrow> do {
        s1 \<leftarrow> spinlock_acquire me (Proc_lock p) s;
        spinlock_release me (Proc_lock p) (s1\<lparr>p_numthreads := (p_numthreads s1)(p := n)\<rparr>)};
      (spl, s4) \<leftarrow> splhigh me s3;
      map_option snd (splx me spl (s4\<lparr>t_proc := (t_proc s4)(t := x)\<rparr>))
    }) = Some s' \<and> sched_inv W Q {} me {} s' \<and> but_proc s s' \<and> t_proc s' = (t_proc s)(t := x) \<and>
    p_numthreads s' = (p_numthreads s)(p := n)"
proof -
  let ?k = "Proc_lock p"
  let ?s1 = "acquired me ?k s"
  let ?s2 = "?s1\<lparr>p_numthreads := (p_numthreads ?s1)(p := n)\<rparr>"
  let ?s3 = "released me ?k ?s2"
  have a: "spinlock_acquire me ?k s = Some ?s1" "sched_inv W Q {} me {?k} ?s1"
    using acquire_inv [OF inv, of ?k] by simp_all
  then have inv2: "sched_inv W Q {} me {?k} ?s2" by simp
  have r: "spinlock_release me ?k ?s2 = Some ?s3" "sched_inv W Q {} me {} ?s3"
    using release_inv [OF inv2, of ?k] by simp_all
  have f3: "but_proc s ?s3" "c_isidle ?s3 = c_isidle s" "t_live ?s3 = t_live s" "t_proc ?s3 = t_proc s"
    "p_numthreads ?s3 = (p_numthreads s)(p := n)" "t_curspl ?s3 = t_curspl s" "c_curthread ?s3 = c_curthread s"
    by (auto simp: but_proc_def undisturbed_def acquired_def released_def)
  have h: "c_isidle ?s3 me \<longrightarrow> IPL_HIGH = IPL_HIGH" by simp
  obtain s4 where s4: "splx me IPL_HIGH ?s3 = Some (t_curspl ?s3 (curthread me ?s3), s4)" "sched_inv W Q {} me {} s4"
    "s4 = relevel me IPL_HIGH IPL_HIGH ?s3"
    using splx_inv [OF r(2) _ h] by simp
  let ?s5 = "s4\<lparr>t_proc := (t_proc s4)(t := x)\<rparr>"
  have f4: "c_isidle s4 = c_isidle s" "t_live s4 = t_live s" "t_proc s4 = t_proc s" "c_curthread s4 = c_curthread s"
    "p_numthreads s4 = (p_numthreads s)(p := n)" "t_curspl s4 = (t_curspl s)(curthread me s := IPL_HIGH)"
    "but_proc s (s4\<lparr>t_curspl := t_curspl s\<rparr>)"
    using f3 by (auto simp: s4(3) relevel_def but_proc_def undisturbed_def)
  note d4 = sched_invD [OF s4(2)]
  have inv5: "sched_inv W Q {} me {} ?s5"
  proof (rule sched_inv_agree [OF s4(2)])
    fix u c assume u: "c \<in> cpus s4" "u \<in> set (Q (Zombies c))"
    then show "t_proc ?s5 u = None"
      using d4(9,11) [OF lids_mem(2) [OF u(1)]] x f4(2) by auto
  qed (use d4(4,10) in simp_all)
  have i5: "c_isidle ?s5 me \<longrightarrow> t_curspl s (curthread me s) = IPL_HIGH" using idle f4 by simp
  obtain s6 where s6: "splx me (t_curspl s (curthread me s)) ?s5 = Some (t_curspl ?s5 (curthread me ?s5), s6)"
    "sched_inv W Q {} me {} s6"
    "s6 = relevel me (t_curspl s (curthread me s)) (t_curspl s (curthread me s)) ?s5"
    using splx_inv [OF inv5 cpu_okD(3) [OF inv] i5] by simp
  have "t_proc s6 = (t_proc s)(t := x)" "p_numthreads s6 = (p_numthreads s)(p := n)" "but_proc s s6"
    using f4 by (auto simp: s6(3) relevel_def but_proc_def undisturbed_def)
  then show ?thesis
    using a(1) r(1) s4(1) s6(1,2) f3(6,7) by (simp add: splhigh_def acquired_def)
qed

lemma count_change_inv:
  assumes inv: "sched_inv W Q {} me {} s" and w: "wc_threads tcw \<in> W" "wc_threads tcw \<in> range Wchan" "Local me \<notin> W"
    and Q': "Q' = fold (woken s) (Q (wc_threads tcw)) (Q(wc_threads tcw := [], Local me := []))"
  shows "\<exists>sa sc s'. spinlock_acquire me Thread_count_lock s = Some sa \<and> thread_count sa = thread_count s \<and>
      wchan_wakeall me tcw Thread_count_lock (sa\<lparr>thread_count := n\<rparr>) = Some sc \<and>
      spinlock_release me Thread_count_lock sc = Some s' \<and> sched_inv W Q' {} me {} s' \<and> undisturbed s (s'\<lparr>thread_count := thread_count s\<rparr>) \<and> thread_count s' = n"
proof -
  let ?k = Thread_count_lock
  let ?sb = "(acquired me ?k s)\<lparr>thread_count := n\<rparr>"
  have a: "spinlock_acquire me ?k s = Some (acquired me ?k s)" "sched_inv W Q {} me {?k} ?sb"
    using acquire_inv [OF inv, of ?k] by simp_all
  have "woken ?sb = woken s" by (rule woken_cong) (simp add: acquired_def)
  then obtain sc where c: "wchan_wakeall me tcw ?k ?sb = Some sc" "undisturbed ?sb sc" "sched_inv W Q' {} me {?k} sc"
    using wakeall_inv [OF a(2) w, of ?k] by (auto simp: no_cpu_locks_def Q')
  have "spinlock_release me ?k sc = Some (released me ?k sc)" "sched_inv W Q' {} me {} (released me ?k sc)"
    using release_inv [OF c(3), of ?k] by simp_all
  moreover have "undisturbed s ((released me ?k sc)\<lparr>thread_count := thread_count s\<rparr>)" "thread_count (released me ?k sc) = n"
    "thread_count (acquired me ?k s) = thread_count s"
    using c(2) by (simp_all add: undisturbed_def acquired_def released_def)
  ultimately show ?thesis using a(1) c(1) by blast
qed

lemma thread_exit_inv:
  assumes inv: "sched_inv W Q {} me {} s" and idle: "\<not> c_isidle s me"
    and w: "wc_threads tcw \<in> W" "wc_threads tcw \<in> range Wchan" "Local me \<notin> W"
    and t: "t = curthread me s" "thread_checkstack t s = Some ()" "t_proc s t = Some p" "0 < p_numthreads s p"
  shows "\<exists>s1 Q1. switched W (Q1(Zombies me := Q (Zombies me) @ [t])) me IPL_HIGH s1 (thread_exit tcw me s) \<and>
    Q1 = (if thread_count s = 0 then Q
          else fold (woken s) (Q (wc_threads tcw)) (Q(wc_threads tcw := [], Local me := []))) \<and>
    thread_count s1 = (if thread_count s = 0 then 0 else thread_count s - 1) \<and>
    p_numthreads s1 = (p_numthreads s)(p := p_numthreads s p - 1) \<and> t_proc s1 = (t_proc s)(t := None) \<and>
    c_curthread s1 = c_curthread s \<and> c_isidle s1 = c_isidle s \<and> t_live s1 = t_live s \<and>
    sched_inv W Q1 {} me {} s1 \<and> t_stack s1 = t_stack s \<and> allcpus_num s1 = allcpus_num s"
proof -
  obtain sp where sp: "proc_remthread me t s = Some sp" "sched_inv W Q {} me {} sp" "but_proc s sp"
    "t_proc sp = (t_proc s)(t := None)" "p_numthreads sp = (p_numthreads s)(p := p_numthreads s p - 1)"
    using set_proc_inv [OF inv idle, of None t p "p_numthreads s p - 1"] t(3,4) acquire_inv(1) [OF inv, of "Proc_lock p"]
    by (auto simp: proc_remthread_def acquired_def)
  define Q1 where "Q1 = (if thread_count s = 0 then Q
          else fold (woken s) (Q (wc_threads tcw)) (Q(wc_threads tcw := [], Local me := [])))"
  have fp: "thread_count sp = thread_count s" "c_curthread sp = c_curthread s" "c_isidle sp = c_isidle s"
    "t_stack sp = t_stack s" "t_cpu sp = t_cpu s" "allcpus_num sp = allcpus_num s" "t_live sp = t_live s" "t_curspl sp = t_curspl s"
    using sp(3) by (simp_all add: but_proc_def undisturbed_def)
  obtain sc where c: "if thread_count s = 0 then sc = sp
      else \<exists>sa sx. spinlock_acquire me Thread_count_lock sp = Some sa \<and>
        wchan_wakeall me tcw Thread_count_lock (sa\<lparr>thread_count := thread_count sa - 1\<rparr>) = Some sx \<and>
        spinlock_release me Thread_count_lock sx = Some sc" "sched_inv W Q1 {} me {} sc"
    "undisturbed sp (sc\<lparr>thread_count := thread_count sp\<rparr>)"
    "thread_count sc = (if thread_count s = 0 then 0 else thread_count s - 1)"
  proof (cases "thread_count s = 0")
    case True
    then show thesis using that [of sp] sp(2) fp(1) by (simp add: Q1_def undisturbed_def)
  next
    case False
    have "woken sp = woken s" by (rule woken_cong) (simp add: fp)
    then have q: "Q1 = fold (woken sp) (Q (wc_threads tcw)) (Q(wc_threads tcw := [], Local me := []))"
      using False by (simp add: Q1_def)
    from count_change_inv [OF sp(2) w q, of "thread_count sp - 1"] show thesis
      using that False fp(1) by (elim exE conjE) force
  qed
  have ic: "c_isidle sc me \<longrightarrow> IPL_HIGH = IPL_HIGH" by simp
  obtain s1 where h: "splx me IPL_HIGH sc = Some (t_curspl sc (curthread me sc), s1)" "sched_inv W Q1 {} me {} s1"
    "s1 = relevel me IPL_HIGH IPL_HIGH sc"
    using splx_inv [OF c(2) _ ic] by simp
  have f1: "thread_count s1 = thread_count sc" "c_curthread s1 = c_curthread s" "c_isidle s1 = c_isidle s"
    "t_stack s1 = t_stack s" "t_live s1 = t_live s" "t_proc s1 = t_proc sp" "p_numthreads s1 = p_numthreads sp"
    "t_curspl s1 (curthread me sc) = IPL_HIGH" "c_curthread sc = c_curthread s" "allcpus_num s1 = allcpus_num s"
    using c(3) fp by (simp_all add: h(3) relevel_def undisturbed_def)
  have stk: "thread_checkstack (curthread me s1) s1 = Some ()" "thread_checkstack t sp = Some ()"
    using t(1,2) by (simp_all add: thread_checkstack_def f1 fp)
  have z: "Q1 (Zombies me) = Q (Zombies me)"
  proof -
    have "fold (woken s) ts R (Zombies me) = R (Zombies me)" for ts and R :: "lid \<Rightarrow> tid list"
      by (induction ts arbitrary: R) simp_all
    then show ?thesis using w(2) by (auto simp: Q1_def)
  qed
  have sw: "switched W (Q1(Zombies me := Q (Zombies me) @ [t])) me IPL_HIGH s1 (thread_switch me S_ZOMBIE None None s1)"
    using switch_zombie_inv [OF h(2) _ stk(1)] idle f1 sp(4) t(1) by (simp add: z)
  then have "\<exists>r. thread_switch me S_ZOMBIE None None s1 = Some r \<and> (\<forall>x. r \<noteq> Returned x)"
    by (auto simp: switched_def split: list.splits)
  then have "thread_exit tcw me s = thread_switch me S_ZOMBIE None None s1"
    using sp(1,4) c(1) h(1) stk(2) t(1)
    by (cases "thread_count s = 0") (auto simp: thread_exit_def splhigh_def fp(1) split: switch_result.splits)
  then show ?thesis
    using sw f1 c(4) sp(4,5) h(2) by (intro exI [of _ s1] exI [of _ Q1]) (simp add: Q1_def)
qed

text \<open>A new structure is known to the lists, a started thread to the scheduler.\<close>

lemma lists_inv_new:
  assumes inv: "lists_inv h T L Q" and t: "t \<notin> T" "card T + 1 < 2 ^ 32"
  shows "\<exists>h'. threadlistnode_init (Node t) (Some t) h = Some h' \<and> lists_inv h' (insert t T) L Q"
proof -
  let ?h = "set_self (Node t) (Some t) (set_prev (Node t) None (set_next (Node t) None h))"
  have off: "t \<notin> set (Q l)" if "l \<in> L" for l
    using lists_inv_sub [OF inv that] t(1) by blast
  have "tl_rep ?h l (Q l)" if "l \<in> L" for l
    by (rule tl_rep_frame [OF lists_inv_rep [OF inv that]]) (use off [OF that] in \<open>auto simp: spine_def\<close>)
  then have "lists_inv ?h (insert t T) L Q"
    using inv t unfolding lists_inv_def by (auto simp: card_insert_if)
  then show ?thesis by (simp add: threadlistnode_init_def)
qed

lemma sched_inv_start:
  assumes inv: "sched_inv W Q {} me {} s" and t: "t \<notin> t_live s" "t \<in> t_alloc s" "t_state s t = S_READY"
    and c: "t_cpu s t = Some c" "c \<in> cpus s" "t_curspl s t = IPL_HIGH" "t_iplhigh_count s t = 2" "ctx_ok (t_context s t)"
  shows "sched_inv W Q {t} me {} (s\<lparr>t_live := insert t (t_live s)\<rparr>)" (is "sched_inv W Q {t} me {} ?s")
proof -
  note d = sched_invD [OF inv]
  have cps: "cpus ?s = cpus s" "lids W ?s = lids W s" by (simp_all add: cpus_def lids_def)
  have cpu: "cpu_ok ?s 0 a" if "a \<in> cpus s" for a
    using d(7) [OF that] by (auto simp: cpu_ok_def Let_def)
  have "thr_ok W Q {t} ?s u" if "u \<in> t_live s" for u
  proof -
    have "u \<noteq> t" using that t(1) by blast
    then show ?thesis using d(8) [OF that] unfolding thr_ok_def cps by simp
  qed
  moreover have "t \<notin> set (Q l)" if "l \<in> lids W s" for l using d(11) [OF that] t(1) by blast
  then have "thr_ok W Q {t} ?s t" using t c unfolding thr_ok_def cps by auto
  moreover have "list_ok Q ?s l" if "l \<in> lids W s" for l
    by (rule list_ok_cong [OF d(9) [OF that]]) simp
  moreover have "set (Q l) \<subseteq> insert t (t_live s)" if "l \<in> lids W s" for l
    using d(11) [OF that] by blast
  ultimately show ?thesis
    unfolding sched_inv_def cps using d(1-5,10) cpu t(2,3) by (auto simp: locks_ok_def)
qed

text \<open>The first half of \<^verbatim>\<open>thread_fork\<close>: the structure and stack of the new thread, attached to its process.\<close>

definition forked :: "nat \<Rightarrow> tid \<Rightarrow> nat \<Rightarrow> kern \<Rightarrow> kern \<Rightarrow> bool" where
  "forked me t p s s' \<longleftrightarrow> t_live s' = t_live s \<and> c_curthread s' = c_curthread s \<and> t_cpu s' = (t_cpu s)(t := Some me) \<and>
     t_curspl s' t = IPL_HIGH \<and> t \<in> t_alloc s' \<and> cpus s' = cpus s \<and> t_state s' t = S_READY \<and>
     (\<forall>u. u \<noteq> t \<longrightarrow> t_stack s' u = t_stack s u) \<and>
     c_isidle s' = c_isidle s \<and> t_proc s' = (t_proc s)(t := Some p) \<and>
     p_numthreads s' = (p_numthreads s)(p := p_numthreads s p + 1) \<and> thread_checkstack t s' = Some ()"

lemma fork_attach_inv:
  assumes inv: "sched_inv W Q {} me {} s" and idle: "\<not> c_isidle s me"
    and t: "t \<notin> t_alloc s" "card (t_alloc s) + 1 < 2 ^ 32" "\<forall>c. curthread c s \<noteq> t" and name: "length name < MAX_NAME_LENGTH"
    and stk: "length stk = STACK_WORDS" and p: "(case proc of None \<Rightarrow> t_proc s (curthread me s) | Some p \<Rightarrow> Some p) = Some p"
  shows "\<exists>s1 s3 s5. thread_create (Some t) name s = Some (Some t, s1) \<and>
    thread_checkstack_init t (s1\<lparr>t_stack := (t_stack s1)(t := Some stk)\<rparr>) = Some s3 \<and>
    (let s4 = s3\<lparr>t_cpu := (t_cpu s3)(t := t_cpu s3 (curthread me s3))\<rparr>
     in (case proc of None \<Rightarrow> t_proc s4 (curthread me s4) | Some p \<Rightarrow> Some p) = Some p \<and>
        proc_addthread me p t s4 = Some s5) \<and>
    sched_inv W Q {} me {} s5 \<and> forked me t p s s5 \<and> t_iplhigh_count s5 t = 1 \<and> thread_count s5 = thread_count s"
proof -
  note d = sched_invD [OF inv]
  have live: "t \<notin> t_live s" using t(1) d(10) by blast
  obtain h where h: "threadlistnode_init (Node t) (Some t) (lists s) = Some h"
    "lists_inv h (insert t (t_alloc s)) (lids W s) Q"
    using lists_inv_new [OF d(4) t(1,2)] by blast
  define stk' where "stk' = stk[0 := THREAD_STACK_MAGIC, 1 := THREAD_STACK_MAGIC, 2 := THREAD_STACK_MAGIC, 3 := THREAD_STACK_MAGIC]"
  define s1 where "s1 = s\<lparr>
    t_alloc := insert t (t_alloc s), t_name := (t_name s)(t := name), t_wchan_name := (t_wchan_name s)(t := Some ''NEW''),
    t_state := (t_state s)(t := S_READY), lists := h, t_context := (t_context s)(t := None),
    t_proc := (t_proc s)(t := None), t_in_interrupt := (t_in_interrupt s)(t := False),
    t_curspl := (t_curspl s)(t := IPL_HIGH), t_iplhigh_count := (t_iplhigh_count s)(t := 1),
    t_stack := (t_stack s)(t := None), t_cpu := (t_cpu s)(t := None)\<rparr>"
  define s3 where "s3 = s1\<lparr>t_stack := (t_stack s)(t := Some stk')\<rparr>"
  define s4 where "s4 = s3\<lparr>t_cpu := (t_cpu s)(t := Some me)\<rparr>"
  have cur: "t_cpu s (curthread me s) = Some me" "t \<noteq> curthread me s"
    using d(7) [OF d(2)] live by (auto simp: cpu_ok_def Let_def)
  have cr: "thread_create (Some t) name s = Some (Some t, s1)"
    using name h(1) by (simp add: thread_create_def s1_def)
  have ck: "thread_checkstack_init t (s1\<lparr>t_stack := (t_stack s1)(t := Some stk)\<rparr>) = Some s3"
    using stk by (auto simp: thread_checkstack_init_def wr_def s3_def s1_def stk'_def STACK_WORDS_def)
  have s4: "s3\<lparr>t_cpu := (t_cpu s3)(t := t_cpu s3 (curthread me s3))\<rparr> = s4"
    using cur by (simp add: s4_def s3_def s1_def)
  have p4: "(case proc of None \<Rightarrow> t_proc s4 (curthread me s4) | Some p \<Rightarrow> Some p) = Some p"
    using p cur(2) by (auto simp: s4_def s3_def s1_def split: option.splits)
  have inv4: "sched_inv W Q {} me {} s4"
  proof (rule sched_inv_agree [OF inv])
    fix u c assume u: "c \<in> cpus s" "u \<in> set (Q (Zombies c))"
    show "t_proc s4 u = None" using d(9) [OF lids_mem(2) [OF u(1)]] u(2) by (auto simp: s4_def s3_def s1_def)
  qed (use live h(2) d(10) in \<open>auto simp: s4_def s3_def s1_def\<close>)
  have "c_isidle s4 = c_isidle s" "t_live s4 = t_live s" "t_proc s4 t = None" by (simp_all add: s4_def s3_def s1_def)
  then obtain s5 where s5: "proc_addthread me p t s4 = Some s5" "sched_inv W Q {} me {} s5" "but_proc s4 s5"
    "t_proc s5 = (t_proc s4)(t := Some p)" "p_numthreads s5 = (p_numthreads s4)(p := p_numthreads s4 p + 1)"
    using set_proc_inv [OF inv4, of "Some p" t p "p_numthreads s4 p + 1"] idle live acquire_inv(1) [OF inv4, of "Proc_lock p"]
    by (auto simp: proc_addthread_def acquired_def)
  have "thread_checkstack t s4 = Some ()"
    using stk by (auto simp: thread_checkstack_def rd_def s4_def s3_def stk'_def STACK_WORDS_def)
  then have "forked me t p s s5 \<and> t_iplhigh_count s5 t = 1 \<and> thread_count s5 = thread_count s"
    using s5(3-5) live t(3)
    by (auto simp: forked_def but_proc_def undisturbed_def s4_def s3_def s1_def cpus_def thread_checkstack_def)
  then show ?thesis
    using cr ck s4 p4 s5(1,2) by (auto simp: Let_def)
qed

text \<open>\<^verbatim>\<open>thread_fork\<close> when memory suffices: the new thread ends up on the run queue of its parent's cpu, in the
  state of a thread inside a switch, waiting to start at the entry point.\<close>

lemma thread_fork_inv:
  assumes inv: "sched_inv W Q {} me {} s" and idle: "\<not> c_isidle s me"
    and w: "wc_threads tcw \<in> W" "wc_threads tcw \<in> range Wchan" "Local me \<notin> W"
    and t: "t \<notin> t_alloc s" "card (t_alloc s) + 1 < 2 ^ 32" "\<forall>c. curthread c s \<noteq> t" and name: "length name < MAX_NAME_LENGTH"
    and stk: "length stk = STACK_WORDS" and p: "(case proc of None \<Rightarrow> t_proc s (curthread me s) | Some p \<Rightarrow> Some p) = Some p"
    and Q': "Q' = fold (woken s) (Q (wc_threads tcw)) (Q(wc_threads tcw := [], Local me := []))"
  shows "\<exists>s'. thread_fork tcw me (Some t) (Some stk) name proc ep s = Some (Inr (), s') \<and>
    sched_inv W (Q'(Runqueue me := Q' (Runqueue me) @ [t])) {} me {} s' \<and>
    t_live s' = insert t (t_live s) \<and> t_context s' t = Some (Ctx_startup ep) \<and>
    t_proc s' = (t_proc s)(t := Some p) \<and> p_numthreads s' = (p_numthreads s)(p := p_numthreads s p + 1) \<and>
    thread_count s' = thread_count s + 1 \<and> c_curthread s' = c_curthread s \<and> c_isidle s' = c_isidle s \<and>
    thread_checkstack t s' = Some () \<and> cpus s' = cpus s \<and> (\<forall>u. u \<noteq> t \<longrightarrow> t_stack s' u = t_stack s u)"
proof -
  note d = sched_invD [OF inv]
  have live: "t \<notin> t_live s" using t(1) d(10) by blast
  obtain s1 s3 s5 where a: "thread_create (Some t) name s = Some (Some t, s1)"
    "thread_checkstack_init t (s1\<lparr>t_stack := (t_stack s1)(t := Some stk)\<rparr>) = Some s3"
    "let s4 = s3\<lparr>t_cpu := (t_cpu s3)(t := t_cpu s3 (curthread me s3))\<rparr>
     in (case proc of None \<Rightarrow> t_proc s4 (curthread me s4) | Some p \<Rightarrow> Some p) = Some p \<and>
        proc_addthread me p t s4 = Some s5"
    "sched_inv W Q {} me {} s5" "forked me t p s s5" "t_iplhigh_count s5 t = 1" "thread_count s5 = thread_count s"
    using fork_attach_inv [OF inv idle t name stk p] by (elim exE conjE)
  define s6 where "s6 = s5\<lparr>t_iplhigh_count := (t_iplhigh_count s5)(t := 2)\<rparr>"
  note f5 = a(5) [unfolded forked_def] and d5 = sched_invD [OF a(4)]
  have inv6: "sched_inv W Q {} me {} s6"
  proof (rule sched_inv_agree [OF a(4)])
    fix u c assume u: "c \<in> cpus s5" "u \<in> set (Q (Zombies c))"
    then show "t_proc s6 u = None" using d5(9) [OF lids_mem(2) [OF u(1)]] by (auto simp: s6_def)
  qed (use live f5 d5(4,10) in \<open>auto simp: s6_def\<close>)
  have q: "Q' = fold (woken s6) (Q (wc_threads tcw)) (Q(wc_threads tcw := [], Local me := []))"
  proof -
    have "t \<notin> set (Q (wc_threads tcw))" using d(11) [OF lids_mem(3) [OF w(1)]] live by blast
    then have "woken s6 u = woken s u" if "u \<in> set (Q (wc_threads tcw))" for u
      using that f5 by (auto simp: woken_def fun_eq_iff s6_def)
    then show ?thesis unfolding Q' by (intro fold_cong) simp_all
  qed
  obtain sa sc s10 where c: "spinlock_acquire me Thread_count_lock s6 = Some sa" "thread_count sa = thread_count s6"
    "wchan_wakeall me tcw Thread_count_lock (sa\<lparr>thread_count := thread_count s + 1\<rparr>) = Some sc"
    "spinlock_release me Thread_count_lock sc = Some s10" "sched_inv W Q' {} me {} s10"
    "undisturbed s6 (s10\<lparr>thread_count := thread_count s6\<rparr>)" "thread_count s10 = thread_count s + 1"
    using count_change_inv [OF inv6 w q, of "thread_count s + 1"] by blast
  have f10: "forked me t p s s10" "t_iplhigh_count s10 t = 2"
    using c(6) f5 live t(3) by (auto simp: undisturbed_def forked_def s6_def cpus_def thread_checkstack_def)
  note g = f10(1) [unfolded forked_def] and d10 = sched_invD [OF c(5)]
  let ?s11 = "s10\<lparr>t_context := (t_context s10)(t := Some (Ctx_startup ep))\<rparr>"
  have inv11: "sched_inv W Q' {} me {} ?s11"
  proof (rule sched_inv_agree [OF c(5)])
    fix u c assume u: "c \<in> cpus s10" "u \<in> set (Q' (Zombies c))"
    then show "t_proc ?s11 u = None" using d10(9) [OF lids_mem(2) [OF u(1)]] by auto
  qed (use live g d10(4,10) in auto)
  have inv12: "sched_inv W Q' {t} me {} (?s11\<lparr>t_live := insert t (t_live s10)\<rparr>)"
    using sched_inv_start [OF inv11, of t me] sched_invD(2) [OF inv11] live g f10(2) by simp
  obtain s' where s': "thread_make_runnable me t False (?s11\<lparr>t_live := insert t (t_live s10)\<rparr>) = Some s'"
    "sched_inv W (Q'(Runqueue me := Q' (Runqueue me) @ [t])) ({t} - {t}) me {} s'"
    "undisturbed (?s11\<lparr>t_live := insert t (t_live s10)\<rparr>) s'"
    using make_runnable_inv [OF inv12, of t me] g by auto
  have "thread_fork tcw me (Some t) (Some stk) name proc ep s = Some (Inr (), s')"
    unfolding thread_fork_def using a(1-3,6,7) c(1-4) s'(1)
    by (simp add: Let_def s6_def)
  then show ?thesis
    using s'(2,3) g c(7) by (simp add: undisturbed_def thread_checkstack_def cpus_def)
qed

end
