(* ===== verification/Runs.thy ===== *)
theory Runs
  imports Sched
begin

unbundle bit_operations_syntax

text \<open>
  Runs of the thread system: any sequence, on any cpus, of the operations of \<^verbatim>\<open>kern/thread/thread.c\<close> that a thread
  may ask for (yield, sleep, wake, fork, exit, migration) and of the turns of the idle loops. No assertion
  of the kernel fires in any of them, and the invariant of the scheduler and the thread counts of the
  processes hold throughout.
\<close>

text \<open>Between operations no spinlock is held, and the invariant does not depend on the cpu that looks.\<close>

lemma sched_inv_me:
  assumes "sched_inv W Q {} me {} s" "c \<in> cpus s"
  shows "sched_inv W Q {} c {} s"
  using assms by (auto simp: sched_inv_def locks_ok_def split: if_splits)

definition procs_ok :: "(lid \<Rightarrow> tid list) \<Rightarrow> kern \<Rightarrow> bool" where
  "procs_ok Q s \<longleftrightarrow> (\<forall>t \<in> t_live s. thread_checkstack t s = Some ()) \<and>
     (\<forall>t \<in> t_live s. (\<forall>c \<in> cpus s. t \<notin> set (Q (Zombies c))) \<longrightarrow> t_proc s t \<noteq> None) \<and>
     (\<forall>p. p_numthreads s p = of_nat (card {t \<in> t_live s. t_proc s t = Some p}))"

lemma procs_ok_same:
  assumes "procs_ok Q s" "t_live s' = t_live s" "t_stack s' = t_stack s" "t_proc s' = t_proc s"
    "p_numthreads s' = p_numthreads s" "cpus s' = cpus s" "\<And>c. Q' (Zombies c) = Q (Zombies c)"
  shows "procs_ok Q' s'"
  using assms by (simp add: procs_ok_def thread_checkstack_def)

text \<open>A switch to another thread destroys the zombies of the cpu.\<close>

lemma switched_exorcises:
  assumes sw: "switched W Q me spl s (Some (Resumed s'))"
    and z: "z \<in> set (Q (Zombies me))" "t_cpu s z = Some me" "\<forall>l \<in> lids W s. l \<noteq> Zombies me \<longrightarrow> z \<notin> set (Q l)"
    and me: "me \<in> cpus s"
  shows "z \<notin> t_live s'"
proof
  assume live: "z \<in> t_live s'"
  obtain t ts where q: "Q (Runqueue me) = t # ts" and
    inv: "sched_inv W (Q(Runqueue me := ts, Zombies me := [])) {} me {} s'" and e: "elsewhere me s s'" "curthread me s' = t"
    using sw by (auto simp: switched_def split: list.splits)
  have c: "cpus s' = cpus s" "lids W s' = lids W s" "t_cpu s' z = Some me"
    using e(1) z(2) by (simp_all add: elsewhere_def cpus_def lids_def)
  have "z \<notin> set (Q (Runqueue me))"
    using z(3) lids_mem(1) [OF me] by blast
  then have "z \<noteq> t" "\<forall>l \<in> lids W s'. z \<notin> set ((Q(Runqueue me := ts, Zombies me := [])) l)"
    using z(3) q c(2) by auto
  moreover from this(2) have "t_state s' z = S_RUN"
    using sched_invD(8) [OF inv live] by (auto simp: thr_ok_def)
  then obtain c' where "c' \<in> cpus s'" "curthread c' s' = z"
    using sched_invD(8) [OF inv live] by (auto simp: thr_ok_def)
  moreover from this have "c' = me"
    using sched_invD(7) [OF inv] c(3) by (fastforce simp: cpu_ok_def Let_def)
  ultimately show False using e(2) by simp
qed

lemma procs_ok_elsewhere:
  assumes "procs_ok Q s" "elsewhere me s s'" 
    "\<And>t. t \<in> t_live s' \<Longrightarrow> \<forall>c \<in> cpus s. t \<notin> set (Q' (Zombies c)) \<Longrightarrow> \<forall>c \<in> cpus s. t \<notin> set (Q (Zombies c))"
  shows "procs_ok Q' s'"
proof -
  have c: "cpus s' = cpus s" using assms(2) by (simp add: elsewhere_def cpus_def)
  have "{t \<in> t_live s'. t_proc s' t = Some p} = {t \<in> t_live s. t_proc s t = Some p}" for p
    using assms(2) unfolding elsewhere_def by (intro set_eqI) (metis (mono_tags, lifting) DiffI mem_Collect_eq option.distinct(1))
  then show ?thesis
    using assms by (simp add: procs_ok_def c) (simp add: elsewhere_def thread_checkstack_def)
qed

text \<open>What \<^verbatim>\<open>thread_switch\<close> leaves behind, whether it switched or went idle.\<close>

fun switch_state :: "switch_result \<Rightarrow> kern" where
  "switch_state (Returned s) = s"
| "switch_state (Idling spl s) = s"
| "switch_state (Resumed s) = s"

lemma switched_procs:
  assumes sw: "switched W Q me spl s r" and pr: "procs_ok Q s" and me: "me \<in> cpus s"
    and z: "\<forall>z \<in> set (Q (Zombies me)). t_cpu s z = Some me \<and> (\<forall>l \<in> lids W s. l \<noteq> Zombies me \<longrightarrow> z \<notin> set (Q l))"
  shows "\<exists>x Q'. r = Some x \<and> sched_inv W Q' {} me {} (switch_state x) \<and> procs_ok Q' (switch_state x) \<and>
    elsewhere me s (switch_state x) \<and> (\<forall>l s'. x = Idling l s' \<longrightarrow> l = spl) \<and> (\<forall>w. Q' (Wchan w) = Q (Wchan w))"
proof (cases "Q (Runqueue me)")
  case Nil
  then obtain s' where "r = Some (Idling spl s')" "sched_inv W Q {} me {} s'" "elsewhere me s s'"
    using sw by (auto simp: switched_def)
  then show ?thesis
    using procs_ok_elsewhere [OF pr, of me s' Q] by auto
next
  case (Cons t ts)
  let ?Q = "Q(Runqueue me := ts, Zombies me := [])"
  obtain s' where s': "r = Some (Resumed s')" "sched_inv W ?Q {} me {} s'" "elsewhere me s s'"
    using sw Cons by (auto simp: switched_def)
  have "set (Q (Zombies me)) \<inter> t_live s' = {}"
    using switched_exorcises [OF sw [unfolded s'(1)]] z me by auto
  then have "procs_ok ?Q s'"
    by (intro procs_ok_elsewhere [OF pr s'(3)]) (auto split: if_splits)
  then show ?thesis using s' by auto
qed

lemma zombies_apart:
  assumes "sched_inv W Q {} me H s" "x = curthread me s" "\<not> c_isidle s me" "l \<in> lids W s"
  shows "\<forall>z \<in> set ((Q(l := Q l @ [x])) (Zombies me)). t_cpu s z = Some me \<and>
    (\<forall>l' \<in> lids W s. l' \<noteq> Zombies me \<longrightarrow> z \<notin> set ((Q(l := Q l @ [x])) l'))"
proof -
  note d = sched_invD [OF assms(1)]
  note z = lids_mem(2) [OF d(2), of W]
  have x: "\<forall>m \<in> lids W s. x \<notin> set (Q m)" "t_cpu s x = Some me"
    using sched_inv_running(1) [OF assms(1) d(2) assms(3)] d(7) [OF d(2)] assms(2)
    by (auto simp: on_no_list_def cpu_ok_def Let_def)
  have "t_cpu s y = Some me \<and> (\<forall>l' \<in> lids W s. l' \<noteq> Zombies me \<longrightarrow> y \<notin> set (Q l'))" if "y \<in> set (Q (Zombies me))" for y
    using that d(9) [OF z] lists_inv_disj [OF d(4) z] by auto
  then show ?thesis using x z by auto
qed

subsection \<open>Runs of the thread system\<close>

text \<open>The operations a thread may ask for, and the turn of the idle loop of a cpu without a thread. Every
  one starts and ends with no spinlock held. The idle loop's local variable \<^verbatim>\<open>spl\<close> is kept beside the
  state.\<close>

datatype thr_op = Yield | Sleep nat | Wakeone nat | Wakeall nat | Exit
  | Fork tid "u32 list" string "nat option" nat | Migrate | Idle_wake

type_synonym sysconf = "kern \<times> (nat \<Rightarrow> int)"

definition chan :: "nat \<Rightarrow> wchan" where
  "chan w = \<lparr>wc_name = ''chan'', wc_threads = Wchan w\<rparr>"

fun settle :: "nat \<Rightarrow> (nat \<Rightarrow> int) \<Rightarrow> switch_result \<Rightarrow> sysconf" where
  "settle me idle (Returned s) = (s, idle)"
| "settle me idle (Idling spl s) = (s, idle(me := spl))"
| "settle me idle (Resumed s) = (s, idle)"

fun thr_exec :: "nat \<Rightarrow> thr_op \<Rightarrow> sysconf \<Rightarrow> sysconf kp" where
  "thr_exec me Yield (s, idle) = map_option (settle me idle) (thread_yield me s)"
| "thr_exec me (Sleep w) (s, idle) = do {
     s1 \<leftarrow> spinlock_acquire me (Wchan_lock w) s;
     map_option (settle me idle) (wchan_sleep me (chan w) (Wchan_lock w) s1)
   }"
| "thr_exec me (Wakeone w) (s, idle) = do {
     s1 \<leftarrow> spinlock_acquire me (Wchan_lock w) s;
     s2 \<leftarrow> wchan_wakeone me (chan w) (Wchan_lock w) s1;
     s3 \<leftarrow> spinlock_release me (Wchan_lock w) s2;
     Some (s3, idle)
   }"
| "thr_exec me (Wakeall w) (s, idle) = do {
     s1 \<leftarrow> spinlock_acquire me (Wchan_lock w) s;
     s2 \<leftarrow> wchan_wakeall me (chan w) (Wchan_lock w) s1;
     s3 \<leftarrow> spinlock_release me (Wchan_lock w) s2;
     Some (s3, idle)
   }"
| "thr_exec me Exit (s, idle) = map_option (settle me idle) (thread_exit (chan 0) me s)"
| "thr_exec me (Fork t stk name proc ep) (s, idle) = do {
     (r, s1) \<leftarrow> thread_fork (chan 0) me (Some t) (Some stk) name proc ep s;
     Some (s1, idle)
   }"
| "thr_exec me Migrate (s, idle) = do {
     s1 \<leftarrow> thread_consider_migration me s;
     Some (s1, idle)
   }"
| "thr_exec me Idle_wake (s, idle) = map_option (settle me idle) (thread_switch_wake me (idle me) s)"

text \<open>When an operation may be asked for: by the thread of a cpu that is not idle (a sleep not from an
  interrupt), the idle turn on an idle cpu. A fork gets a fresh structure, a stack and a name that fits.\<close>

fun thr_enabled :: "nat set \<Rightarrow> nat \<Rightarrow> thr_op \<Rightarrow> sysconf \<Rightarrow> bool" where
  "thr_enabled chans me Idle_wake (s, idle) \<longleftrightarrow> me \<in> cpus s \<and> c_isidle s me"
| "thr_enabled chans me op (s, idle) \<longleftrightarrow> me \<in> cpus s \<and> \<not> c_isidle s me \<and> (case op of
       Sleep w \<Rightarrow> w \<in> chans \<and> \<not> t_in_interrupt s (curthread me s)
     | Wakeone w \<Rightarrow> w \<in> chans
     | Wakeall w \<Rightarrow> w \<in> chans
     | Fork t stk name proc ep \<Rightarrow> t \<notin> t_alloc s \<and> card (t_alloc s) + 1 < 2 ^ 32 \<and> (\<forall>c. curthread c s \<noteq> t) \<and>
         length stk = STACK_WORDS \<and> length name < MAX_NAME_LENGTH
     | _ \<Rightarrow> True)"

definition sys_inv :: "nat set \<Rightarrow> (lid \<Rightarrow> tid list) \<Rightarrow> sysconf \<Rightarrow> bool" where
  "sys_inv chans Q c \<longleftrightarrow> 0 \<in> chans \<and> (\<exists>me. sched_inv (Wchan ` chans) Q {} me {} (fst c)) \<and> procs_ok Q (fst c) \<and>
     (\<forall>me. snd c me \<in> {IPL_NONE, IPL_HIGH})"

inductive sys_reach :: "nat set \<Rightarrow> sysconf \<Rightarrow> sysconf \<Rightarrow> bool" for chans c0 where
  start: "sys_reach chans c0 c0"
| run: "sys_reach chans c0 c \<Longrightarrow> thr_enabled chans me op c \<Longrightarrow> thr_exec me op c = Some c' \<Longrightarrow> sys_reach chans c0 c'"

lemma chan_simps [simp]: "wc_threads (chan w) = Wchan w" "wc_name (chan w) = ''chan''"
  by (simp_all add: chan_def)

text \<open>An operation touches the lists of few channels, and no thread but one that exits is lost.\<close>

fun touched :: "thr_op \<Rightarrow> nat set" where
  "touched (Sleep w) = {w}"
| "touched (Wakeone w) = {w}"
| "touched (Wakeall w) = {w}"
| "touched Exit = {0}"
| "touched (Fork t stk name proc ep) = {0}"
| "touched _ = {}"

fun leaves :: "nat \<Rightarrow> thr_op \<Rightarrow> kern \<Rightarrow> tid set" where
  "leaves me Exit s = {curthread me s}"
| "leaves me (Sleep w) s = {curthread me s}"
| "leaves me _ s = {}"

definition stays :: "tid set \<Rightarrow> kern \<Rightarrow> kern \<Rightarrow> bool" where
  "stays ex s s' \<longleftrightarrow> (\<forall>t \<in> t_live s. t_proc s t \<noteq> None \<longrightarrow> t \<notin> ex \<longrightarrow> t \<in> t_live s' \<and> t_proc s' t \<noteq> None)"

definition moved :: "nat set \<Rightarrow> tid set \<Rightarrow> (lid \<Rightarrow> tid list) \<Rightarrow> (lid \<Rightarrow> tid list) \<Rightarrow> bool" where
  "moved ws ex Q Q' \<longleftrightarrow> (\<forall>w. w \<notin> ws \<longrightarrow> Q' (Wchan w) = Q (Wchan w)) \<and>
     (\<forall>w. set (Q' (Wchan w)) \<subseteq> set (Q (Wchan w)) \<union> ex)"

lemma moved_same: "(\<And>w. Q' (Wchan w) = Q (Wchan w)) \<Longrightarrow> moved ws ex Q Q'"
  by (simp add: moved_def)

definition kept :: "nat set \<Rightarrow> nat set \<Rightarrow> tid set \<Rightarrow> (lid \<Rightarrow> tid list) \<Rightarrow> kern \<Rightarrow> sysconf kp \<Rightarrow> bool" where
  "kept chans ws ex Q s r \<longleftrightarrow> (\<exists>c' Q'. r = Some c' \<and> sys_inv chans Q' c' \<and>
     moved ws ex Q Q' \<and> stays ex s (fst c'))"

lemma keptI:
  "0 \<in> chans \<Longrightarrow> sched_inv (Wchan ` chans) Q' {} me {} s' \<Longrightarrow> procs_ok Q' s' \<Longrightarrow> \<forall>c. idle c \<in> {IPL_NONE, IPL_HIGH} \<Longrightarrow>
   moved ws ex Q Q' \<Longrightarrow> stays ex s s' \<Longrightarrow> kept chans ws ex Q s (Some (s', idle))"
  by (auto simp: kept_def sys_inv_def)

lemma stays_same: "t_live s' = t_live s \<Longrightarrow> t_proc s' = t_proc s \<Longrightarrow> stays ex s s'"
  by (simp add: stays_def)

lemma stays_elsewhere: "elsewhere me s s' \<Longrightarrow> stays ex s s'"
  unfolding stays_def elsewhere_def by (metis DiffI)

lemma stays_trans: "stays ex s s' \<Longrightarrow> stays ex s' s'' \<Longrightarrow> stays ex s s''"
  by (simp add: stays_def)

lemma kept_switched:
  assumes sw: "switched (Wchan ` chans) Q me spl s r" and pr: "procs_ok Q s" and me: "me \<in> cpus s"
    and z: "\<forall>z \<in> set (Q (Zombies me)). t_cpu s z = Some me \<and>
      (\<forall>l \<in> lids (Wchan ` chans) s. l \<noteq> Zombies me \<longrightarrow> z \<notin> set (Q l))"
    and c: "0 \<in> chans" "\<forall>c. idle c \<in> {IPL_NONE, IPL_HIGH}" "spl \<in> {IPL_NONE, IPL_HIGH}"
    and f: "moved ws ex Q0 Q" "stays ex s0 s"
  shows "kept chans ws ex Q0 s0 (map_option (settle me idle) r)"
proof -
  obtain x Q' where x: "r = Some x" "sched_inv (Wchan ` chans) Q' {} me {} (switch_state x)"
    "procs_ok Q' (switch_state x)" "elsewhere me s (switch_state x)" "\<forall>l s'. x = Idling l s' \<longrightarrow> l = spl"
    "\<forall>w. Q' (Wchan w) = Q (Wchan w)"
    using switched_procs [OF sw pr me z] by blast
  have "stays ex s0 (switch_state x)" using stays_trans [OF f(2) stays_elsewhere [OF x(4)]] .
  then show ?thesis
    using c x(1,5,6) f(1) keptI [OF c(1) x(2,3), of _ ws ex Q0] by (cases x) (auto simp: moved_def)
qed

lemma procs_ok_parked:
  assumes "procs_ok Q s" "l \<notin> range Zombies"
  shows "procs_ok (Q(l := xs)) s"
proof -
  have "(Q(l := xs)) (Zombies c) = Q (Zombies c)" for c using assms(2) by auto
  then show ?thesis by (intro procs_ok_same [OF assms(1)]) simp_all
qed

lemma kept_parked:
  assumes sw: "switched (Wchan ` chans) (Q(l := Q l @ [curthread me s])) me spl s r"
    and inv: "sched_inv (Wchan ` chans) Q {} me H s" and i: "\<not> c_isidle s me"
    and l: "l \<in> lids (Wchan ` chans) s" "l \<notin> range Zombies" and pr: "procs_ok Q s"
    and c: "0 \<in> chans" "\<forall>c. idle c \<in> {IPL_NONE, IPL_HIGH}" "spl \<in> {IPL_NONE, IPL_HIGH}"
    and f: "l \<notin> range Wchan" "stays ex s0 s"
  shows "kept chans ws ex Q s0 (map_option (settle me idle) r)"
  by (rule kept_switched [OF sw procs_ok_parked [OF pr l(2)] sched_invD(2) [OF inv] zombies_apart [OF inv refl i l(1)] c])
    (use f in \<open>auto simp: moved_def\<close>)

lemma kept_yield:
  assumes sys: "sys_inv chans Q (s, idle)" and en: "thr_enabled chans me Yield (s, idle)"
  shows "kept chans (touched Yield) {} Q s (thr_exec me Yield (s, idle))"
proof -
  have inv: "sched_inv (Wchan ` chans) Q {} me {} s" and i: "\<not> c_isidle s me" and pr: "procs_ok Q s"
    and c: "0 \<in> chans" "\<forall>c. idle c \<in> {IPL_NONE, IPL_HIGH}"
    using sys en sched_inv_me by (auto simp: sys_inv_def)
  have stk: "thread_checkstack (curthread me s) s = Some ()"
    using pr sched_invD(7) [OF inv sched_invD(2) [OF inv]] by (simp add: procs_ok_def cpu_ok_def Let_def)
  show ?thesis
  proof (cases "Q (Runqueue me) = []")
    case True
    then obtain s' where s': "thread_switch me S_READY None None s = Some (Returned s')"
      "sched_inv (Wchan ` chans) Q {} me {} s'" "undisturbed s s'"
      using switch_ready_alone [OF inv i stk] by blast
    have "procs_ok Q s'"
      using s'(3) by (intro procs_ok_same [OF pr]) (simp_all add: undisturbed_def cpus_def)
    then show ?thesis
      using s'(1,3) keptI [OF c(1) s'(2) _ c(2)] by (simp add: thread_yield_def stays_same moved_same undisturbed_def)
  next
    case False
    show ?thesis
      using kept_parked [OF switch_ready_inv [OF inv i stk False] inv i lids_mem(1) [OF sched_invD(2) [OF inv]] _ pr c
        cpu_okD(3) [OF inv], of "{}" s "{}"]
      by (auto simp: thread_yield_def stays_same)
  qed
qed

lemma wchan_locked_inv:
  assumes inv: "sched_inv W Q {} me {} s"
  shows "spinlock_acquire me (Wchan_lock w) s = Some (acquired me (Wchan_lock w) s)"
    "sched_inv W Q {} me {Wchan_lock w} (acquired me (Wchan_lock w) s)"
  using acquire_inv [OF inv, of "Wchan_lock w"] by simp_all

lemma procs_ok_undisturbed:
  assumes "procs_ok Q s" "undisturbed s s'" "\<And>c. Q' (Zombies c) = Q (Zombies c)"
  shows "procs_ok Q' s'"
  using assms by (intro procs_ok_same [OF assms(1)]) (simp_all add: undisturbed_def cpus_def)

text \<open>Sleeping on a channel, under its lock: the thread goes to the end of the list.\<close>

lemma sleep_kept:
  assumes sys: "sys_inv chans Q (s, idle)" and me: "me \<in> cpus s" "\<not> c_isidle s me" "\<not> t_in_interrupt s (curthread me s)"
    and w: "w \<in> chans" "wc_threads wc = Wchan w"
  shows "kept chans {} {} (Q(Wchan w := Q (Wchan w) @ [curthread me s])) s
    (map_option (settle me idle) (wchan_sleep me wc (Wchan_lock w) (acquired me (Wchan_lock w) s)))"
proof -
  have inv: "sched_inv (Wchan ` chans) Q {} me {} s" and pr: "procs_ok Q s"
    and c: "0 \<in> chans" "\<forall>c. idle c \<in> {IPL_NONE, IPL_HIGH}"
    using sys me(1) sched_inv_me by (auto simp: sys_inv_def)
  let ?s = "acquired me (Wchan_lock w) s"
  note a = wchan_locked_inv [OF inv, of w]
  have pr': "procs_ok Q ?s" by (rule procs_ok_undisturbed [OF pr]) simp_all
  have f: "\<not> c_isidle ?s me" "\<not> t_in_interrupt ?s (curthread me ?s)" "spinlock_do_i_hold me (Wchan_lock w) ?s"
    "c_spinlocks ?s me = 1" "curthread me ?s = curthread me s"
    using me(2,3) sched_invD(1,5) [OF inv] by (auto simp: acquired_def spinlock_do_i_hold_def locks_ok_def)
  have stk: "thread_checkstack (curthread me ?s) ?s = Some ()"
    using pr' sched_invD(7) [OF a(2) sched_invD(2) [OF a(2)]] by (simp add: procs_ok_def cpu_ok_def Let_def)
  have l: "Wchan w \<in> lids (Wchan ` chans) ?s" using w by (simp add: lids_def)
  let ?Q = "Q(Wchan w := Q (Wchan w) @ [curthread me ?s])"
  have sw: "switched (Wchan ` chans) ?Q me (t_curspl ?s (curthread me ?s)) ?s
    (thread_switch me S_SLEEP (Some wc) (Some (Wchan_lock w)) ?s)"
    using switch_sleep_inv [OF a(2) f(1), of wc] w stk by simp
  have "stays {} s ?s" by (rule stays_same) (simp_all add: acquired_def)
  then have "kept chans {} {} ?Q s (map_option (settle me idle) (thread_switch me S_SLEEP (Some wc) (Some (Wchan_lock w)) ?s))"
    by (intro kept_switched [OF sw procs_ok_parked [OF pr'] sched_invD(2) [OF a(2)] zombies_apart [OF a(2) refl f(1) l] c
      cpu_okD(3) [OF a(2)]]) (auto simp: moved_same)
  then show ?thesis
    using f(2-5) by (simp add: wchan_sleep_def)
qed

lemma kept_weaken:
  assumes "kept chans ws ex Q s r" "moved ws' ex' Q' Q" "ws \<subseteq> ws'" "ex \<subseteq> ex'"
  shows "kept chans ws' ex' Q' s r"
proof -
  have m: "moved ws' ex' Q' Q2" if "moved ws ex Q Q2" for Q2
  proof -
    have "Q2 (Wchan w) = Q' (Wchan w)" if "w \<notin> ws'" for w
      using that \<open>moved ws ex Q Q2\<close> assms(2,3) by (auto simp: moved_def)
    moreover have "set (Q2 (Wchan w)) \<subseteq> set (Q' (Wchan w)) \<union> ex'" for w
      using that assms(2,4) unfolding moved_def by (meson Un_least Un_upper2 order_trans)
    ultimately show ?thesis by (simp add: moved_def)
  qed
  have "stays ex' s s2" if "stays ex s s2" for s2 using that assms(4) by (auto simp: stays_def)
  then show ?thesis using assms(1) m unfolding kept_def by blast
qed

lemma kept_sleep:
  assumes sys: "sys_inv chans Q (s, idle)" and en: "thr_enabled chans me (Sleep w) (s, idle)"
  shows "kept chans (touched (Sleep w)) {curthread me s} Q s (thr_exec me (Sleep w) (s, idle))"
proof -
  have "sched_inv (Wchan ` chans) Q {} me {} s" using sys en sched_inv_me by (auto simp: sys_inv_def)
  note a = wchan_locked_inv [OF this, of w]
  have "kept chans {} {} (Q(Wchan w := Q (Wchan w) @ [curthread me s])) s (thr_exec me (Sleep w) (s, idle))"
    using sleep_kept [OF sys, of me w "chan w"] en a(1) by simp
  then show ?thesis by (rule kept_weaken) (auto simp: moved_def)
qed

lemma woken_zombies: "woken s t Q (Zombies c) = Q (Zombies c)"
  by (simp add: woken_def split: option.splits)

lemma fold_woken_zombies: "fold (woken s) ts Q (Zombies c) = Q (Zombies c)"
  and fold_woken_wchans: "fold (woken s) ts Q (Wchan w) = Q (Wchan w)"
  by (induction ts arbitrary: Q) (simp_all add: woken_zombies)

text \<open>Waking one thread of a channel, under its lock: the head of the list leaves it.\<close>

lemma wakeone_kept:
  assumes sys: "sys_inv chans Q (s, idle)" and me: "me \<in> cpus s" and w: "w \<in> chans" "wc_threads wc = Wchan w"
  shows "kept chans {} {} (Q(Wchan w := List.tl (Q (Wchan w)))) s (do {
      s1 \<leftarrow> spinlock_acquire me (Wchan_lock w) s;
      s2 \<leftarrow> wchan_wakeone me wc (Wchan_lock w) s1;
      s3 \<leftarrow> spinlock_release me (Wchan_lock w) s2;
      Some (s3, idle)
    })"
proof -
  have inv: "sched_inv (Wchan ` chans) Q {} me {} s" and pr: "procs_ok Q s"
    and c: "0 \<in> chans" "\<forall>c. idle c \<in> {IPL_NONE, IPL_HIGH}"
    using sys me(1) sched_inv_me by (auto simp: sys_inv_def)
  note a = wchan_locked_inv [OF inv, of w]
  let ?k = "Wchan_lock w"
  have H: "no_cpu_locks {?k}" by (simp add: no_cpu_locks_def)
  obtain s2 Q' where s2: "wchan_wakeone me wc ?k (acquired me ?k s) = Some s2" "undisturbed (acquired me ?k s) s2"
    "sched_inv (Wchan ` chans) Q' {} me {?k} s2" "\<And>c. Q' (Zombies c) = Q (Zombies c)"
    "\<forall>v. Q' (Wchan v) = (Q(Wchan w := List.tl (Q (Wchan w)))) (Wchan v)"
    using wakeone_inv [OF a(2), of wc] H w by (auto simp: woken_zombies split: list.splits)
  have "undisturbed s (released me ?k s2)"
    using undisturbed_trans [OF undisturbed_trans [OF undisturbed_locks(1) s2(2)] undisturbed_locks(2)] .
  then have "procs_ok Q' (released me ?k s2)" "stays {} s (released me ?k s2)"
    using procs_ok_undisturbed [OF pr _ s2(4)] by (simp_all add: stays_same undisturbed_def)
  then show ?thesis
    using a(1) s2(1,5) release_inv [OF s2(3)] keptI [OF c(1) _ _ c(2), of Q' me "released me ?k s2"] by (simp add: moved_same)
qed

lemma kept_wakeone:
  assumes "sys_inv chans Q (s, idle)" "thr_enabled chans me (Wakeone w) (s, idle)"
  shows "kept chans (touched (Wakeone w)) {} Q s (thr_exec me (Wakeone w) (s, idle))"
proof -
  have "set (List.tl xs) \<subseteq> set xs" for xs :: "tid list" by (cases xs) auto
  then have "moved {w} {} Q (Q(Wchan w := List.tl (Q (Wchan w))))" by (simp add: moved_def)
  then show ?thesis
    using kept_weaken [OF wakeone_kept [OF assms(1), of me w "chan w"], of "{w}" "{}" Q] assms(2) by simp
qed

lemma kept_wakeall:
  assumes sys: "sys_inv chans Q (s, idle)" and en: "thr_enabled chans me (Wakeall w) (s, idle)"
  shows "kept chans (touched (Wakeall w)) {} Q s (thr_exec me (Wakeall w) (s, idle))"
proof -
  have inv: "sched_inv (Wchan ` chans) Q {} me {} s" and pr: "procs_ok Q s"
    and w: "w \<in> chans" and c: "0 \<in> chans" "\<forall>c. idle c \<in> {IPL_NONE, IPL_HIGH}"
    using sys en sched_inv_me by (auto simp: sys_inv_def)
  note a = wchan_locked_inv [OF inv, of w]
  let ?k = "Wchan_lock w"
  have H: "no_cpu_locks {?k}" by (simp add: no_cpu_locks_def)
  obtain s2 Q' where s2: "wchan_wakeall me (chan w) ?k (acquired me ?k s) = Some s2" "undisturbed (acquired me ?k s) s2"
    "sched_inv (Wchan ` chans) Q' {} me {?k} s2" "\<And>c. Q' (Zombies c) = Q (Zombies c)"
    "moved {w} {} Q Q'"
    using wakeall_inv [OF a(2) _ _ _ H, of "chan w" ?k] w by (auto simp: fold_woken_zombies fold_woken_wchans image_iff moved_def)
  have "undisturbed s (released me ?k s2)"
    using undisturbed_trans [OF undisturbed_trans [OF undisturbed_locks(1) s2(2)] undisturbed_locks(2)] .
  then have "procs_ok Q' (released me ?k s2)" "stays {} s (released me ?k s2)"
    using procs_ok_undisturbed [OF pr _ s2(4)] by (simp_all add: stays_same undisturbed_def)
  then show ?thesis
    using a(1) s2(1,5) release_inv [OF s2(3)] keptI [OF c(1) _ _ c(2), of Q' me "released me ?k s2"] by simp
qed

lemma kept_migrate:
  assumes sys: "sys_inv chans Q (s, idle)" and en: "thr_enabled chans me Migrate (s, idle)"
  shows "kept chans (touched Migrate) {} Q s (thr_exec me Migrate (s, idle))"
proof -
  have inv: "sched_inv (Wchan ` chans) Q {} me {} s" and pr: "procs_ok Q s"
    and c: "0 \<in> chans" "\<forall>c. idle c \<in> {IPL_NONE, IPL_HIGH}"
    using sys en sched_inv_me by (auto simp: sys_inv_def)
  obtain s' Q' where s': "thread_consider_migration me s = Some s'" "sched_inv (Wchan ` chans) Q' {} me {} s'"
    "but_cpu s s'" "\<And>c. Q' (Zombies c) = Q (Zombies c)" "\<forall>w. Q' (Wchan w) = Q (Wchan w)"
    using consider_migration_inv [OF inv] by auto
  have "procs_ok Q' s'"
    using s'(3,4) by (intro procs_ok_same [OF pr]) (simp_all add: but_cpu_def undisturbed_def cpus_def)
  then show ?thesis
    using s'(1,3,5) keptI [OF c(1) s'(2) _ c(2)] by (simp add: stays_same moved_same but_cpu_def undisturbed_def)
qed

lemma kept_idle:
  assumes sys: "sys_inv chans Q (s, idle)" and en: "thr_enabled chans me Idle_wake (s, idle)"
  shows "kept chans (touched Idle_wake) {} Q s (thr_exec me Idle_wake (s, idle))"
proof -
  have inv: "sched_inv (Wchan ` chans) Q {} me {} s" and i: "c_isidle s me" and pr: "procs_ok Q s"
    and c: "0 \<in> chans" "\<forall>c. idle c \<in> {IPL_NONE, IPL_HIGH}"
    using sys en sched_inv_me by (auto simp: sys_inv_def)
  let ?s = "acquired me (Runqueue_lock me) s"
  have a: "spinlock_acquire me (Runqueue_lock me) s = Some ?s" "sched_inv (Wchan ` chans) Q {} me {Runqueue_lock me} ?s"
    using acquire_inv [OF inv, of "Runqueue_lock me"] by simp_all
  note d = sched_invD [OF a(2)]
  note z = lids_mem(2) [OF d(2), of "Wchan ` chans"]
  have apart: "\<forall>z \<in> set (Q (Zombies me)). t_cpu ?s z = Some me \<and>
      (\<forall>l \<in> lids (Wchan ` chans) ?s. l \<noteq> Zombies me \<longrightarrow> z \<notin> set (Q l))"
    using d(9) [OF z] lists_inv_disj [OF d(4) z] by auto
  have "switched (Wchan ` chans) Q me (idle me) ?s (thread_switch_next me (idle me) ?s)"
    using next_inv [OF a(2)] i c(2) by (simp add: acquired_def)
  note sw = kept_switched [OF this procs_ok_undisturbed [OF pr] d(2) apart c]
  have "stays {} s ?s" by (rule stays_same) (simp_all add: acquired_def)
  then show ?thesis
    using sw [of "{}" "{}" Q s] c(2) a(1) by (simp add: thread_switch_wake_def moved_same)
qed

lemma card_proc_remove:
  assumes "finite L" "t \<in> L" "f t = Some p"
  shows "{u \<in> L. (f(t := None)) u = Some q} = {u \<in> L. f u = Some q} - (if q = p then {t} else {})"
    "q = p \<Longrightarrow> card {u \<in> L. f u = Some q} = Suc (card ({u \<in> L. f u = Some q} - {t}))"
proof -
  show "{u \<in> L. (f(t := None)) u = Some q} = {u \<in> L. f u = Some q} - (if q = p then {t} else {})"
    using assms by auto
  assume "q = p"
  then show "card {u \<in> L. f u = Some q} = Suc (card ({u \<in> L. f u = Some q} - {t}))"
    using assms by (intro card.remove) auto
qed

lemma live_finite:
  assumes "sched_inv W Q F me H s"
  shows "finite (t_live s)" "card {u \<in> t_live s. P u} < 2 ^ 32"
proof -
  have "finite (t_alloc s)" "card (t_alloc s) < 2 ^ 32" using sched_invD(4) [OF assms] by (simp_all add: lists_inv_def)
  moreover have "{u \<in> t_live s. P u} \<subseteq> t_alloc s" using sched_invD(10) [OF assms] by blast
  ultimately show "finite (t_live s)" "card {u \<in> t_live s. P u} < 2 ^ 32"
    using sched_invD(10) [OF assms] card_mono [of "t_alloc s" "{u \<in> t_live s. P u}"] by (auto intro: finite_subset)
qed

lemma procs_ok_exit:
  assumes inv: "sched_inv W Q {} me {} s" and pr: "procs_ok Q s" and p: "t_proc s t = Some p" "t \<in> t_live s" and me: "me \<in> cpus s"
    and s1: "t_proc s1 = (t_proc s)(t := None)" "p_numthreads s1 = (p_numthreads s)(p := p_numthreads s p - 1)"
      "t_live s1 = t_live s" "t_stack s1 = t_stack s" "cpus s1 = cpus s"
    and Q1: "\<And>c. Q1 (Zombies c) = (if c = me then Q (Zombies c) @ [t] else Q (Zombies c))"
  shows "procs_ok Q1 s1"
proof -
  have "p_numthreads s1 q = of_nat (card {u \<in> t_live s1. t_proc s1 u = Some q})" for q
  proof (cases "q = p")
    case True
    then show ?thesis
      using pr card_proc_remove [of "t_live s" t "t_proc s" p q] live_finite(1) [OF inv] p by (simp add: procs_ok_def s1)
  next
    case False
    then show ?thesis
      using pr card_proc_remove(1) [of "t_live s" t "t_proc s" p q] live_finite(1) [OF inv] p by (simp add: procs_ok_def s1)
  qed
  moreover have "t_proc s1 u \<noteq> None" if "u \<in> t_live s" "\<forall>c \<in> cpus s. u \<notin> set (Q1 (Zombies c))" for u
    using that pr me by (auto simp: procs_ok_def s1 Q1 split: if_splits)
  moreover have "\<forall>u \<in> t_live s. thread_checkstack u s1 = Some ()"
    using pr by (simp add: procs_ok_def thread_checkstack_def s1(4))
  ultimately show ?thesis
    unfolding procs_ok_def by (simp add: s1(3,5))
qed

lemma chan0_mem:
  assumes "0 \<in> chans"
  shows "wc_threads (chan 0) \<in> Wchan ` chans" "wc_threads (chan 0) \<in> range Wchan" "Local me \<notin> Wchan ` chans"
  using assms by auto

lemma kept_exit:
  assumes sys: "sys_inv chans Q (s, idle)" and en: "thr_enabled chans me Exit (s, idle)"
  shows "kept chans (touched Exit) {curthread me s} Q s (thr_exec me Exit (s, idle))"
proof -
  have inv: "sched_inv (Wchan ` chans) Q {} me {} s" and i: "\<not> c_isidle s me" and pr: "procs_ok Q s" and me: "me \<in> cpus s"
    and c: "0 \<in> chans" "\<forall>c. idle c \<in> {IPL_NONE, IPL_HIGH}"
    using sys en sched_inv_me by (auto simp: sys_inv_def)
  let ?t = "curthread me s"
  have live: "?t \<in> t_live s" using sched_invD(7) [OF inv me] by (simp add: cpu_ok_def Let_def)
  then obtain p where p: "t_proc s ?t = Some p" and stk: "thread_checkstack ?t s = Some ()"
    using pr sched_inv_running(1) [OF inv me i] lids_mem(2) by (auto simp: procs_ok_def on_no_list_def)
  have "0 < card {u \<in> t_live s. t_proc s u = Some p}" using live p live_finite(1) [OF inv] by (auto simp: card_gt_0_iff)
  then have pos: "0 < p_numthreads s p"
    using pr live_finite(2) [OF inv, of "\<lambda>u. t_proc s u = Some p"]
    by (simp add: procs_ok_def word_gt_0 of_nat_eq_0_iff word_of_nat_eq_0_iff nat_dvd_not_less)
  obtain s1 Q1 where s1: "switched (Wchan ` chans) (Q1(Zombies me := Q (Zombies me) @ [?t])) me IPL_HIGH s1 (thread_exit (chan 0) me s)"
    "Q1 = (if thread_count s = 0 then Q else fold (woken s) (Q (Wchan 0)) (Q(Wchan 0 := [], Local me := [])))"
    "p_numthreads s1 = (p_numthreads s)(p := p_numthreads s p - 1)" "t_proc s1 = (t_proc s)(?t := None)"
    "c_curthread s1 = c_curthread s" "c_isidle s1 = c_isidle s" "t_live s1 = t_live s"
    "sched_inv (Wchan ` chans) Q1 {} me {} s1" "t_stack s1 = t_stack s" "allcpus_num s1 = allcpus_num s"
    using thread_exit_inv [OF inv i chan0_mem [OF c(1)] refl stk p pos, unfolded chan_simps] by blast
  have z: "Q1 (Zombies c) = Q (Zombies c)" for c by (simp add: s1(2) fold_woken_zombies)
  have pr1: "procs_ok (Q1(Zombies me := Q (Zombies me) @ [?t])) s1"
    by (rule procs_ok_exit [OF inv pr p live me s1(4,3,7,9)]) (simp_all add: cpus_def s1(10) z)
  have mv: "moved {0} {?t} Q (Q1(Zombies me := Q (Zombies me) @ [?t]))"
    by (cases "thread_count s = 0") (auto simp: moved_def s1(2) fold_woken_wchans)
  have st: "stays {?t} s s1" by (simp add: stays_def s1(4,7))
  have me1: "me \<in> cpus s1" using me by (simp add: cpus_def s1)
  have apart: "\<forall>z \<in> set ((Q1(Zombies me := Q1 (Zombies me) @ [?t])) (Zombies me)). t_cpu s1 z = Some me \<and>
      (\<forall>l \<in> lids (Wchan ` chans) s1. l \<noteq> Zombies me \<longrightarrow> z \<notin> set ((Q1(Zombies me := Q1 (Zombies me) @ [?t])) l))"
    by (rule zombies_apart [OF s1(8)]) (use i lids_mem(2) [OF me1] in \<open>simp_all add: s1\<close>)
  show ?thesis
    using kept_switched [OF s1(1) pr1 me1 apart [unfolded z] c _ mv st] by simp
qed

lemma procs_ok_fork:
  assumes inv: "sched_inv W Q {} me {} s" and pr: "procs_ok Q s" and t: "t \<notin> t_live s"
    and s': "t_live s' = insert t (t_live s)" "t_proc s' = (t_proc s)(t := Some p)"
      "p_numthreads s' = (p_numthreads s)(p := p_numthreads s p + 1)" "cpus s' = cpus s"
      "\<forall>u \<in> t_live s. t_stack s' u = t_stack s u" "thread_checkstack t s' = Some ()"
    and Q': "\<And>c. Q' (Zombies c) = Q (Zombies c)"
  shows "procs_ok Q' s'"
proof -
  have "{u \<in> t_live s'. t_proc s' u = Some q} = (if q = p then insert t else id) {u \<in> t_live s. t_proc s u = Some q}" for q
    using t by (auto simp: s')
  then have "p_numthreads s' q = of_nat (card {u \<in> t_live s'. t_proc s' u = Some q})" for q
    using pr t live_finite(1) [OF inv] by (auto simp: procs_ok_def s' card_insert_if)
  then show ?thesis
    using pr s'(5,6) by (simp add: procs_ok_def s'(1,2,4) Q' thread_checkstack_def)
qed

lemma kept_fork:
  assumes sys: "sys_inv chans Q (s, idle)" and en: "thr_enabled chans me (Fork t stk name proc ep) (s, idle)"
  shows "kept chans (touched (Fork t stk name proc ep)) {} Q s (thr_exec me (Fork t stk name proc ep) (s, idle))"
proof -
  have inv: "sched_inv (Wchan ` chans) Q {} me {} s" and i: "\<not> c_isidle s me" and pr: "procs_ok Q s" and me: "me \<in> cpus s"
    and c: "0 \<in> chans" "\<forall>c. idle c \<in> {IPL_NONE, IPL_HIGH}" and t: "t \<notin> t_alloc s" "card (t_alloc s) + 1 < 2 ^ 32"
      "\<forall>c. curthread c s \<noteq> t" and stk: "length stk = STACK_WORDS" and name: "length name < MAX_NAME_LENGTH"
    using sys en sched_inv_me by (auto simp: sys_inv_def)
  have "curthread me s \<in> t_live s" using sched_invD(7) [OF inv me] by (simp add: cpu_ok_def Let_def)
  then obtain p where p: "(case proc of None \<Rightarrow> t_proc s (curthread me s) | Some p \<Rightarrow> Some p) = Some p"
    using pr sched_inv_running(1) [OF inv me i] lids_mem(2) by (cases proc) (auto simp: procs_ok_def on_no_list_def)
  define Q' where "Q' = fold (woken s) (Q (Wchan 0)) (Q(Wchan 0 := [], Local me := []))"
  let ?Q = "Q'(Runqueue me := Q' (Runqueue me) @ [t])"
  obtain s' where s': "thread_fork (chan 0) me (Some t) (Some stk) name proc ep s = Some (Inr (), s')"
    "sched_inv (Wchan ` chans) ?Q {} me {} s'" "t_live s' = insert t (t_live s)" "t_proc s' = (t_proc s)(t := Some p)"
    "p_numthreads s' = (p_numthreads s)(p := p_numthreads s p + 1)" "thread_checkstack t s' = Some ()"
    "cpus s' = cpus s" "\<forall>u. u \<noteq> t \<longrightarrow> t_stack s' u = t_stack s u"
    using thread_fork_inv [OF inv i chan0_mem [OF c(1)] t name stk p, of Q' ep] unfolding Q'_def chan_simps by blast
  have live: "t \<notin> t_live s" using t(1) sched_invD(10) [OF inv] by blast
  then have "procs_ok ?Q s'"
    by (intro procs_ok_fork [OF inv pr live s'(3,4,5,7) _ s'(6)])
      (use s'(8) in \<open>auto simp: Q'_def fold_woken_zombies\<close>)
  then show ?thesis
    using s'(1) keptI [OF c(1) s'(2) _ c(2), of "{0}" "{}" Q s]
    by (auto simp: stays_def moved_def s'(3,4) Q'_def fold_woken_wchans)
qed

lemma thr_exec_kept:
  assumes "sys_inv chans Q c" "thr_enabled chans me op c"
  shows "kept chans (touched op) (leaves me op (fst c)) Q (fst c) (thr_exec me op c)"
proof -
  obtain s idle where c: "c = (s, idle)" by fastforce
  show ?thesis
    using assms unfolding c
    by (cases op) (auto intro: kept_yield kept_sleep kept_wakeone kept_wakeall kept_exit kept_fork kept_migrate kept_idle
      simp del: thr_exec.simps thr_enabled.simps touched.simps)
qed

lemma sys_reach_inv:
  assumes "sys_reach chans c0 c" "sys_inv chans Q c0"
  shows "\<exists>Q'. sys_inv chans Q' c"
  using assms
proof (induction rule: sys_reach.induct)
  case (run c me op c')
  then show ?case using thr_exec_kept unfolding kept_def by fastforce
qed blast

text \<open>Where a thread is: current on a cpu that is not idle, or on one of the lists.\<close>

lemma sys_inv_places:
  assumes "sys_inv chans Q (s, idle)" "t \<in> t_live s"
  shows "(\<exists>!c. c \<in> cpus s \<and> \<not> c_isidle s c \<and> curthread c s = t) \<and> (\<forall>l \<in> lids (Wchan ` chans) s. t \<notin> set (Q l)) \<or>
    (\<forall>c \<in> cpus s. c_isidle s c \<or> curthread c s \<noteq> t) \<and> (\<exists>!l. l \<in> lids (Wchan ` chans) s \<and> t \<in> set (Q l))"
proof -
  obtain me where inv: "sched_inv (Wchan ` chans) Q {} me {} s" using assms(1) by (auto simp: sys_inv_def)
  note d = sched_invD [OF inv] and t = sched_invD(8) [OF inv assms(2)]
  show ?thesis
  proof (cases "t_state s t = S_RUN")
    case True
    then have "\<exists>!c. c \<in> cpus s \<and> \<not> c_isidle s c \<and> curthread c s = t"
      using t sched_inv_cur_distinct [OF inv] by (auto simp: thr_ok_def)
    then show ?thesis using True sched_inv_listed(2) [OF inv] by blast
  next
    case False
    then obtain l where "l \<in> lids (Wchan ` chans) s" "t \<in> set (Q l)" using t by (auto simp: thr_ok_def)
    then have "\<exists>!l. l \<in> lids (Wchan ` chans) s \<and> t \<in> set (Q l)" using lists_inv_disj [OF d(4)] by blast
    moreover have "c_isidle s c \<or> curthread c s \<noteq> t" if "c \<in> cpus s" for c
      using sched_inv_running(2) [OF inv that] False by blast
    ultimately show ?thesis by blast
  qed
qed

lemma quiet_lists: "lists_inv (lists quiet_kern) {0, 1, 2, 3} (lids (Wchan ` {0, 1}) quiet_kern) (\<lambda>_. [])"
proof -
  let ?ls = "[Wchan 0, Wchan 1] @ map Runqueue [0, 1, 2, 3] @ map Zombies [0, 1, 2, 3]"
  have c: "cpus quiet_kern = {0, 1, 2, 3}" by (auto simp: cpus_def quiet_kern_def)
  have "set ?ls = lids (Wchan ` {0, 1}) quiet_kern" by (auto simp: lids_def c)
  moreover have "lists quiet_kern = the (tl_boot [0, 1, 2, 3] ?ls)"
    by (simp only: quiet_kern_def kern.select_convs)
  moreover obtain h where "tl_boot [0, 1, 2, 3] ?ls = Some h" "lists_inv h (set [0, 1, 2, 3]) (set ?ls) (\<lambda>_. [])"
  proof -
    have "length [0 :: nat, 1, 2, 3] < 2 ^ 32" "distinct ?ls" by simp_all
    then show thesis using tl_boot_inv that by blast
  qed
  ultimately show ?thesis by (simp only: option.sel list.set)
qed

lemma quiet_cpus: "cpus quiet_kern = {0, 1, 2, 3}"
  by (auto simp: cpus_def quiet_kern_def)

lemma quiet_sched: "sched_inv (Wchan ` {0, 1}) (\<lambda>_. []) {} 0 {} quiet_kern"
proof -
  have "list_ok (\<lambda>_. []) quiet_kern l" for l by (cases l) simp_all
  then show ?thesis
    using quiet_lists
    by (auto simp: sched_inv_def quiet_cpus cpu_ok_def thr_ok_def locks_ok_def Let_def spl_defs)
      (auto simp: quiet_kern_def)
qed

lemma quiet_procs: "procs_ok (\<lambda>_. []) quiet_kern"
proof -
  have q: "t_live quiet_kern = {0, 1, 2, 3}" "t_stack quiet_kern = (\<lambda>_. None)"
    "t_proc quiet_kern = (\<lambda>t. if t < 4 then Some 0 else None)" "p_numthreads quiet_kern = (\<lambda>p. if p = 0 then 4 else 0)"
    by (simp_all only: quiet_kern_def kern.select_convs)
  have "{t \<in> t_live quiet_kern. t_proc quiet_kern t = Some p} = (if p = 0 then {0, 1, 2, 3} else {})" for p
    by (auto simp: q)
  then show ?thesis
    unfolding procs_ok_def by (simp add: thread_checkstack_def quiet_cpus q(2,4)) (simp add: q)
qed

lemma quiet_sys: "sys_inv {0, 1} (\<lambda>_. []) (quiet_kern, \<lambda>_. IPL_HIGH)"
  using quiet_sched quiet_procs by (auto simp: sys_inv_def)



subsection \<open>Round robin\<close>

text \<open>A cpu whose threads do nothing but yield.\<close>

primrec yields :: "nat \<Rightarrow> nat \<Rightarrow> kern \<Rightarrow> kern kp" where
  "yields 0 me s = Some s"
| "yields (Suc n) me s = do {
     r \<leftarrow> thread_yield me s;
     yields n me (switch_state r)
   }"

text \<open>C8: Round robin without starvation: a thread at position \<open>i\<close> of a cpu's run queue runs after \<open>i + 1\<close> calls
  of \<^verbatim>\<open>thread_yield\<close>, whatever else the scheduler holds; every one of the calls returns in the next
  thread, and the run queue at the end is the old one rotated.\<close>

theorem yields_reach_thread:
  assumes "sched_inv W Q {} me {} s" "\<not> c_isidle s me" "\<forall>u \<in> t_live s. thread_checkstack u s = Some ()"
    "Q (Runqueue me) = xs @ t # ys"
  shows "\<exists>s'. yields (Suc (length xs)) me s = Some s' \<and> curthread me s' = t \<and> t_state s' t = S_RUN \<and>
    tl_rep (lists s') (Runqueue me) (ys @ curthread me s # xs) \<and> \<not> c_isidle s' me"
  using assms
proof (induction xs arbitrary: s Q ys)
  case (Nil s Q ys)
  note inv = Nil.prems(1) and me = sched_invD(2) [OF Nil.prems(1)]
  have stk: "thread_checkstack (curthread me s) s = Some ()"
    using Nil.prems(3) sched_invD(7) [OF inv me] by (simp add: cpu_ok_def Let_def)
  obtain s' where s': "thread_switch me S_READY None None s = Some (Resumed s')" "curthread me s' = t" "\<not> c_isidle s' me"
    "sched_inv W (Q(Runqueue me := ys @ [curthread me s], Zombies me := [])) {} me {} s'"
    using switch_ready_inv [OF inv Nil.prems(2) stk] Nil.prems(4) by (auto simp: switched_def)
  note me' = sched_invD(2) [OF s'(4)]
  show ?case
    using s' sched_inv_running(2) [OF s'(4) me' s'(3)] lists_inv_rep [OF sched_invD(4) [OF s'(4)] lids_mem(1) [OF me']]
    by (auto simp: thread_yield_def)
next
  case (Cons x xs s Q ys)
  note inv = Cons.prems(1) and me = sched_invD(2) [OF Cons.prems(1)]
  have stk: "thread_checkstack (curthread me s) s = Some ()"
    using Cons.prems(3) sched_invD(7) [OF inv me] by (simp add: cpu_ok_def Let_def)
  obtain s' where s': "thread_switch me S_READY None None s = Some (Resumed s')" "curthread me s' = x" "\<not> c_isidle s' me"
    "sched_inv W (Q(Runqueue me := xs @ t # ys @ [curthread me s], Zombies me := [])) {} me {} s'" "elsewhere me s s'"
    using switch_ready_inv [OF inv Cons.prems(2) stk] Cons.prems(4) by (auto simp: switched_def)
  have "\<forall>u \<in> t_live s'. thread_checkstack u s' = Some ()"
    using Cons.prems(3) s'(5) by (simp add: elsewhere_def thread_checkstack_def)
  from Cons.IH [OF s'(4,3) this, of "ys @ [curthread me s]"] show ?case
    using s'(1,2) by (simp add: thread_yield_def)
qed

lemma quiet_forked:
  "\<exists>s. sched_inv (Wchan ` {0, 1}) ((\<lambda>_. [])(Runqueue 0 := [4])) {} 0 {} s \<and> \<not> c_isidle s 0 \<and> curthread 0 s = 0 \<and>
     (\<forall>u \<in> t_live s. thread_checkstack u s = Some ()) \<and>
     thread_fork (chan 0) 0 (Some 4) (Some (replicate STACK_WORDS 0)) ''worker'' None 7 quiet_kern = Some (Inr (), s)"
proof -
  have q: "t_alloc quiet_kern = {0, 1, 2, 3}" "c_isidle quiet_kern = (\<lambda>_. False)" "t_stack quiet_kern = (\<lambda>_. None)"
    "c_curthread quiet_kern = (\<lambda>c. if c < 4 then c else 0)" "t_proc quiet_kern = (\<lambda>t. if t < 4 then Some 0 else None)"
    by (simp_all only: quiet_kern_def kern.select_convs)
  have c4: "\<forall>c. curthread c quiet_kern \<noteq> 4" "(0 :: nat) \<in> {0, 1}" by (simp_all add: q)
  obtain s where s: "thread_fork (chan 0) 0 (Some 4) (Some (replicate STACK_WORDS 0)) ''worker'' None 7 quiet_kern = Some (Inr (), s)"
    "sched_inv (Wchan ` {0, 1}) (((\<lambda>_. [])(Wchan 0 := [], Local 0 := []))(Runqueue 0 := [4])) {} 0 {} s"
    "c_curthread s = c_curthread quiet_kern" "c_isidle s = c_isidle quiet_kern" "t_live s = insert 4 (t_live quiet_kern)"
    "thread_checkstack 4 s = Some ()" "\<forall>u. u \<noteq> 4 \<longrightarrow> t_stack s u = t_stack quiet_kern u"
    using thread_fork_inv [OF quiet_sched _ chan0_mem [OF c4(2)] _ _ c4(1), of "''worker''" "replicate STACK_WORDS 0" None 0
      "(\<lambda>_. [])(Wchan 0 := [], Local 0 := [])" 7]
    by (auto simp: q MAX_NAME_LENGTH_def)
  have "((\<lambda>_. [])(Wchan 0 := [], Local 0 := []))(Runqueue 0 := [4 :: tid]) = (\<lambda>_. [])(Runqueue 0 := [4])"
    by (auto simp: fun_eq_iff)
  moreover have "thread_checkstack u s = Some ()" for u
    using s(6,7) by (cases "u = 4") (simp_all add: thread_checkstack_def q)
  ultimately show ?thesis
    using s by (intro exI [of _ s]) (auto simp: q)
qed

theorem yields_reach_thread_witness:
  "\<exists>s s'. thread_fork (chan 0) 0 (Some 4) (Some (replicate STACK_WORDS 0)) ''worker'' None 7 quiet_kern = Some (Inr (), s) \<and>
     yields 1 0 s = Some s' \<and> curthread 0 s' = 4 \<and> tl_rep (lists s') (Runqueue 0) [0]"
proof -
  obtain s where s: "sched_inv (Wchan ` {0, 1}) ((\<lambda>_. [])(Runqueue 0 := [4])) {} 0 {} s" "\<not> c_isidle s 0" "curthread 0 s = 0"
    "\<forall>u \<in> t_live s. thread_checkstack u s = Some ()"
    "thread_fork (chan 0) 0 (Some 4) (Some (replicate STACK_WORDS 0)) ''worker'' None 7 quiet_kern = Some (Inr (), s)"
    using quiet_forked by blast
  have "((\<lambda>_. [])(Runqueue 0 := [4])) (Runqueue 0) = [] @ 4 # []" by simp
  from yields_reach_thread [OF s(1,2,4) this] show ?thesis using s(3,5) by auto
qed

subsection \<open>Failing forks\<close>

text \<open>C19: \<^verbatim>\<open>thread_fork\<close> that cannot get its memory, or gets a name longer than 64 characters, returns \<^verbatim>\<open>ENOMEM\<close> and
  leaves the thread system as it was: the same threads on the same lists, nothing allocated.\<close>

theorem thread_fork_enomem:
  assumes inv: "sched_inv W Q {} me {} s" and t: "t \<notin> t_alloc s" "\<forall>c. curthread c s \<noteq> t" "card (t_alloc s) + 1 < 2 ^ 32"
    and fail: "MAX_NAME_LENGTH < length name \<or> length name < MAX_NAME_LENGTH \<and> (mem = None \<or> mem = Some t \<and> stk = None)"
  shows "\<exists>s'. thread_fork tcw me mem stk name proc ep s = Some (Inl ENOMEM, s') \<and> sched_inv W Q {} me {} s' \<and>
    t_alloc s' = t_alloc s \<and> t_live s' = t_live s \<and> thread_count s' = thread_count s \<and> p_numthreads s' = p_numthreads s"
proof (cases "MAX_NAME_LENGTH < length name \<or> mem = None")
  case True
  then show ?thesis using inv by (auto simp: thread_fork_def thread_create_def split: option.splits)
next
  case False
  then have name: "length name < MAX_NAME_LENGTH" and mem: "mem = Some t" "stk = None" using fail by auto
  note d = sched_invD [OF inv]
  obtain h where h: "threadlistnode_init (Node t) (Some t) (lists s) = Some h" "lists_inv h (insert t (t_alloc s)) (lids W s) Q"
    using lists_inv_new [OF d(4) t(1,3)] by blast
  have un: "on_no_list (insert t (t_alloc s)) (lids W s) Q t"
    using lists_inv_sub [OF d(4)] t(1) by (auto simp: on_no_list_def)
  have cl: "threadlistnode_cleanup (Node t) h = Some ()"
    using lists_inv_free [OF h(2)] un h(2) by (auto simp: threadlistnode_cleanup_def on_no_list_def lists_inv_def)
  have li: "lists_inv h (t_alloc s) (lids W s) Q"
    using lists_inv_forget [OF h(2) un] t(1) by simp
  define s' where "s' = s\<lparr>t_name := (t_name s)(t := name), t_wchan_name := (t_wchan_name s)(t := Some ''DESTROYED''),
    t_state := (t_state s)(t := S_READY), lists := h, t_stack := (t_stack s)(t := None), t_context := (t_context s)(t := None),
    t_cpu := (t_cpu s)(t := None), t_proc := (t_proc s)(t := None), t_in_interrupt := (t_in_interrupt s)(t := False),
    t_curspl := (t_curspl s)(t := IPL_HIGH), t_iplhigh_count := (t_iplhigh_count s)(t := 1)\<rparr>"
  have live: "t \<notin> t_live s" using d(10) t(1) by blast
  have eq: "t_alloc s - {t} = t_alloc s" "t_live s - {t} = t_live s" using t(1) live by auto
  have "thread_fork tcw me mem stk name proc ep s = Some (Inl ENOMEM, s')"
    using name not_sym [OF spec [OF t(2), of me]] h(1) cl
    by (simp add: thread_fork_def thread_create_def thread_destroy_def mem s'_def eq Let_def)
  moreover have "sched_inv W Q {} me {} s'"
  proof (rule sched_inv_agree [OF inv])
    fix u c assume u: "c \<in> cpus s" "u \<in> set (Q (Zombies c))"
    show "t_proc s' u = None" using d(9) [OF lids_mem(2) [OF u(1)]] u(2) by (auto simp: s'_def)
  qed (use live li d(10) in \<open>auto simp: s'_def\<close>)
  ultimately show ?thesis by (simp add: s'_def)
qed

theorem thread_fork_enomem_witness:
  "\<exists>s'. thread_fork (chan 0) 0 (Some 4) None ''worker'' None 7 quiet_kern = Some (Inl ENOMEM, s') \<and>
     sched_inv (Wchan ` {0, 1}) (\<lambda>_. []) {} 0 {} s'"
proof -
  have q: "t_alloc quiet_kern = {0, 1, 2, 3}" "c_curthread quiet_kern = (\<lambda>c. if c < 4 then c else 0)"
    by (simp_all only: quiet_kern_def kern.select_convs)
  have "4 \<notin> t_alloc quiet_kern" "\<forall>c. curthread c quiet_kern \<noteq> 4" "card (t_alloc quiet_kern) + 1 < 2 ^ 32" by (simp_all add: q)
  from thread_fork_enomem [OF quiet_sched this, of "''worker''" "Some 4" None "chan 0" None 7] show ?thesis
    by (auto simp: MAX_NAME_LENGTH_def)
qed



subsection \<open>TLB shootdowns\<close>

primrec shoot_all :: "nat \<Rightarrow> nat \<Rightarrow> tlbshootdown list \<Rightarrow> kern \<Rightarrow> kern kp" where
  "shoot_all me target [] s = Some s"
| "shoot_all me target (m # ms) s = do {
     s1 \<leftarrow> ipi_tlbshootdown me target m s;
     shoot_all me target ms s1
   }"

definition shot :: "nat \<Rightarrow> tlbshootdown list \<Rightarrow> kern \<Rightarrow> bool" where
  "shot target ms s \<longleftrightarrow> length (c_shootdown s target) = unat TLBSHOOTDOWN_MAX \<and> length ms \<le> unat TLBSHOOTDOWN_MAX \<and>
     c_numshootdown s target = of_nat (length ms) \<and> take (length ms) (c_shootdown s target) = ms \<and>
     c_ipi_pending s target = (if ms = [] then 0 else push_bit IPI_TLBSHOOTDOWN 1)"

lemma ipi_tlbshootdown_shot:
  assumes inv: "sched_inv W Q {} me {} s" and sh: "shot target ms s" and n: "length ms < 16"
  shows "\<exists>s'. ipi_tlbshootdown me target m s = Some s' \<and> sched_inv W Q {} me {} s' \<and> shot target (ms @ [m]) s' \<and> cpus s' = cpus s"
proof -
  let ?k = "Ipi_lock target"
  have a: "spinlock_acquire me ?k s = Some (acquired me ?k s)" "sched_inv W Q {} me {?k} (acquired me ?k s)"
    using acquire_inv [OF inv, of ?k] by simp_all
  have ne: "(of_nat (length ms) :: u32) \<noteq> TLBSHOOTDOWN_MAX" "unat (of_nat (length ms) :: u32) = length ms"
    using n by (simp_all add: TLBSHOOTDOWN_MAX_def unat_of_nat_id word_unat_eq_iff)
  define s1 where "s1 = (acquired me ?k s)\<lparr>
    c_shootdown := (c_shootdown s)(target := (c_shootdown s target)[length ms := m]),
    c_numshootdown := (c_numshootdown s)(target := of_nat (length ms) + 1),
    c_ipi_pending := (c_ipi_pending s)(target := c_ipi_pending s target OR push_bit IPI_TLBSHOOTDOWN 1),
    mainbus_ipis := target # mainbus_ipis s\<rparr>"
  have inv1: "sched_inv W Q {} me {?k} s1" using a(2) by (simp add: s1_def)
  have "ipi_tlbshootdown me target m s = Some (released me ?k s1)"
    using a(1) sh ne n release_inv(1) [OF inv1, of ?k]
    by (simp add: ipi_tlbshootdown_def shot_def wr_def s1_def acquired_def TLBSHOOTDOWN_MAX_def Let_def)
  moreover have "sched_inv W Q {} me {} (released me ?k s1)" using release_inv(2) [OF inv1, of ?k] by simp
  moreover have "shot target (ms @ [m]) (released me ?k s1)"
    using sh n by (auto simp: shot_def released_def s1_def acquired_def TLBSHOOTDOWN_MAX_def take_Suc_conv_app_nth)
  ultimately show ?thesis by (auto simp: released_def s1_def acquired_def cpus_def)
qed

lemma shoot_all_shot:
  assumes "sched_inv W Q {} me {} s" "shot target ns s" "length (ns @ ms) \<le> 16"
  shows "\<exists>s'. shoot_all me target ms s = Some s' \<and> sched_inv W Q {} me {} s' \<and> shot target (ns @ ms) s' \<and> cpus s' = cpus s"
  using assms
proof (induction ms arbitrary: ns s)
  case (Cons m ms)
  then have "length ns < 16" by simp
  then obtain s1 where "ipi_tlbshootdown me target m s = Some s1" "sched_inv W Q {} me {} s1" "shot target (ns @ [m]) s1" "cpus s1 = cpus s"
    using ipi_tlbshootdown_shot [OF Cons.prems(1,2)] by blast
  then show ?case using Cons.IH [of s1 "ns @ [m]"] Cons.prems(3) by auto
qed simp



end
