(* ===== verification/Synch.thy ===== *)
theory Synch
  imports Runs
begin

unbundle bit_operations_syntax

text \<open>
  The synchronization primitives of \<^verbatim>\<open>kern/thread/synch.c\<close>. Semaphores and locks are counters with a wait
  channel; the locale \<open>blocking_counter\<close> states what both promise and proves, for any system of threads that
  share one, that no wakeup is lost and that acquisitions and releases balance. The locks of this kernel
  do not record their holder, which the last theorems show.
\<close>

subsection \<open>Semaphores\<close>

record semaphore =
  sem_name :: string
  sem_wchan :: wchan
  sem_lock :: splkid
  sem_count :: u32

text \<open>\<open>mem\<close>, \<open>nmem\<close> and \<open>wmem\<close> say whether \<^verbatim>\<open>kmalloc\<close> has room for the structure, the copy of the name and the
  wait channel (and which list it gets); \<open>lk\<close> is the spinlock in the structure.\<close>

definition sem_create :: "bool \<Rightarrow> bool \<Rightarrow> lid option \<Rightarrow> splkid \<Rightarrow> string \<Rightarrow> u32 \<Rightarrow> kern \<Rightarrow> semaphore option \<times> kern" where
  "sem_create mem nmem wmem lk name initial_count s =
     (if \<not> mem \<or> \<not> nmem then (None, s)
      else case wchan_create wmem name s of
        (None, s1) \<Rightarrow> (None, s1)
      | (Some wc, s1) \<Rightarrow>
          (Some \<lparr>sem_name = name, sem_wchan = wc, sem_lock = lk, sem_count = initial_count\<rparr>, spinlock_init lk s1))"

definition sem_destroy :: "semaphore \<Rightarrow> kern \<Rightarrow> unit kp" where
  "sem_destroy sem s = do {
     spinlock_cleanup (sem_lock sem) s;
     wchan_destroy (sem_wchan sem) s
   }"

text \<open>A call either finishes, or ends in \<^verbatim>\<open>wchan_sleep\<close>; when the thread runs again it goes on with
  \<open>sem_P_again\<close>: the end of \<^verbatim>\<open>wchan_sleep\<close> and the next test of the loop.\<close>

datatype wait_result = Done kern | Asleep switch_result

definition sem_P_loop :: "nat \<Rightarrow> semaphore \<Rightarrow> kern \<Rightarrow> (wait_result \<times> semaphore) kp" where
  "sem_P_loop me sem s =
     (if sem_count sem = 0 then do {
        r \<leftarrow> wchan_sleep me (sem_wchan sem) (sem_lock sem) s;
        Some (Asleep r, sem)
      } else do {
        kassert (sem_count sem > 0);
        let sem' = sem\<lparr>sem_count := sem_count sem - 1\<rparr>;
        s' \<leftarrow> spinlock_release me (sem_lock sem) s;
        Some (Done s', sem')
      })"

definition sem_P :: "nat \<Rightarrow> semaphore \<Rightarrow> kern \<Rightarrow> (wait_result \<times> semaphore) kp" where
  "sem_P me sem s = do {
     kassert (\<not> t_in_interrupt s (curthread me s));
     s1 \<leftarrow> spinlock_acquire me (sem_lock sem) s;
     sem_P_loop me sem s1
   }"

definition sem_P_again :: "nat \<Rightarrow> semaphore \<Rightarrow> kern \<Rightarrow> (wait_result \<times> semaphore) kp" where
  "sem_P_again me sem s = do {
     s1 \<leftarrow> wchan_sleep_return me (sem_lock sem) s;
     sem_P_loop me sem s1
   }"

definition sem_V :: "nat \<Rightarrow> semaphore \<Rightarrow> kern \<Rightarrow> (kern \<times> semaphore) kp" where
  "sem_V me sem s = do {
     s1 \<leftarrow> spinlock_acquire me (sem_lock sem) s;
     let sem' = sem\<lparr>sem_count := sem_count sem + 1\<rparr>;
     kassert (sem_count sem' > 0);
     s2 \<leftarrow> wchan_wakeone me (sem_wchan sem) (sem_lock sem) s1;
     s3 \<leftarrow> spinlock_release me (sem_lock sem) s2;
     Some (s3, sem')
   }"

subsection \<open>Locks\<close>

record lock =
  lk_name :: string
  lock_thread :: tid
  lock_wchan :: wchan
  lock_lock :: splkid
  lock_count :: u32

definition lock_create :: "bool \<Rightarrow> bool \<Rightarrow> lid option \<Rightarrow> splkid \<Rightarrow> nat \<Rightarrow> string \<Rightarrow> kern \<Rightarrow> lock option \<times> kern" where
  "lock_create mem nmem wmem lk me name s =
     (if \<not> mem \<or> \<not> nmem then (None, s)
      else case wchan_create wmem name s of
        (None, s1) \<Rightarrow> (None, s1)
      | (Some wc, s1) \<Rightarrow>
          (Some \<lparr>lk_name = name, lock_thread = curthread me s1, lock_wchan = wc, lock_lock = lk, lock_count = 1\<rparr>,
           spinlock_init lk s1))"

definition lock_destroy :: "lock \<Rightarrow> kern \<Rightarrow> unit kp" where
  "lock_destroy lock s = do {
     spinlock_cleanup (lock_lock lock) s;
     wchan_destroy (lock_wchan lock) s
   }"

definition lock_acquire_loop :: "nat \<Rightarrow> lock \<Rightarrow> kern \<Rightarrow> (wait_result \<times> lock) kp" where
  "lock_acquire_loop me lock s =
     (if lock_count lock = 0 then do {
        r \<leftarrow> wchan_sleep me (lock_wchan lock) (lock_lock lock) s;
        Some (Asleep r, lock)
      } else do {
        kassert (lock_count lock > 0);
        let lock' = lock\<lparr>lock_count := lock_count lock - 1\<rparr>;
        s' \<leftarrow> spinlock_release me (lock_lock lock) s;
        Some (Done s', lock')
      })"

definition lock_acquire :: "nat \<Rightarrow> lock \<Rightarrow> kern \<Rightarrow> (wait_result \<times> lock) kp" where
  "lock_acquire me lock s = do {
     kassert (\<not> t_in_interrupt s (curthread me s));
     s1 \<leftarrow> spinlock_acquire me (lock_lock lock) s;
     lock_acquire_loop me lock s1
   }"

definition lock_acquire_again :: "nat \<Rightarrow> lock \<Rightarrow> kern \<Rightarrow> (wait_result \<times> lock) kp" where
  "lock_acquire_again me lock s = do {
     s1 \<leftarrow> wchan_sleep_return me (lock_lock lock) s;
     lock_acquire_loop me lock s1
   }"

definition lock_release :: "nat \<Rightarrow> lock \<Rightarrow> kern \<Rightarrow> (kern \<times> lock) kp" where
  "lock_release me lock s = do {
     s1 \<leftarrow> spinlock_acquire me (lock_lock lock) s;
     let lock' = lock\<lparr>lock_count := lock_count lock + 1\<rparr>;
     kassert (lock_count lock' > 0);
     s2 \<leftarrow> wchan_wakeone me (lock_wchan lock) (lock_lock lock) s1;
     s3 \<leftarrow> spinlock_release me (lock_lock lock) s2;
     Some (s3, lock')
   }"

definition lock_do_i_hold :: "nat \<Rightarrow> lock \<Rightarrow> kern \<Rightarrow> bool" where
  "lock_do_i_hold me lock s =
     (if lock_count lock = 1 then False
      else if curthread me s = lock_thread lock then True
      else False)"

subsection \<open>Condition variables\<close>

text \<open>The code has only the names; waiting and signalling have empty bodies.\<close>

record cv =
  cv_name :: string

definition cv_create :: "bool \<Rightarrow> bool \<Rightarrow> string \<Rightarrow> cv option" where
  "cv_create mem nmem name = (if \<not> mem \<or> \<not> nmem then None else Some \<lparr>cv_name = name\<rparr>)"

definition cv_destroy :: "cv \<Rightarrow> kern \<Rightarrow> kern" where
  "cv_destroy cv s = s"

definition cv_wait :: "nat \<Rightarrow> cv \<Rightarrow> lock \<Rightarrow> kern \<Rightarrow> (kern \<times> lock) kp" where
  "cv_wait me cv lock s = Some (s, lock)"

definition cv_signal :: "nat \<Rightarrow> cv \<Rightarrow> lock \<Rightarrow> kern \<Rightarrow> (kern \<times> lock) kp" where
  "cv_signal me cv lock s = Some (s, lock)"

definition cv_broadcast :: "nat \<Rightarrow> cv \<Rightarrow> lock \<Rightarrow> kern \<Rightarrow> (kern \<times> lock) kp" where
  "cv_broadcast me cv lock s = Some (s, lock)"

subsection \<open>Systems of threads that share a counter\<close>

text \<open>One semaphore or lock \<open>b\<close>, used by the threads of a whole system beside everything else they do.
  \<open>inside\<close> are the threads in the middle of an acquisition (asleep, or woken and not yet at the test of the
  loop), \<open>got\<close> and \<open>put\<close> count the finished acquisitions and the releases. A thread in the middle of an
  acquisition does nothing else but be preempted.\<close>

type_synonym 'b counter_conf = "sysconf \<times> 'b \<times> tid set \<times> nat \<times> nat"

datatype counter_op = Acquire | Release | Other thr_op

fun landed :: "nat \<Rightarrow> (nat \<Rightarrow> int) \<Rightarrow> tid \<Rightarrow> tid set \<Rightarrow> nat \<Rightarrow> nat \<Rightarrow> wait_result \<times> 'b \<Rightarrow> 'b counter_conf" where
  "landed me idle t inside got put (Done s, b) = ((s, idle), b, inside - {t}, got + 1, put)"
| "landed me idle t inside got put (Asleep r, b) = (settle me idle r, b, insert t inside, got, put)"

fun counter_exec :: "(nat \<Rightarrow> 'b \<Rightarrow> kern \<Rightarrow> (wait_result \<times> 'b) kp) \<Rightarrow> (nat \<Rightarrow> 'b \<Rightarrow> kern \<Rightarrow> (wait_result \<times> 'b) kp) \<Rightarrow>
    (nat \<Rightarrow> 'b \<Rightarrow> kern \<Rightarrow> (kern \<times> 'b) kp) \<Rightarrow> nat \<Rightarrow> counter_op \<Rightarrow> 'b counter_conf \<Rightarrow> 'b counter_conf kp" where
  "counter_exec acq again rel me Acquire ((s, idle), b, inside, got, put) =
     map_option (landed me idle (curthread me s) inside got put)
       (if curthread me s \<in> inside then again me b s else acq me b s)"
| "counter_exec acq again rel me Release ((s, idle), b, inside, got, put) =
     map_option (\<lambda>(s', b'). ((s', idle), b', inside, got, put + 1)) (rel me b s)"
| "counter_exec acq again rel me (Other op) (c, b, inside, got, put) =
     map_option (\<lambda>c'. (c', b, inside, got, put)) (thr_exec me op c)"

fun counter_enabled :: "nat set \<Rightarrow> nat \<Rightarrow> nat \<Rightarrow> counter_op \<Rightarrow> 'b counter_conf \<Rightarrow> bool" where
  "counter_enabled chans w me (Other op) ((s, idle), b, inside, got, put) \<longleftrightarrow>
     thr_enabled (chans - {w}) me op (s, idle) \<and> (curthread me s \<in> inside \<longrightarrow> op \<in> {Yield, Migrate, Idle_wake})"
| "counter_enabled chans w me Acquire ((s, idle), b, inside, got, put) \<longleftrightarrow>
     me \<in> cpus s \<and> \<not> c_isidle s me \<and> \<not> t_in_interrupt s (curthread me s)"
| "counter_enabled chans w me Release ((s, idle), b, inside, got, put) \<longleftrightarrow>
     me \<in> cpus s \<and> \<not> c_isidle s me \<and> curthread me s \<notin> inside"

inductive counter_reach :: "(nat \<Rightarrow> 'b \<Rightarrow> kern \<Rightarrow> (wait_result \<times> 'b) kp) \<Rightarrow> (nat \<Rightarrow> 'b \<Rightarrow> kern \<Rightarrow> (wait_result \<times> 'b) kp) \<Rightarrow>
    (nat \<Rightarrow> 'b \<Rightarrow> kern \<Rightarrow> (kern \<times> 'b) kp) \<Rightarrow> nat set \<Rightarrow> nat \<Rightarrow> 'b counter_conf \<Rightarrow> 'b counter_conf \<Rightarrow> bool"
  for acq again rel chans w c0 where
  start: "counter_reach acq again rel chans w c0 c0"
| run: "counter_reach acq again rel chans w c0 c \<Longrightarrow> counter_enabled chans w me op c \<Longrightarrow>
    counter_exec acq again rel me op c = Some c' \<Longrightarrow> counter_reach acq again rel chans w c0 c'"
text \<open>The contract of such a counter: with the lock of its channel free, an acquisition takes one if there is
  one and otherwise sleeps on the channel, and a release puts one back and wakes the head of the channel,
  unless the count would wrap around.\<close>

locale blocking_counter =
  fixes acq :: "nat \<Rightarrow> 'b \<Rightarrow> kern \<Rightarrow> (wait_result \<times> 'b) kp"
    and again :: "nat \<Rightarrow> 'b \<Rightarrow> kern \<Rightarrow> (wait_result \<times> 'b) kp"
    and rel :: "nat \<Rightarrow> 'b \<Rightarrow> kern \<Rightarrow> (kern \<times> 'b) kp"
    and count :: "'b \<Rightarrow> u32" and wch :: "'b \<Rightarrow> wchan" and splk :: "'b \<Rightarrow> splkid"
  assumes acq_take: "\<not> t_in_interrupt s (curthread me s) \<Longrightarrow> spinlock_acquire me (splk b) s = Some s1 \<Longrightarrow> count b \<noteq> 0 \<Longrightarrow>
      spinlock_release me (splk b) s1 = Some s2 \<Longrightarrow>
      \<exists>b'. acq me b s = Some (Done s2, b') \<and> again me b s = Some (Done s2, b') \<and> count b' = count b - 1 \<and>
        wch b' = wch b \<and> splk b' = splk b"
    and acq_sleep: "\<not> t_in_interrupt s (curthread me s) \<Longrightarrow> spinlock_acquire me (splk b) s = Some s1 \<Longrightarrow> count b = 0 \<Longrightarrow>
      wchan_sleep me (wch b) (splk b) s1 = Some r \<Longrightarrow>
      acq me b s = Some (Asleep r, b) \<and> again me b s = Some (Asleep r, b)"
    and rel_wakes: "spinlock_acquire me (splk b) s = Some s1 \<Longrightarrow> count b + 1 \<noteq> 0 \<Longrightarrow>
      wchan_wakeone me (wch b) (splk b) s1 = Some s2 \<Longrightarrow> spinlock_release me (splk b) s2 = Some s3 \<Longrightarrow>
      \<exists>b'. rel me b s = Some (s3, b') \<and> count b' = count b + 1 \<and> wch b' = wch b \<and> splk b' = splk b"
    and rel_wraps: "count b + 1 = 0 \<Longrightarrow> rel me b s = None"
begin

text \<open>If someone sleeps, every unit of the count has a woken thread on its way to it.\<close>

definition counter_inv :: "nat set \<Rightarrow> nat \<Rightarrow> nat \<Rightarrow> (lid \<Rightarrow> tid list) \<Rightarrow> 'b counter_conf \<Rightarrow> bool" where
  "counter_inv chans w n Q = (\<lambda>(c, b, inside, got, put). sys_inv chans Q c \<and> w \<in> chans \<and> w \<noteq> 0 \<and>
     wc_threads (wch b) = Wchan w \<and> splk b = Wchan_lock w \<and> finite inside \<and> set (Q (Wchan w)) \<subseteq> inside \<and>
     (\<forall>v \<in> chans. v \<noteq> w \<longrightarrow> inside \<inter> set (Q (Wchan v)) = {}) \<and>
     (\<forall>t \<in> inside. t \<in> t_live (fst c) \<and> t_proc (fst c) t \<noteq> None) \<and>
     (Q (Wchan w) \<noteq> [] \<longrightarrow> unat (count b) \<le> card (inside - set (Q (Wchan w)))) \<and>
     unat (count b) + got = n + put)"

lemma inv_cur:
  assumes "counter_inv chans w n Q ((s, idle), b, inside, got, put)" "me \<in> cpus s" "\<not> c_isidle s me"
  shows "sched_inv (Wchan ` chans) Q {} me {} s" "curthread me s \<in> t_live s" "t_proc s (curthread me s) \<noteq> None"
    "\<forall>v \<in> chans. curthread me s \<notin> set (Q (Wchan v))"
proof -
  show inv: "sched_inv (Wchan ` chans) Q {} me {} s" and "curthread me s \<in> t_live s"
    using assms(1,2) sched_inv_me sched_invD(7) by (auto simp: counter_inv_def sys_inv_def cpu_ok_def Let_def)
  have n: "curthread me s \<notin> set (Q l)" if "l \<in> lids (Wchan ` chans) s" for l
    using sched_inv_running(1) [OF inv assms(2,3)] that by (simp add: on_no_list_def)
  show "\<forall>v \<in> chans. curthread me s \<notin> set (Q (Wchan v))" using n by (simp add: lids_def)
  show "t_proc s (curthread me s) \<noteq> None"
    using assms(1) \<open>curthread me s \<in> t_live s\<close> n lids_mem(2) by (auto simp: counter_inv_def sys_inv_def procs_ok_def)
qed

lemma inv_sleep:
  assumes inv: "counter_inv chans w n Q ((s, idle), b, inside, got, put)" and en: "counter_enabled chans w me Acquire ((s, idle), b, inside, got, put)"
    and z: "count b = 0"
  shows "\<exists>c' Q'. counter_exec acq again rel me Acquire ((s, idle), b, inside, got, put) = Some c' \<and> counter_inv chans w n Q' c'"
proof -
  have me: "me \<in> cpus s" "\<not> c_isidle s me" "\<not> t_in_interrupt s (curthread me s)" using en by simp_all
  note d = inv_cur [OF inv me(1,2)]
  have w: "w \<in> chans" "wc_threads (wch b) = Wchan w" "splk b = Wchan_lock w" and sys: "sys_inv chans Q (s, idle)"
    using inv by (simp_all add: counter_inv_def)
  obtain r c' Q' where r: "wchan_sleep me (wch b) (Wchan_lock w) (acquired me (Wchan_lock w) s) = Some r" "settle me idle r = c'"
    "sys_inv chans Q' c'" "moved {} {} (Q(Wchan w := Q (Wchan w) @ [curthread me s])) Q'" "stays {} s (fst c')"
    using sleep_kept [OF sys me w(1,2)] by (auto simp: kept_def)
  have "acq me b s = Some (Asleep r, b)" "again me b s = Some (Asleep r, b)"
    using acq_sleep [OF me(3)] wchan_locked_inv(1) [OF d(1), of w] z r(1) w(3) by auto
  then have "counter_exec acq again rel me Acquire ((s, idle), b, inside, got, put) =
      Some (c', b, insert (curthread me s) inside, got, put)"
    using r(2) by simp
  moreover have "counter_inv chans w n Q' (c', b, insert (curthread me s) inside, got, put)"
    using inv r(3-5) z d(2-4) by (auto simp: counter_inv_def moved_def stays_def)
  ultimately show ?thesis by blast
qed

lemma inv_take:
  assumes inv: "counter_inv chans w n Q ((s, idle), b, inside, got, put)" and en: "counter_enabled chans w me Acquire ((s, idle), b, inside, got, put)"
    and z: "count b \<noteq> 0"
  shows "\<exists>c' Q'. counter_exec acq again rel me Acquire ((s, idle), b, inside, got, put) = Some c' \<and> counter_inv chans w n Q' c'"
proof -
  have me: "me \<in> cpus s" "\<not> c_isidle s me" "\<not> t_in_interrupt s (curthread me s)" using en by simp_all
  note d = inv_cur [OF inv me(1,2)] and i = inv [unfolded counter_inv_def prod.case]
  let ?k = "Wchan_lock w" and ?t = "curthread me s"
  note a = wchan_locked_inv [OF d(1), of w]
  let ?s2 = "released me ?k (acquired me ?k s)"
  have rl: "spinlock_release me ?k (acquired me ?k s) = Some ?s2" "sched_inv (Wchan ` chans) Q {} me {} ?s2"
    using release_inv [OF a(2), of ?k] by simp_all
  have sk: "splk b = ?k" using i by simp
  obtain b' where b': "acq me b s = Some (Done ?s2, b')" "again me b s = Some (Done ?s2, b')" "count b' = count b - 1"
    "wch b' = wch b" "splk b' = splk b"
    using acq_take [of s me b "acquired me ?k s" ?s2] me(3) a(1) z rl(1) sk by auto
  have u: "undisturbed s ?s2" using undisturbed_trans [OF undisturbed_locks] .
  have "sys_inv chans Q (?s2, idle)"
    using i rl(2) procs_ok_undisturbed [OF _ u, of Q Q] by (auto simp: sys_inv_def)
  moreover have dec: "unat (count b') = unat (count b) - 1" "0 < unat (count b)"
    using z b'(3) by (simp_all add: unat_sub word_gt_0 word_le_nat_alt unat_gt_0 Suc_leI)
  moreover have "unat (count b) - 1 \<le> card (inside - {?t} - set (Q (Wchan w)))" if "Q (Wchan w) \<noteq> []"
  proof -
    have "inside - {?t} - set (Q (Wchan w)) = (inside - set (Q (Wchan w))) - {?t}" by blast
    then show ?thesis using that i card_Diff1_le [of "inside - set (Q (Wchan w))" ?t] by (auto simp: card_Diff_singleton_if)
  qed
  ultimately have "counter_inv chans w n Q ((?s2, idle), b', inside - {?t}, got + 1, put)"
    using i d(4) b'(4,5) u by (auto simp: counter_inv_def undisturbed_def)
  then show ?thesis using b'(1,2) by auto
qed

lemma inv_release:
  assumes inv: "counter_inv chans w n Q ((s, idle), b, inside, got, put)" and en: "counter_enabled chans w me Release ((s, idle), b, inside, got, put)"
    and z: "count b + 1 \<noteq> 0"
  shows "\<exists>c' Q'. counter_exec acq again rel me Release ((s, idle), b, inside, got, put) = Some c' \<and> counter_inv chans w n Q' c'"
proof -
  have me: "me \<in> cpus s" "\<not> c_isidle s me" using en by simp_all
  note d = inv_cur [OF inv me] and i = inv [unfolded counter_inv_def prod.case]
  let ?k = "Wchan_lock w" and ?q = "Q (Wchan w)"
  obtain s1 s2 s3 Q' where s3: "spinlock_acquire me ?k s = Some s1" "wchan_wakeone me (wch b) ?k s1 = Some s2"
    "spinlock_release me ?k s2 = Some s3" "sys_inv chans Q' (s3, idle)" "moved {} {} (Q(Wchan w := List.tl ?q)) Q'" "stays {} s s3"
    using wakeone_kept [of chans Q s idle me w "wch b"] i me(1) by (auto simp: kept_def bind_eq_Some_conv)
  obtain b' where b': "rel me b s = Some (s3, b')" "count b' = count b + 1" "wch b' = wch b" "splk b' = splk b"
    using rel_wakes [of me b s s1 s2 s3] s3(1-3) z i by auto
  have q: "Q' (Wchan w) = List.tl ?q" "\<forall>v. v \<noteq> w \<longrightarrow> Q' (Wchan v) = Q (Wchan v)"
    using s3(5) by (simp_all add: moved_def)
  have inc: "unat (count b') = unat (count b) + 1" using z b'(2) by (metis unatSuc Suc_eq_plus1 add.commute)
  have "unat (count b) + 1 \<le> card (inside - set (List.tl ?q))" if ne: "List.tl ?q \<noteq> []"
  proof (cases ?q)
    case (Cons t ts)
    have "distinct ?q" using lists_inv_distinct [OF sched_invD(4) [OF d(1)], of "Wchan w"] i by (simp add: lids_def)
    then have e: "inside - set ts = insert t (inside - set ?q)" using Cons i by auto
    have "card (inside - set ts) = Suc (card (inside - set ?q))"
      unfolding e by (rule card_insert_disjoint) (use i Cons in auto)
    moreover have "unat (count b) \<le> card (inside - set ?q)" using i Cons by (simp del: list.set)
    ultimately show ?thesis by (simp only: Cons list.sel)
  qed (use ne in simp)
  moreover have "set (List.tl ?q) \<subseteq> inside" using i by (cases ?q) auto
  ultimately have "counter_inv chans w n Q' ((s3, idle), b', inside, got, put + 1)"
    using i s3(4,6) b'(3,4) inc q by (auto simp: counter_inv_def stays_def)
  then show ?thesis using b'(1) by auto
qed

lemma inv_other:
  assumes inv: "counter_inv chans w n Q ((s, idle), b, inside, got, put)" and en: "counter_enabled chans w me (Other op) ((s, idle), b, inside, got, put)"
  shows "\<exists>c' Q'. counter_exec acq again rel me (Other op) ((s, idle), b, inside, got, put) = Some c' \<and> counter_inv chans w n Q' c'"
proof -
  note i = inv [unfolded counter_inv_def prod.case]
  have en': "thr_enabled chans me op (s, idle)" and t: "w \<notin> touched op" and ex: "leaves me op s \<inter> inside = {}"
    using en i by (cases op; auto)+
  obtain c' Q' where c': "thr_exec me op (s, idle) = Some c'" "sys_inv chans Q' c'" "moved (touched op) (leaves me op s) Q Q'"
    "stays (leaves me op s) s (fst c')"
    using thr_exec_kept [OF conjunct1 [OF i] en'] unfolding kept_def fst_conv by blast
  have q: "Q' (Wchan w) = Q (Wchan w)" "\<forall>v. set (Q' (Wchan v)) \<subseteq> set (Q (Wchan v)) \<union> leaves me op s"
    using c'(3) t by (simp_all add: moved_def)
  have "inside \<inter> set (Q' (Wchan v)) = {}" if "v \<in> chans" "v \<noteq> w" for v
    using q(2) i that ex by blast
  moreover have "t \<in> t_live (fst c') \<and> t_proc (fst c') t \<noteq> None" if "t \<in> inside" for t
    using c'(4) i that ex unfolding stays_def fst_conv by blast
  ultimately have "counter_inv chans w n Q' (c', b, inside, got, put)"
    using i c'(2) q(1) by (simp add: counter_inv_def)
  then show ?thesis using c'(1) by auto
qed

lemma exec_inv:
  assumes "counter_inv chans w n Q (c, b, ins)" "counter_enabled chans w me op (c, b, ins)" "op = Release \<Longrightarrow> count b + 1 \<noteq> 0"
  shows "\<exists>c' Q'. counter_exec acq again rel me op (c, b, ins) = Some c' \<and> counter_inv chans w n Q' c'"
proof -
  obtain s idle inside got put where c: "c = (s, idle)" "ins = (inside, got, put)" by (metis surj_pair)
  show ?thesis
    using assms inv_sleep inv_take inv_release inv_other unfolding c by (cases op) metis+
qed

lemma reach_inv:
  assumes "counter_reach acq again rel chans w c0 c" "counter_inv chans w n Q c0"
  shows "\<exists>Q'. counter_inv chans w n Q' c"
  using assms
proof (induction rule: counter_reach.induct)
  case (run c me op c')
  obtain s idle b inside got put where c: "c = ((s, idle), b, inside, got, put)" by (metis surj_pair)
  have z: "count b + 1 \<noteq> 0" if "op = Release"
    using run.hyps(3) rel_wraps [of b me s] that unfolding c by auto
  obtain Q' where "counter_inv chans w n Q' ((s, idle), b, inside, got, put)"
    using run.IH run.prems unfolding c by blast
  from exec_inv [OF this run.hyps(2) [unfolded c] z] show ?case using run.hyps(3) unfolding c by auto
qed blast

text \<open>What holds in every state a system of threads reaches from one where no thread waits.\<close>

theorem no_lost_wakeup:
  assumes sys: "sys_inv chans Q c0" "w \<in> chans" "w \<noteq> 0" "Q (Wchan w) = []"
    and b: "wc_threads (wch b0) = Wchan w" "splk b0 = Wchan_lock w"
    and reach: "counter_reach acq again rel chans w (c0, b0, {}, 0, 0) ((s, idle), b, inside, got, put)"
  shows "unat (count b) + got = unat (count b0) + put"
    "\<exists>ws. tl_rep (lists s) (Wchan w) ws \<and> set ws \<subseteq> inside \<and>
       (ws \<noteq> [] \<and> count b \<noteq> 0 \<longrightarrow> (\<exists>t \<in> inside. \<exists>c \<in> cpus s. \<not> c_isidle s c \<and> curthread c s = t \<or>
          (\<exists>rs. tl_rep (lists s) (Runqueue c) rs \<and> t \<in> set rs)))"
    "counter_enabled chans w me op ((s, idle), b, inside, got, put) \<Longrightarrow> op = Release \<longrightarrow> count b + 1 \<noteq> 0 \<Longrightarrow>
      \<exists>c'. counter_exec acq again rel me op ((s, idle), b, inside, got, put) = Some c'"
proof -
  have "counter_inv chans w (unat (count b0)) Q (c0, b0, {}, 0, 0)"
    using sys b by (simp add: counter_inv_def)
  then obtain Q' where inv: "counter_inv chans w (unat (count b0)) Q' ((s, idle), b, inside, got, put)"
    using reach_inv [OF reach] by blast
  note i = inv [unfolded counter_inv_def prod.case]
  show "unat (count b) + got = unat (count b0) + put" using i by blast
  show "counter_enabled chans w me op ((s, idle), b, inside, got, put) \<Longrightarrow> op = Release \<longrightarrow> count b + 1 \<noteq> 0 \<Longrightarrow>
      \<exists>c'. counter_exec acq again rel me op ((s, idle), b, inside, got, put) = Some c'"
    using exec_inv [OF inv] by blast
  obtain me where sc: "sched_inv (Wchan ` chans) Q' {} me {} s" using i by (auto simp: sys_inv_def)
  note rep = lists_inv_rep [OF sched_invD(4) [OF sc]]
  have "\<exists>t \<in> inside. \<exists>c \<in> cpus s. \<not> c_isidle s c \<and> curthread c s = t \<or> t \<in> set (Q' (Runqueue c))"
    if "Q' (Wchan w) \<noteq> []" "count b \<noteq> 0"
  proof -
    have "0 < unat (count b)" using that(2) by (simp add: unat_gt_0)
    then have "inside - set (Q' (Wchan w)) \<noteq> {}" using i that(1) by (metis card.empty leD)
    then obtain t where t: "t \<in> inside" "t \<notin> set (Q' (Wchan w))" by blast
    then have live: "t \<in> t_live s" "t_proc s t \<noteq> None" using i by auto
    have "t \<notin> set (Q' (Wchan v))" if "v \<in> chans" for v using i t that by (cases "v = w") auto
    moreover have "t \<notin> set (Q' (Zombies c))" if "c \<in> cpus s" for c
      using sched_invD(9) [OF sc lids_mem(2) [OF that]] live(2) by auto
    ultimately have r: "\<exists>c \<in> cpus s. l = Runqueue c" if "l \<in> lids (Wchan ` chans) s" "t \<in> set (Q' l)" for l
      using that by (auto simp: lids_def)
    consider c where "c \<in> cpus s" "\<not> c_isidle s c" "curthread c s = t" | l where "l \<in> lids (Wchan ` chans) s" "t \<in> set (Q' l)"
      using sys_inv_places [OF conjunct1 [OF i] live(1)] by blast
    then show ?thesis using r t(1) by cases blast+
  qed
  then show "\<exists>ws. tl_rep (lists s) (Wchan w) ws \<and> set ws \<subseteq> inside \<and>
       (ws \<noteq> [] \<and> count b \<noteq> 0 \<longrightarrow> (\<exists>t \<in> inside. \<exists>c \<in> cpus s. \<not> c_isidle s c \<and> curthread c s = t \<or>
          (\<exists>rs. tl_rep (lists s) (Runqueue c) rs \<and> t \<in> set rs)))"
  proof (intro exI [of _ "Q' (Wchan w)"] conjI impI)
    show "tl_rep (lists s) (Wchan w) (Q' (Wchan w))" using i rep [of "Wchan w"] by (simp add: lids_def)
    show "set (Q' (Wchan w)) \<subseteq> inside" using i by simp
  qed (use rep [OF lids_mem(1)] in blast)
qed

end

interpretation sem: blocking_counter sem_P sem_P_again sem_V sem_count sem_wchan sem_lock
  by unfold_locales
    (auto simp: sem_P_def sem_P_again_def sem_P_loop_def sem_V_def wchan_sleep_return_def word_gt_0 kp_conv split: if_splits)

interpretation lck: blocking_counter lock_acquire lock_acquire_again lock_release lock_count lock_wchan lock_lock
  by unfold_locales
    (auto simp: lock_acquire_def lock_acquire_again_def lock_acquire_loop_def lock_release_def wchan_sleep_return_def word_gt_0
      kp_conv split: if_splits)

text \<open>C2: Semaphores conserve their count and lose no wakeup. In every state that any threads on any cpus can reach
  with \<^verbatim>\<open>P\<close>, \<^verbatim>\<open>V\<close> and everything else they do, the count plus the finished calls of \<^verbatim>\<open>P\<close> is the initial count plus the
  calls of \<^verbatim>\<open>V\<close>; if threads sleep on the semaphore while its count is positive, one of the threads inside \<^verbatim>\<open>P\<close> is
  running or on a run queue, on its way to take a unit; and every operation completes, \<^verbatim>\<open>V\<close> unless
  the count wraps around.\<close>

theorem semaphore_no_lost_wakeup:
  assumes "sys_inv chans Q c0" "w \<in> chans" "w \<noteq> 0" "Q (Wchan w) = []"
    and "wc_threads (sem_wchan sem0) = Wchan w" "sem_lock sem0 = Wchan_lock w"
    and "counter_reach sem_P sem_P_again sem_V chans w (c0, sem0, {}, 0, 0) ((s, idle), sem, inside, got, put)"
  shows "unat (sem_count sem) + got = unat (sem_count sem0) + put \<and>
    (\<exists>ws. tl_rep (lists s) (Wchan w) ws \<and> set ws \<subseteq> inside \<and>
       (ws \<noteq> [] \<and> sem_count sem \<noteq> 0 \<longrightarrow> (\<exists>t \<in> inside. \<exists>c \<in> cpus s. \<not> c_isidle s c \<and> curthread c s = t \<or>
          (\<exists>rs. tl_rep (lists s) (Runqueue c) rs \<and> t \<in> set rs)))) \<and>
    (\<forall>me op. counter_enabled chans w me op ((s, idle), sem, inside, got, put) \<longrightarrow>
       (op = Release \<longrightarrow> sem_count sem + 1 \<noteq> 0) \<longrightarrow>
       (\<exists>c'. counter_exec sem_P sem_P_again sem_V me op ((s, idle), sem, inside, got, put) = Some c'))"
  using sem.no_lost_wakeup [OF assms] by blast

lemma quiet_reach_one:
  assumes "counter_enabled chans w me op c0" "counter_exec acq again rel me op c0 = Some c1"
  shows "counter_reach acq again rel chans w c0 c1"
  using counter_reach.run [OF counter_reach.start assms] .

theorem semaphore_no_lost_wakeup_witness:
  "let sem0 = \<lparr>sem_name = ''s'', sem_wchan = chan 1, sem_lock = Wchan_lock 1, sem_count = 0\<rparr>;
       c0 = ((quiet_kern, \<lambda>_. IPL_HIGH), sem0, {}, 0, 0)
   in \<exists>s idle sem inside got put.
     counter_exec sem_P sem_P_again sem_V 0 Acquire c0 = Some ((s, idle), sem, inside, got, put) \<and>
     unat (sem_count sem) + got = put"
proof -
  define sem0 where "sem0 = \<lparr>sem_name = ''s'', sem_wchan = chan 1, sem_lock = Wchan_lock 1, sem_count = 0\<rparr>"
  define c0 where "c0 = ((quiet_kern, \<lambda>_ :: nat. IPL_HIGH), sem0, {} :: tid set, 0 :: nat, 0 :: nat)"
  have q: "c_isidle quiet_kern = (\<lambda>_. False)" "t_in_interrupt quiet_kern = (\<lambda>_. False)"
    by (simp_all only: quiet_kern_def kern.select_convs)
  have en: "counter_enabled {0, 1} 1 0 Acquire c0" by (simp add: c0_def quiet_cpus q)
  have pre: "(1 :: nat) \<in> {0, 1}" "(1 :: nat) \<noteq> 0" "(\<lambda>_. []) (Wchan 1) = ([] :: tid list)"
    "wc_threads (sem_wchan sem0) = Wchan 1" "sem_lock sem0 = Wchan_lock 1"
    by (simp_all add: sem0_def)
  note th = semaphore_no_lost_wakeup [OF quiet_sys pre]
  have "\<exists>c1. counter_exec sem_P sem_P_again sem_V 0 Acquire c0 = Some c1"
    using conjunct2 [OF conjunct2 [OF th [OF counter_reach.start]]] en unfolding c0_def by blast
  then obtain s idle sem inside got put where x: "counter_exec sem_P sem_P_again sem_V 0 Acquire c0 = Some ((s, idle), sem, inside, got, put)"
    by (metis surj_pair)
  have "unat (sem_count sem) + got = unat (sem_count sem0) + put"
    using conjunct1 [OF th [OF quiet_reach_one [OF en [unfolded c0_def] x [unfolded c0_def]]]] .
  then show ?thesis using x by (auto simp: Let_def c0_def sem0_def)
qed

text \<open>C3: Mutual exclusion: from a new lock, in every reachable state the number of finished acquisitions is at most
  one more than the number of releases, and the count of the lock is zero exactly if one acquisition is not
  yet matched, as long as there are no more releases than acquisitions.\<close>

theorem lock_mutual_exclusion:
  assumes "sys_inv chans Q c0" "w \<in> chans" "w \<noteq> 0" "Q (Wchan w) = []"
    and "wc_threads (lock_wchan lock0) = Wchan w" "lock_lock lock0 = Wchan_lock w" "lock_count lock0 = 1"
    and "counter_reach lock_acquire lock_acquire_again lock_release chans w (c0, lock0, {}, 0, 0) ((s, idle), lock, inside, got, put)"
  shows "got \<le> put + 1 \<and> (put \<le> got \<longrightarrow> lock_count lock = (if got = put + 1 then 0 else 1)) \<and>
    (\<exists>ws. tl_rep (lists s) (Wchan w) ws \<and> set ws \<subseteq> inside \<and>
       (ws \<noteq> [] \<and> lock_count lock \<noteq> 0 \<longrightarrow> (\<exists>t \<in> inside. \<exists>c \<in> cpus s. \<not> c_isidle s c \<and> curthread c s = t \<or>
          (\<exists>rs. tl_rep (lists s) (Runqueue c) rs \<and> t \<in> set rs))))"
proof -
  note th = lck.no_lost_wakeup [OF assms(1-6,8)]
  have n: "unat (lock_count lock) + got = 1 + put" using th(1) assms(7) by simp
  then have "got \<le> put + 1" by simp
  moreover have "lock_count lock = (if got = put + 1 then 0 else 1)" if "put \<le> got"
  proof -
    have "unat (lock_count lock) = 1 + put - got" using n by linarith
    then have "lock_count lock = of_nat (1 + put - got)" by (metis of_nat_unat ucast_id)
    moreover have "got = put \<or> got = put + 1" using n that by linarith
    ultimately show ?thesis by auto
  qed
  ultimately show ?thesis using th(2) by blast
qed

theorem lock_mutual_exclusion_witness:
  "let lock0 = \<lparr>lk_name = ''l'', lock_thread = 0, lock_wchan = chan 1, lock_lock = Wchan_lock 1, lock_count = 1\<rparr>;
       c0 = ((quiet_kern, \<lambda>_. IPL_HIGH), lock0, {}, 0, 0)
   in \<exists>s idle lock inside got put.
     counter_exec lock_acquire lock_acquire_again lock_release 2 Acquire c0 = Some ((s, idle), lock, inside, got, put) \<and>
     got \<le> put + 1"
proof -
  define lock0 where "lock0 = \<lparr>lk_name = ''l'', lock_thread = 0, lock_wchan = chan 1, lock_lock = Wchan_lock 1, lock_count = 1\<rparr>"
  define c0 where "c0 = ((quiet_kern, \<lambda>_ :: nat. IPL_HIGH), lock0, {} :: tid set, 0 :: nat, 0 :: nat)"
  have q: "c_isidle quiet_kern = (\<lambda>_. False)" "t_in_interrupt quiet_kern = (\<lambda>_. False)"
    by (simp_all only: quiet_kern_def kern.select_convs)
  have en: "counter_enabled {0, 1} 1 2 Acquire c0" by (simp add: c0_def quiet_cpus q)
  have pre: "(1 :: nat) \<in> {0, 1}" "(1 :: nat) \<noteq> 0" "(\<lambda>_. []) (Wchan 1) = ([] :: tid list)"
    "wc_threads (lock_wchan lock0) = Wchan 1" "lock_lock lock0 = Wchan_lock 1" "lock_count lock0 = 1"
    by (simp_all add: lock0_def)
  have "\<exists>c1. counter_exec lock_acquire lock_acquire_again lock_release 2 Acquire c0 = Some c1"
    using lck.no_lost_wakeup(3) [OF quiet_sys pre(1-5) counter_reach.start] en unfolding c0_def by blast
  then obtain s idle lock inside got put where
    x: "counter_exec lock_acquire lock_acquire_again lock_release 2 Acquire c0 = Some ((s, idle), lock, inside, got, put)"
    by (metis surj_pair)
  have "got \<le> put + 1"
    using conjunct1 [OF lock_mutual_exclusion [OF quiet_sys pre quiet_reach_one [OF en [unfolded c0_def] x [unfolded c0_def]]]] .
  then show ?thesis using x by (auto simp: Let_def c0_def lock0_def)
qed

lemma lock_acquire_free:
  assumes inv: "sched_inv W Q {} me {} s" and n: "lock_count lock \<noteq> 0" and i: "\<not> t_in_interrupt s (curthread me s)"
  shows "\<exists>s'. lock_acquire me lock s = Some (Done s', lock\<lparr>lock_count := lock_count lock - 1\<rparr>) \<and> sched_inv W Q {} me {} s' \<and>
    undisturbed s s'"
proof -
  let ?k = "lock_lock lock"
  have a: "spinlock_acquire me ?k s = Some (acquired me ?k s)" "sched_inv W Q {} me {?k} (acquired me ?k s)"
    using acquire_inv [OF inv, of ?k] by simp_all
  have "spinlock_release me ?k (acquired me ?k s) = Some (released me ?k (acquired me ?k s))"
    "sched_inv W Q {} me {} (released me ?k (acquired me ?k s))"
    using release_inv [OF a(2), of ?k] by simp_all
  then show ?thesis
    using a(1) n i undisturbed_trans [OF undisturbed_locks]
    by (auto simp: lock_acquire_def lock_acquire_loop_def word_gt_0 Let_def)
qed

text \<open>C22: \<^verbatim>\<open>lock_do_i_hold\<close> answers for the thread that created the lock instead of the one that holds it: after a
  thread other than the creator has acquired a new lock, the function returns false to the holder and true to
  the creator.\<close>

theorem lock_do_i_hold_creator:
  assumes "sched_inv W Q {} me {} s" "\<not> t_in_interrupt s (curthread me s)" "lock_count lock = 1"
    and "curthread me s \<noteq> lock_thread lock" "curthread c s = lock_thread lock"
  shows "\<exists>s' lock'. lock_acquire me lock s = Some (Done s', lock') \<and> \<not> lock_do_i_hold me lock' s' \<and> lock_do_i_hold c lock' s'"
proof -
  obtain s' where "lock_acquire me lock s = Some (Done s', lock\<lparr>lock_count := lock_count lock - 1\<rparr>)" "undisturbed s s'"
    using lock_acquire_free [OF assms(1) _ assms(2), of lock] assms(3) by auto
  then show ?thesis using assms(3-5) by (auto simp: lock_do_i_hold_def undisturbed_def)
qed

theorem lock_do_i_hold_creator_witness:
  "let lock0 = \<lparr>lk_name = ''l'', lock_thread = 0, lock_wchan = chan 1, lock_lock = Wchan_lock 1, lock_count = 1\<rparr>
   in \<exists>s' lock'. lock_acquire 2 lock0 quiet_kern = Some (Done s', lock') \<and> \<not> lock_do_i_hold 2 lock' s' \<and> lock_do_i_hold 0 lock' s'"
proof -
  have q: "t_in_interrupt quiet_kern = (\<lambda>_. False)" "c_curthread quiet_kern = (\<lambda>c. if c < 4 then c else 0)"
    by (simp_all only: quiet_kern_def kern.select_convs)
  have "sched_inv (Wchan ` {0, 1}) (\<lambda>_. []) {} 2 {} quiet_kern" using sched_inv_me [OF quiet_sched] quiet_cpus by simp
  from lock_do_i_hold_creator [OF this, of "\<lparr>lk_name = ''l'', lock_thread = 0, lock_wchan = chan 1, lock_lock = Wchan_lock 1, lock_count = 1\<rparr>" 0]
  show ?thesis by (simp add: q Let_def)
qed

text \<open>C24: \<^verbatim>\<open>lock_release\<close> does not ask who calls it. If a thread that never acquired it releases a new lock, the lock
  can be acquired twice: two cpus get it one after the other without waiting.\<close>

theorem lock_release_unheld:
  assumes "sys_inv chans Q (s, idle)" "me \<in> cpus s" "c \<in> cpus s" "w \<in> chans"
    and "\<not> t_in_interrupt s (curthread me s)" "\<not> t_in_interrupt s (curthread c s)"
    and "wc_threads (lock_wchan lock) = Wchan w" "lock_lock lock = Wchan_lock w" "lock_count lock = 1" "Q (Wchan w) = []"
  shows "\<exists>s1 l1 s2 l2 s3 l3. lock_release me lock s = Some (s1, l1) \<and> lock_acquire me l1 s1 = Some (Done s2, l2) \<and>
    lock_acquire c l2 s2 = Some (Done s3, l3)"
proof -
  let ?k = "Wchan_lock w"
  have inv: "sched_inv (Wchan ` chans) Q {} me {} s" using assms(1,2) sched_inv_me by (auto simp: sys_inv_def)
  note a = wchan_locked_inv [OF inv, of w]
  obtain s2 where s2: "wchan_wakeone me (lock_wchan lock) ?k (acquired me ?k s) = Some s2" "undisturbed (acquired me ?k s) s2"
    "sched_inv (Wchan ` chans) Q {} me {?k} s2"
    using wakeone_inv [OF a(2), of "lock_wchan lock" ?k] assms(4,7,10) by (auto simp: no_cpu_locks_def)
  let ?s1 = "released me ?k s2" and ?l1 = "lock\<lparr>lock_count := 2\<rparr>"
  have r: "spinlock_release me ?k s2 = Some ?s1" "sched_inv (Wchan ` chans) Q {} me {} ?s1"
    using release_inv [OF s2(3), of ?k] by simp_all
  have rel: "lock_release me lock s = Some (?s1, ?l1)"
    using a(1) s2(1) r(1) assms(8,9) by (simp add: lock_release_def Let_def)
  have u: "undisturbed s ?s1"
    using undisturbed_trans [OF undisturbed_trans [OF undisturbed_locks(1) s2(2)] undisturbed_locks(2)] .
  obtain s3 where s3: "lock_acquire me ?l1 ?s1 = Some (Done s3, ?l1\<lparr>lock_count := 1\<rparr>)" "sched_inv (Wchan ` chans) Q {} me {} s3" "undisturbed ?s1 s3"
    using lock_acquire_free [OF r(2), of ?l1] assms(5) u by (auto simp: undisturbed_def)
  note u3 = undisturbed_trans [OF u s3(3)]
  have "c \<in> cpus s3" using u3 assms(3) by (simp add: undisturbed_def cpus_def)
  then obtain s4 where "lock_acquire c (?l1\<lparr>lock_count := 1\<rparr>) s3 = Some (Done s4, ?l1\<lparr>lock_count := 1, lock_count := 0\<rparr>)"
    using lock_acquire_free [OF sched_inv_me [OF s3(2)], of c "?l1\<lparr>lock_count := 1\<rparr>"] assms(6) u3 by (auto simp: undisturbed_def)
  then show ?thesis using rel s3(1) by blast
qed

theorem lock_release_unheld_witness:
  "let lock0 = \<lparr>lk_name = ''l'', lock_thread = 0, lock_wchan = chan 1, lock_lock = Wchan_lock 1, lock_count = 1\<rparr>
   in \<exists>s1 l1 s2 l2 s3 l3. lock_release 3 lock0 quiet_kern = Some (s1, l1) \<and> lock_acquire 3 l1 s1 = Some (Done s2, l2) \<and>
    lock_acquire 2 l2 s2 = Some (Done s3, l3)"
proof -
  have q: "t_in_interrupt quiet_kern = (\<lambda>_. False)" by (simp only: quiet_kern_def kern.select_convs)
  show ?thesis
    unfolding Let_def by (rule lock_release_unheld [OF quiet_sys, of _ _ 1]) (simp_all add: q quiet_cpus)
qed

end
