(* ===== verification/Numlib.thy ===== *)
theory Numlib
  imports Prelude
begin

unbundle bit_operations_syntax

text \<open>
  Small numeric routines: the byte swapping functions of \<^verbatim>\<open>kern/lib/bswap.c\<close> and the arithmetic on times of
  \<^verbatim>\<open>kern/lib/time.c\<close>. The target is big-endian.
\<close>

subsection \<open>Byte order\<close>

definition bswap16 :: "u16 \<Rightarrow> u16" where
  "bswap16 val = push_bit 8 (val AND 0x00ff) OR drop_bit 8 (val AND 0xff00)"

definition bswap32 :: "u32 \<Rightarrow> u32" where
  "bswap32 val = push_bit 24 (val AND 0x000000ff) OR push_bit 8 (val AND 0x0000ff00)
     OR drop_bit 8 (val AND 0x00ff0000) OR drop_bit 24 (val AND 0xff000000)"

definition bswap64 :: "u64 \<Rightarrow> u64" where
  "bswap64 val = push_bit 56 (val AND 0x00000000000000ff) OR push_bit 40 (val AND 0x000000000000ff00)
     OR push_bit 24 (val AND 0x0000000000ff0000) OR push_bit 8 (val AND 0x00000000ff000000)
     OR push_bit 8 (val AND 0x000000ff00000000) OR push_bit 24 (val AND 0x0000ff0000000000)
     OR drop_bit 40 (val AND 0x00ff000000000000) OR drop_bit 56 (val AND 0xff00000000000000)"

definition ntohs :: "u16 \<Rightarrow> u16" where "ntohs val = val"
definition htons :: "u16 \<Rightarrow> u16" where "htons val = val"
definition ntohl :: "u32 \<Rightarrow> u32" where "ntohl val = val"
definition htonl :: "u32 \<Rightarrow> u32" where "htonl val = val"
definition ntohll :: "u64 \<Rightarrow> u64" where "ntohll val = val"
definition htonll :: "u64 \<Rightarrow> u64" where "htonll val = val"

definition join32to64 :: "u32 \<Rightarrow> u32 \<Rightarrow> u64" where
  "join32to64 x1 x2 = push_bit 32 (ucast x1) OR ucast x2"

definition split64to32 :: "u64 \<Rightarrow> u32 \<times> u32" where
  "split64to32 x = (ucast (drop_bit 32 x), ucast (x AND 0xffffffff))"

lemma bit_byte_mask: "bit (push_bit k (mask 8) :: 'a::len word) n \<longleftrightarrow> k \<le> n \<and> n < k + 8 \<and> n < LENGTH('a)"
  unfolding bit_push_bit_iff bit_mask_iff by auto

lemma byte_masks: "(0xff :: u16) = push_bit 0 (mask 8)" "(0xff00 :: u16) = push_bit 8 (mask 8)"
  "(0xff :: u32) = push_bit 0 (mask 8)" "(0xff00 :: u32) = push_bit 8 (mask 8)"
  "(0xff0000 :: u32) = push_bit 16 (mask 8)" "(0xff000000 :: u32) = push_bit 24 (mask 8)"
  by (simp_all add: mask_eq_exp_minus_1 push_bit_eq_mult)

lemma mask_bits: "bit (0xff :: u16) n \<longleftrightarrow> n < 8" "bit (0xff00 :: u16) n \<longleftrightarrow> 8 \<le> n \<and> n < 16"
  "bit (0xff :: u32) n \<longleftrightarrow> n < 8" "bit (0xff00 :: u32) n \<longleftrightarrow> 8 \<le> n \<and> n < 16"
  "bit (0xff0000 :: u32) n \<longleftrightarrow> 16 \<le> n \<and> n < 24" "bit (0xff000000 :: u32) n \<longleftrightarrow> 24 \<le> n \<and> n < 32"
  unfolding byte_masks bit_byte_mask by auto

lemmas bswap_bits = bswap16_def bswap32_def bit_or_iff bit_and_iff bit_push_bit_iff bit_drop_bit_eq comp_def mask_bits

lemma byte_index: "8 * k \<le> n \<Longrightarrow> n < 8 * k + 8 \<Longrightarrow> n div 8 = k \<and> n mod 8 = n - 8 * k" for n :: nat
proof -
  assume n: "8 * k \<le> n" "n < 8 * k + 8"
  then have "n div 8 = k" by (intro div_nat_eqI) simp_all
  then show ?thesis using minus_div_mult_eq_mod [of n 8] by (simp add: mult.commute)
qed

text \<open>Byte \<open>i\<close> of the result is byte \<open>3 - i\<close> of the argument.\<close>

lemma bit_bswap32: "n < 32 \<Longrightarrow> bit (bswap32 v) n \<longleftrightarrow> bit v (8 * (3 - n div 8) + n mod 8)"
proof -
  assume n: "n < 32"
  then consider "n < 8" | "8 \<le> n \<and> n < 16" | "16 \<le> n \<and> n < 24" | "24 \<le> n \<and> n < 32" by linarith
  then show ?thesis
  proof cases
    case 1
    then show ?thesis using byte_index [of 0 n] unfolding bswap_bits by auto
  next
    case 2
    then show ?thesis using byte_index [of 1 n] unfolding bswap_bits by auto
  next
    case 3
    then show ?thesis using byte_index [of 2 n] unfolding bswap_bits by auto
  next
    case 4
    then show ?thesis using byte_index [of 3 n] unfolding bswap_bits by auto
  qed
qed

lemma bit_bswap16: "n < 16 \<Longrightarrow> bit (bswap16 v) n \<longleftrightarrow> bit v (if n < 8 then n + 8 else n - 8)"
  unfolding bswap_bits by (auto simp: add.commute)

lemma low32: "x AND 0xffffffff = take_bit 32 x" for x :: u64
  by (simp add: take_bit_eq_mask mask_eq_exp_minus_1)




subsection \<open>Times\<close>

text \<open>\<^verbatim>\<open>tv_sec\<close> is a signed 64-bit and \<^verbatim>\<open>tv_nsec\<close> a signed 32-bit integer.\<close>

record timespec =
  tv_sec :: u64
  tv_nsec :: u32

definition timespec_add :: "timespec \<Rightarrow> timespec \<Rightarrow> timespec" where
  "timespec_add ts1 ts2 = (
     let ret = \<lparr>tv_sec = tv_sec ts1 + tv_sec ts2, tv_nsec = tv_nsec ts1 + tv_nsec ts2\<rparr> in
     if sint (tv_nsec ret) \<ge> 1000000000
     then ret\<lparr>tv_nsec := tv_nsec ret - 1000000000, tv_sec := tv_sec ret + 1\<rparr>
     else ret)"

definition timespec_sub :: "timespec \<Rightarrow> timespec \<Rightarrow> timespec" where
  "timespec_sub ts1 ts2 = (
     let r = (if sint (tv_nsec ts1) < sint (tv_nsec ts2)
              then ts1\<lparr>tv_nsec := tv_nsec ts1 + 1000000000, tv_sec := tv_sec ts1 - 1\<rparr>
              else ts1) in
     r\<lparr>tv_nsec := tv_nsec r - tv_nsec ts2, tv_sec := tv_sec r - tv_sec ts2\<rparr>)"

definition normal :: "timespec \<Rightarrow> bool" where
  "normal ts \<longleftrightarrow> unat (tv_nsec ts) < 1000000000"

lemma sint_small: "unat x < 2 ^ 31 \<Longrightarrow> sint x = int (unat x)" for x :: u32
proof -
  assume x: "unat x < 2 ^ 31"
  have "int (unat x) < int (2 ^ 31)" using x by (simp only: of_nat_less_iff)
  then have u: "uint x < 2 ^ 31" by simp
  have "- (2 ^ 31) \<le> uint x" by (rule order_trans [OF _ uint_ge_0]) simp
  then have "signed_take_bit 31 (uint x) = uint x" using u by (rule signed_take_bit_int_eq_self)
  then show ?thesis unfolding sint_uint by simp
qed

lemma sint_comparisons:
  fixes x y :: u32
  assumes "unat x < 2 ^ 31"
  shows "sint x \<ge> 1000000000 \<longleftrightarrow> unat x \<ge> 1000000000"
    and "unat y < 2 ^ 31 \<Longrightarrow> sint x < sint y \<longleftrightarrow> unat x < unat y"
  using assms sint_small [of x] sint_small [of y] by linarith+

lemma timespec_ext: "tv_sec a = tv_sec b \<Longrightarrow> tv_nsec a = tv_nsec b \<Longrightarrow> a = b" for a b :: timespec
  by (cases a; cases b) simp

text \<open>C21: On normalized times, whose nanoseconds lie below one second, \<^verbatim>\<open>timespec_add\<close> and \<^verbatim>\<open>timespec_sub\<close> give normalized
  results and undo each other, seconds modulo \<open>2^64\<close>.\<close>

theorem timespec_sub_add:
  assumes "normal a" "normal b"
  shows "normal (timespec_add a b) \<and> normal (timespec_sub a b) \<and>
    timespec_sub (timespec_add a b) b = a \<and> timespec_add (timespec_sub a b) b = a"
proof -
  let ?m = "unat (tv_nsec a)" and ?n = "unat (tv_nsec b)" and ?G = "1000000000 :: nat"
  have mn: "?m < ?G" "?n < ?G" using assms by (simp_all add: normal_def)
  have s: "unat (tv_nsec a + tv_nsec b) = ?m + ?n" using mn by (simp add: unat_word_ariths)
  have c: "sint (tv_nsec a + tv_nsec b) \<ge> 1000000000 \<longleftrightarrow> ?m + ?n \<ge> ?G"
    using sint_comparisons(1) [of "tv_nsec a + tv_nsec b"] mn s by simp
  have l: "sint (tv_nsec a) < sint (tv_nsec b) \<longleftrightarrow> ?m < ?n"
    by (rule sint_comparisons(2)) (use mn in simp_all)
  have "normal (timespec_add a b) \<and> timespec_sub (timespec_add a b) b = a"
  proof (cases "?m + ?n \<ge> ?G")
    case False
    have "\<not> sint (tv_nsec a + tv_nsec b) < sint (tv_nsec b)"
      by (subst sint_comparisons(2)) (use mn s in simp_all)
    then show ?thesis using False s by (simp add: timespec_add_def timespec_sub_def c normal_def Let_def timespec_ext)
  next
    case True
    have d: "unat (tv_nsec a + tv_nsec b - 1000000000) = ?m + ?n - ?G"
      using True by (simp add: unat_sub word_le_nat_alt s)
    have "sint (tv_nsec a + tv_nsec b - 1000000000) < sint (tv_nsec b)"
      by (subst sint_comparisons(2)) (use mn True d in simp_all)
    then show ?thesis
      using True mn d by (simp add: timespec_add_def timespec_sub_def c normal_def Let_def timespec_ext)
  qed
  moreover have "normal (timespec_sub a b) \<and> timespec_add (timespec_sub a b) b = a"
  proof (cases "?m < ?n")
    case True
    have d: "unat (tv_nsec a + 1000000000 - tv_nsec b) = ?m + ?G - ?n"
      using mn by (simp add: unat_sub word_le_nat_alt unat_word_ariths)
    have "unat (tv_nsec a + 1000000000) = ?m + ?G" using mn by (simp add: unat_word_ariths)
    then have "sint (tv_nsec a + 1000000000) \<ge> 1000000000"
      using sint_comparisons(1) [of "tv_nsec a + 1000000000"] mn by simp
    then show ?thesis
      using True mn d by (simp add: timespec_add_def timespec_sub_def l normal_def Let_def timespec_ext)
  next
    case False
    then have "unat (tv_nsec a - tv_nsec b) = ?m - ?n" by (simp add: unat_sub word_le_nat_alt)
    moreover have "\<not> sint (tv_nsec a) \<ge> 1000000000" using sint_comparisons(1) [of "tv_nsec a"] mn by simp
    ultimately show ?thesis
      using False mn by (simp add: timespec_add_def timespec_sub_def l normal_def Let_def timespec_ext)
  qed
  ultimately show ?thesis by blast
qed

theorem timespec_sub_add_witness:
  "timespec_sub (timespec_add \<lparr>tv_sec = 5, tv_nsec = 700000000\<rparr> \<lparr>tv_sec = 1, tv_nsec = 600000000\<rparr>) \<lparr>tv_sec = 1, tv_nsec = 600000000\<rparr> =
   \<lparr>tv_sec = 5, tv_nsec = 700000000\<rparr>"
  using timespec_sub_add [of "\<lparr>tv_sec = 5, tv_nsec = 700000000\<rparr>" "\<lparr>tv_sec = 1, tv_nsec = 600000000\<rparr>"] by (simp add: normal_def)

end
