(* ===== verification/Bitmap.thy ===== *)
theory Bitmap
  imports Prelude
begin

text \<open>
  The fixed-size array of bits of \<^verbatim>\<open>kern/lib/bitmap.c\<close>, which SFS uses as its free block map.
  The data lives in a byte array whose last byte may have surplus bits; \<open>bitmap_create\<close> marks
  these in use, so that \<open>bitmap_alloc\<close>, which scans bytes, never hands one out. The theory gives the
  operations, the invariant \<open>bitmap_wf\<close>, the set of marked bits \<open>marked\<close> as the abstract
  state, and the interface \<open>allocator\<close> that the clients of a bitmap rely on.
\<close>

subsection \<open>Data and operations\<close>

record bitmap =
  nbits :: u32
  v :: "u8 list"

definition BITS_PER_WORD :: u32 where "BITS_PER_WORD = 8"

definition WORD_ALLBITS :: u8 where "WORD_ALLBITS = 0xff"

text \<open>
  The loop that marks the leftover bits of the last byte. \<open>kmalloc1\<close> and \<open>kmalloc2\<close> say whether
  the two allocations (the structure and its bytes) succeed; the result \<open>Some None\<close> is
  \<^verbatim>\<open>NULL\<close>.
\<close>

function mark_over :: "nat \<Rightarrow> u8 \<Rightarrow> u8" where
  "mark_over j w = (if j < unat BITS_PER_WORD then mark_over (j + 1) (w OR push_bit j 1) else w)"
  by pat_completeness auto
termination
  by (relation "measure (\<lambda>(j, w). unat BITS_PER_WORD - j)") auto

declare mark_over.simps [simp del]

definition bitmap_create :: "bool \<Rightarrow> bool \<Rightarrow> u32 \<Rightarrow> bitmap option kp" where
  "bitmap_create kmalloc1 kmalloc2 n = (
    let words = DIVROUNDUP n BITS_PER_WORD in
    if \<not> kmalloc1 then Some None
    else if \<not> kmalloc2 then Some None
    else
      let vec = replicate (unat words) 0 in
      if n div BITS_PER_WORD < words then
        let ix = words - 1; overbits = n - ix * BITS_PER_WORD in
        do {
          kassert (n div BITS_PER_WORD = words - 1);
          kassert (0 < overbits \<and> overbits < BITS_PER_WORD);
          w \<leftarrow> rd vec (unat ix);
          vec' \<leftarrow> wr vec (unat ix) (mark_over (unat overbits) w);
          Some (Some \<lparr>nbits = n, v = vec'\<rparr>)
        }
      else Some (Some \<lparr>nbits = n, v = vec\<rparr>))"

definition bitmap_getdata :: "bitmap \<Rightarrow> u8 list" where
  "bitmap_getdata b = v b"

text \<open>The inner loop of \<open>bitmap_alloc\<close>: the lowest clear bit of a byte.\<close>

function clear_bit_from :: "u8 \<Rightarrow> nat \<Rightarrow> nat option" where
  "clear_bit_from w offset =
     (if offset < unat BITS_PER_WORD
      then if w AND push_bit offset 1 = 0 then Some offset else clear_bit_from w (offset + 1)
      else None)"
  by pat_completeness auto
termination
  by (relation "measure (\<lambda>(w, offset). unat BITS_PER_WORD - offset)") auto

declare clear_bit_from.simps [simp del]

text \<open>
  The outer loop, from byte \<open>ix\<close>. Falling out of the inner loop is the \<^verbatim>\<open>KASSERT(0)\<close>.
\<close>

function bitmap_alloc_from :: "bitmap \<Rightarrow> u32 \<Rightarrow> u32 \<Rightarrow> ((errno + u32) \<times> bitmap) kp" where
  "bitmap_alloc_from b maxix ix =
     (if ix < maxix then do {
        w \<leftarrow> rd (v b) (unat ix);
        if w \<noteq> WORD_ALLBITS then do {
          offset \<leftarrow> clear_bit_from w 0;
          vec \<leftarrow> wr (v b) (unat ix) (w OR push_bit offset 1);
          let index = ix * BITS_PER_WORD + of_nat offset;
          kassert (index < nbits b);
          Some (Inr index, b\<lparr>v := vec\<rparr>)
        } else bitmap_alloc_from b maxix (ix + 1)
      } else Some (Inl ENOSPC, b))"
  by pat_completeness auto
termination
proof (relation "measure (\<lambda>(b, maxix, ix). unat maxix - unat ix)")
  fix b :: bitmap and maxix ix :: u32
  assume "ix < maxix"
  then have "unat (ix + 1) = unat ix + 1" "unat ix < unat maxix"
    by (simp_all add: unat_plus_one_less word_less_nat_alt)
  then show "((b, maxix, ix + 1), b, maxix, ix) \<in> measure (\<lambda>(b, maxix, ix). unat maxix - unat ix)"
    by simp
qed simp

declare bitmap_alloc_from.simps [simp del]

definition bitmap_alloc :: "bitmap \<Rightarrow> ((errno + u32) \<times> bitmap) kp" where
  "bitmap_alloc b = bitmap_alloc_from b (DIVROUNDUP (nbits b) BITS_PER_WORD) 0"

definition bitmap_translate :: "u32 \<Rightarrow> u32 \<times> u8" where
  "bitmap_translate bitno = (bitno div BITS_PER_WORD, push_bit (unat (bitno mod BITS_PER_WORD)) 1)"

definition bitmap_mark :: "bitmap \<Rightarrow> u32 \<Rightarrow> bitmap kp" where
  "bitmap_mark b index = do {
     kassert (index < nbits b);
     let (ix, mask) = bitmap_translate index;
     w \<leftarrow> rd (v b) (unat ix);
     kassert (w AND mask = 0);
     vec \<leftarrow> wr (v b) (unat ix) (w OR mask);
     Some (b\<lparr>v := vec\<rparr>)
   }"

definition bitmap_unmark :: "bitmap \<Rightarrow> u32 \<Rightarrow> bitmap kp" where
  "bitmap_unmark b index = do {
     kassert (index < nbits b);
     let (ix, mask) = bitmap_translate index;
     w \<leftarrow> rd (v b) (unat ix);
     kassert (w AND mask \<noteq> 0);
     vec \<leftarrow> wr (v b) (unat ix) (w AND NOT mask);
     Some (b\<lparr>v := vec\<rparr>)
   }"

definition bitmap_isset :: "bitmap \<Rightarrow> u32 \<Rightarrow> u8 kp" where
  "bitmap_isset b index = do {
     let (ix, mask) = bitmap_translate index;
     w \<leftarrow> rd (v b) (unat ix);
     Some (w AND mask)
   }"

subsection \<open>Bits and bytes\<close>

declare BITS_PER_WORD_def [simp]

lemma clear_bit_from_Some:
  "clear_bit_from w k = Some j \<Longrightarrow>
     k \<le> j \<and> j < 8 \<and> \<not> bit w j \<and> (\<forall>i. k \<le> i \<longrightarrow> i < j \<longrightarrow> bit w i)"
proof (induction w k rule: clear_bit_from.induct)
  case (1 w k)
  note eq = clear_bit_from.simps [of w k]
  from 1 show ?case
    by (auto simp: eq Suc_le_eq split: if_splits) (metis le_neq_implies_less)
qed

lemma clear_bit_from_None: "clear_bit_from w k = None \<Longrightarrow> k \<le> i \<Longrightarrow> i < 8 \<Longrightarrow> bit w i"
proof (induction w k rule: clear_bit_from.induct)
  case (1 w k)
  note eq = clear_bit_from.simps [of w k]
  from 1 show ?case
    by (cases "i = k") (auto simp: eq split: if_splits)
qed

lemma all_bits_iff: "w = WORD_ALLBITS \<longleftrightarrow> (\<forall>i<8. bit w i)"
proof -
  have "bit WORD_ALLBITS i" if "i < 8" for i
    using that by (auto simp: WORD_ALLBITS_def numeral_eq_Suc less_Suc_eq)
  then show ?thesis
    by (auto simp: bit_eq_iff [of w] dest: bit_imp_le_length)
qed

lemma bit_mark_over: "bit (mark_over j w) i \<longleftrightarrow> bit w i \<or> (j \<le> i \<and> i < 8)"
proof (induction j w rule: mark_over.induct)
  case (1 j w)
  note eq = mark_over.simps [of j w]
  from 1 show ?case
    by (auto simp: eq)
qed

subsection \<open>The invariant and the set of marked bits\<close>

definition bit_at :: "bitmap \<Rightarrow> nat \<Rightarrow> bool" where
  "bit_at b i = bit (v b ! (i div 8)) (i mod 8)"

definition bitmap_wf :: "bitmap \<Rightarrow> bool" where
  "bitmap_wf b \<longleftrightarrow> unat (nbits b) + 7 < 2 ^ 32 \<and> length (v b) = (unat (nbits b) + 7) div 8 \<and>
     (\<forall>i < 8 * length (v b). unat (nbits b) \<le> i \<longrightarrow> bit_at b i)"

definition marked :: "bitmap \<Rightarrow> u32 set" where
  "marked b = {i. i < nbits b \<and> bit_at b (unat i)}"

definition bit_range :: "bitmap \<Rightarrow> u32 set" where
  "bit_range b = {i. i < nbits b}"

lemma bitmap_wf_words: "bitmap_wf b \<Longrightarrow> unat (DIVROUNDUP (nbits b) 8) = length (v b)"
  by (simp add: bitmap_wf_def unat_DIVROUNDUP)

lemma bitmap_wf_len: "bitmap_wf b \<Longrightarrow> i < unat (nbits b) \<Longrightarrow> i < 8 * length (v b)"
  by (simp add: bitmap_wf_def)

lemma bitmap_wf_leftover: "bitmap_wf b \<Longrightarrow> i < 8 * length (v b) \<Longrightarrow> \<not> bit_at b i \<Longrightarrow> i < unat (nbits b)"
  by (auto simp: bitmap_wf_def not_le [symmetric])

text \<open>Setting and clearing one bit, at the level of the bytes.\<close>

definition put_bit :: "bitmap \<Rightarrow> nat \<Rightarrow> bool \<Rightarrow> bitmap" where
  "put_bit b i x = b\<lparr>v := (v b)[i div 8 := (if x then v b ! (i div 8) OR 2 ^ (i mod 8)
                                         else v b ! (i div 8) AND NOT (2 ^ (i mod 8)))]\<rparr>"

lemma nbits_put_bit [simp]: "nbits (put_bit b i x) = nbits b"
  by (simp add: put_bit_def)

lemma length_put_bit [simp]: "length (v (put_bit b i x)) = length (v b)"
  by (simp add: put_bit_def)

lemma bit_at_put_bit:
  assumes "i < 8 * length (v b)"
  shows "bit_at (put_bit b i x) j = (if j = i then x else bit_at b j)"
proof -
  have "i div 8 < length (v b)"
    using assms by (simp add: less_mult_imp_div_less mult.commute)
  moreover have "j = i \<longleftrightarrow> j div 8 = i div 8 \<and> j mod 8 = i mod 8"
    by (metis div_mult_mod_eq)
  ultimately show ?thesis
    by (auto simp: bit_at_def put_bit_def nth_list_update)
qed

lemma bitmap_wf_put_bit:
  "bitmap_wf b \<Longrightarrow> i < unat (nbits b) \<Longrightarrow> bitmap_wf (put_bit b i x)"
  using bitmap_wf_len [of b i] by (auto simp: bitmap_wf_def bit_at_put_bit)

lemma marked_put_bit:
  assumes "bitmap_wf b" "i < nbits b"
  shows "marked (put_bit b (unat i) x) = (if x then insert i (marked b) else marked b - {i})"
  using assms bitmap_wf_len [of b "unat i"]
  by (auto simp: marked_def bit_at_put_bit word_less_nat_alt)

lemma translate_simp: "bitmap_translate i = (i div 8, 2 ^ (unat i mod 8))"
  by (simp add: bitmap_translate_def unat_mod)

lemma bitmap_mark_eq:
  assumes "bitmap_wf b" "i < nbits b"
  shows "bitmap_mark b i = (if i \<in> marked b then None else Some (put_bit b (unat i) True))"
  using assms bitmap_wf_len [of b "unat i"]
  by (auto simp: bitmap_mark_def translate_simp unat_div marked_def bit_at_def put_bit_def word_less_nat_alt
      less_mult_imp_div_less mult.commute)

lemma bitmap_unmark_eq:
  assumes "bitmap_wf b" "i < nbits b"
  shows "bitmap_unmark b i = (if i \<in> marked b then Some (put_bit b (unat i) False) else None)"
  using assms bitmap_wf_len [of b "unat i"]
  by (auto simp: bitmap_unmark_def translate_simp unat_div marked_def bit_at_def put_bit_def word_less_nat_alt
      less_mult_imp_div_less mult.commute)

lemma bitmap_isset_eq:
  assumes "bitmap_wf b" "i < nbits b"
  shows "\<exists>w. bitmap_isset b i = Some w \<and> (w \<noteq> 0 \<longleftrightarrow> i \<in> marked b)"
  using assms bitmap_wf_len [of b "unat i"]
  by (auto simp: bitmap_isset_def translate_simp unat_div marked_def bit_at_def word_less_nat_alt
      less_mult_imp_div_less mult.commute)

subsection \<open>Allocation takes the lowest clear bit\<close>

lemma byte_full_iff:
  "k < length (v b) \<Longrightarrow> v b ! k = WORD_ALLBITS \<longleftrightarrow> (\<forall>i. i div 8 = k \<longrightarrow> bit_at b i)"
proof -
  have "(\<forall>j<8. bit w j) \<longleftrightarrow> (\<forall>i. i div 8 = k \<longrightarrow> bit w (i mod 8))" for w :: u8
  proof
    assume *: "\<forall>i. i div 8 = k \<longrightarrow> bit w (i mod 8)"
    show "\<forall>j<8. bit w j"
    proof (intro allI impI)
      fix j :: nat assume "j < 8"
      then have "(8 * k + j) div 8 = k" "(8 * k + j) mod 8 = j" by simp_all
      with * show "bit w j" by metis
    qed
  qed auto
  then show ?thesis
    by (auto simp: all_bits_iff bit_at_def)
qed

lemma bitmap_alloc_from_full:
  assumes "\<forall>i < 8 * length (v b). bit_at b i" "unat maxix = length (v b)"
  shows "bitmap_alloc_from b maxix ix = Some (Inl ENOSPC, b)"
  using assms
proof (induction b maxix ix rule: bitmap_alloc_from.induct)
  case (1 b maxix ix)
  show ?case
  proof (cases "ix < maxix")
    case True
    then have l: "unat ix < length (v b)"
      using 1(3) by (simp add: word_less_nat_alt)
    then have "v b ! unat ix = WORD_ALLBITS"
      using 1(2) by (subst byte_full_iff) (auto simp: less_mult_imp_div_less div_less_iff_less_mult)
    with True l 1 show ?thesis
      by (subst bitmap_alloc_from.simps) simp
  qed (subst bitmap_alloc_from.simps, simp)
qed

lemma bitmap_alloc_from_free:
  assumes "bitmap_wf b" "unat maxix = length (v b)"
    and "k < 8 * length (v b)" "\<not> bit_at b k" "\<forall>i<k. bit_at b i" "unat ix \<le> k div 8"
  shows "bitmap_alloc_from b maxix ix = Some (Inr (of_nat k), put_bit b k True)"
  using assms
proof (induction b maxix ix rule: bitmap_alloc_from.induct)
  case (1 b maxix ix)
  have kd: "k div 8 < length (v b)"
    using 1(4) by (simp add: less_mult_imp_div_less mult.commute)
  then have lt: "ix < maxix" "unat ix < length (v b)"
    using 1(3,7) by (simp_all add: word_less_nat_alt)
  show ?case
  proof (cases "unat ix = k div 8")
    case True
    have kn: "k < unat (nbits b)"
      using bitmap_wf_leftover [OF 1(2,4,5)] .
    have nf: "v b ! unat ix \<noteq> WORD_ALLBITS"
      using 1(5) lt True by (auto simp: byte_full_iff)
    have cb: "clear_bit_from (v b ! unat ix) 0 = Some (k mod 8)"
    proof (cases "clear_bit_from (v b ! unat ix) 0")
      case None
      then have "bit (v b ! unat ix) (k mod 8)"
        by (rule clear_bit_from_None) simp_all
      then show ?thesis using 1(5) by (simp add: bit_at_def True)
    next
      case (Some j)
      then have j: "j < 8" "\<not> bit (v b ! unat ix) j" "\<forall>i<j. bit (v b ! unat ix) i"
        using clear_bit_from_Some [OF Some] by auto
      have "\<not> j < k mod 8"
      proof
        assume a: "j < k mod 8"
        have "8 * (k div 8) + j < k"
          using a by (metis add_less_cancel_left mult_div_mod_eq)
        then have "bit_at b (8 * (k div 8) + j)"
          using 1(6) by blast
        then show False using j(1,2) by (simp add: bit_at_def True)
      qed
      moreover have "\<not> k mod 8 < j"
        using j(3) 1(5) by (auto simp: bit_at_def True)
      ultimately show ?thesis using Some by simp
    qed
    have idx: "ix * 8 + of_nat (k mod 8) = of_nat k"
    proof -
      have "ix = of_nat (k div 8)" by (simp flip: True)
      then show ?thesis
        by (metis (no_types) div_mult_mod_eq of_nat_add of_nat_mult of_nat_numeral)
    qed
    have "unat (of_nat k :: u32) = k"
      using kn by (rule unat_of_nat_less)
    then have "(of_nat k :: u32) < nbits b"
      using kn by (simp add: word_less_nat_alt)
    then show ?thesis
      using lt nf cb
      by (subst bitmap_alloc_from.simps) (simp add: put_bit_def True idx del: of_nat_mod)
  next
    case False
    with 1(7) have less: "unat ix < k div 8" by simp
    have "v b ! unat ix = WORD_ALLBITS"
    proof (subst byte_full_iff [OF lt(2)], intro allI impI)
      fix i assume "i div 8 = unat ix"
      then have "i < k" using less by (metis div_le_mono leD not_le_imp_less)
      then show "bit_at b i" using 1(6) by blast
    qed
    moreover have "unat (ix + 1) \<le> k div 8"
      using less unat_plus_one_less [OF lt(1)] by simp
    ultimately show ?thesis
      using lt 1 by (subst bitmap_alloc_from.simps) simp
  qed
qed

lemma bitmap_alloc_full:
  assumes "bitmap_wf b" "marked b = bit_range b"
  shows "bitmap_alloc b = Some (Inl ENOSPC, b)"
proof -
  have "bit_at b i" if "i < 8 * length (v b)" for i
  proof (rule ccontr)
    assume n: "\<not> bit_at b i"
    have i: "i < unat (nbits b)" using bitmap_wf_leftover [OF assms(1) that n] .
    then have "of_nat i \<in> bit_range b"
      by (simp add: bit_range_def word_less_nat_alt unat_of_nat_less)
    then have "of_nat i \<in> marked b"
      using assms(2) by simp
    then show False
      using n by (simp add: marked_def unat_of_nat_less [OF i])
  qed
  then show ?thesis
    unfolding bitmap_alloc_def
    by (intro bitmap_alloc_from_full) (simp_all add: bitmap_wf_words assms(1))
qed

lemma bitmap_alloc_lowest:
  assumes "bitmap_wf b" "i \<in> bit_range b - marked b" "\<And>j. j \<in> bit_range b - marked b \<Longrightarrow> i \<le> j"
  shows "bitmap_alloc b = Some (Inr i, put_bit b (unat i) True)"
proof -
  have i: "unat i < unat (nbits b)" "\<not> bit_at b (unat i)"
    using assms(2) by (auto simp: bit_range_def marked_def word_less_nat_alt)
  have "bit_at b k" if "k < unat i" for k
  proof (rule ccontr)
    assume n: "\<not> bit_at b k"
    have k: "k < unat (nbits b)" using that i(1) by simp
    then have "of_nat k \<in> bit_range b - marked b"
      using n by (simp add: bit_range_def marked_def word_less_nat_alt unat_of_nat_less)
    then have "i \<le> of_nat k" by (rule assms(3))
    then show False
      using that by (simp add: word_le_nat_alt unat_of_nat_less [OF k])
  qed
  then have "bitmap_alloc_from b (DIVROUNDUP (nbits b) BITS_PER_WORD) 0
      = Some (Inr (of_nat (unat i)), put_bit b (unat i) True)"
    using i bitmap_wf_len [OF assms(1) i(1)] assms(1)
    by (intro bitmap_alloc_from_free) (simp_all add: bitmap_wf_words)
  then show ?thesis
    by (simp add: bitmap_alloc_def)
qed

lemma bitmap_alloc_cases:
  assumes "bitmap_wf b"
  obtains (full) "marked b = bit_range b" "bitmap_alloc b = Some (Inl ENOSPC, b)"
    | (found) i where "i \<in> bit_range b - marked b" "\<And>j. j \<in> bit_range b - marked b \<Longrightarrow> i \<le> j"
        "bitmap_alloc b = Some (Inr i, put_bit b (unat i) True)"
proof (cases "bit_range b - marked b = {}")
  case True
  then have "marked b = bit_range b"
    by (auto simp: marked_def bit_range_def)
  then show ?thesis using full bitmap_alloc_full [OF assms] by blast
next
  case False
  define i where "i = Min (bit_range b - marked b)"
  have "finite (bit_range b - marked b)" by simp
  with False have "i \<in> bit_range b - marked b"
    unfolding i_def by (metis Min_in)
  moreover have "i \<le> j" if "j \<in> bit_range b - marked b" for j
    using that unfolding i_def by (intro Min_le) simp_all
  ultimately show ?thesis using found bitmap_alloc_lowest [OF assms] by blast
qed

subsection \<open>Creation\<close>

lemma le_iff_div_mod: "i div 8 \<le> m div 8 \<Longrightarrow> (i div 8 = m div 8 \<and> m mod 8 \<le> i mod 8) = (m \<le> i)" for i m :: nat
proof -
  assume le: "i div 8 \<le> m div 8"
  define a r b s where "a = i div 8" "r = i mod 8" "b = m div 8" "s = m mod 8"
  have "i = 8 * a + r" "r < 8" "m = 8 * b + s" "s < 8" "a \<le> b"
    using le by (simp_all add: a_r_b_s_def)
  then show ?thesis
    unfolding a_r_b_s_def [symmetric] by (cases "a = b") auto
qed

lemma roundup_div8: "(m + 7) div 8 = (if m mod 8 = 0 then m div 8 else Suc (m div 8))" for m :: nat
proof -
  define q r where "q = m div 8" "r = m mod 8"
  then have m: "m = 8 * q + r" "r < 8" by simp_all
  show ?thesis
  proof (cases "r = 0")
    case False
    then have "m + 7 = 8 * Suc q + (r - 1)" "r - 1 < 8" using m by simp_all
    then have "(m + 7) div 8 = Suc q" by (metis div_mult_self4 div_less add_0_right zero_neq_numeral)
    then show ?thesis using False q_r_def by simp
  qed (use m in simp)
qed

lemma bitmap_create_wf:
  assumes "unat n + 7 < 2 ^ 32"
  shows "\<exists>b. bitmap_create True True n = Some (Some b) \<and> bitmap_wf b \<and> nbits b = n \<and> marked b = {}"
proof -
  define words where "words = DIVROUNDUP n 8"
  have uw: "unat words = (unat n + 7) div 8"
    using assms by (simp add: words_def unat_DIVROUNDUP)
  have over: "n div 8 < words \<longleftrightarrow> unat n mod 8 \<noteq> 0"
    by (simp add: word_less_nat_alt unat_div uw roundup_div8)
  show ?thesis
  proof (cases "unat n mod 8 = 0")
    case True
    then have "bitmap_create True True n = Some (Some \<lparr>nbits = n, v = replicate (unat words) 0\<rparr>)"
      using over by (simp add: bitmap_create_def words_def Let_def)
    moreover have "bitmap_wf \<lparr>nbits = n, v = replicate (unat words) 0\<rparr>"
      using assms True uw by (auto simp: bitmap_wf_def)
    moreover have "marked \<lparr>nbits = n, v = replicate (unat words) 0\<rparr> = {}"
      using uw by (auto simp: marked_def bit_at_def word_less_nat_alt less_mult_imp_div_less)
    ultimately show ?thesis by auto
  next
    case False
    then have w0: "0 < unat words" using uw by (simp add: roundup_div8)
    then have w1: "unat (words - 1) = unat words - 1"
      by (intro unat_minus_one) auto
    have d: "unat n div 8 = unat words - 1" using uw False by (simp add: roundup_div8)
    have idx: "n div 8 = words - 1"
      by (simp add: word_unat_eq_iff unat_div w1 d del: unat_eq_unat_iff)
    have ob: "n - n div 8 * 8 = n mod 8"
      by (rule minus_div_mult_eq_mod)
    define b where "b = \<lparr>nbits = n, v = (replicate (unat words) 0)[unat words - 1 := mark_over (unat n mod 8) 0]\<rparr>"
    have lb: "length (v b) = unat words" "nbits b = n" by (simp_all add: b_def)
    have m: "n mod 8 < 8" "0 < n mod 8"
      using False by (simp_all add: word_less_nat_alt unat_mod)
    have "bitmap_create True True n = Some (Some b)"
      using over False w0 w1 m
      by (simp add: b_def bitmap_create_def Let_def words_def [symmetric] idx [symmetric] ob unat_mod unat_div d)
    moreover have ba: "bit_at b i \<longleftrightarrow> unat n \<le> i" if "i < 8 * unat words" for i
    proof -
      have i: "i div 8 < unat words" "i div 8 \<le> unat n div 8"
        using that d w0 by (simp_all add: less_mult_imp_div_less mult.commute)
      have "bit_at b i \<longleftrightarrow> i div 8 = unat n div 8 \<and> unat n mod 8 \<le> i mod 8"
        using i w0 d by (auto simp: b_def bit_at_def nth_list_update bit_mark_over)
      also have "\<dots> \<longleftrightarrow> unat n \<le> i"
        using i(2) by (rule le_iff_div_mod)
      finally show ?thesis .
    qed
    moreover have "bitmap_wf b"
      using assms uw by (simp add: bitmap_wf_def ba lb)
    moreover have "marked b = {}"
    proof -
      have "i < 8 * unat words" if "i < unat n" for i
        using that uw by simp
      then show ?thesis
        by (auto simp: marked_def word_less_nat_alt ba lb)
    qed
    ultimately show ?thesis using lb by auto
  qed
qed

subsection \<open>The interface of an allocator\<close>

text \<open>
  What a client such as the SFS block allocator relies on: a pool of indices, the used ones among
  them, an allocation that hands out an unused index or reports \<open>ENOSPC\<close>, a release of a used
  index and a test.
\<close>

locale allocator =
  fixes alloc :: "'b \<Rightarrow> ((errno + 'i) \<times> 'b) kp"
    and release :: "'b \<Rightarrow> 'i \<Rightarrow> 'b kp"
    and isset :: "'b \<Rightarrow> 'i \<Rightarrow> u8 kp"
    and wf :: "'b \<Rightarrow> bool"
    and used :: "'b \<Rightarrow> 'i set"
    and pool :: "'b \<Rightarrow> 'i set"
  assumes used_in_pool: "wf b \<Longrightarrow> used b \<subseteq> pool b"
    and alloc_full: "wf b \<Longrightarrow> used b = pool b \<Longrightarrow> alloc b = Some (Inl ENOSPC, b)"
    and alloc_avail: "wf b \<Longrightarrow> used b \<noteq> pool b \<Longrightarrow>
      \<exists>i b'. alloc b = Some (Inr i, b') \<and> i \<in> pool b - used b \<and> wf b' \<and>
        used b' = insert i (used b) \<and> pool b' = pool b"
    and release_used: "wf b \<Longrightarrow> i \<in> used b \<Longrightarrow>
      \<exists>b'. release b i = Some b' \<and> wf b' \<and> used b' = used b - {i} \<and> pool b' = pool b"
    and isset_pool: "wf b \<Longrightarrow> i \<in> pool b \<Longrightarrow> \<exists>w. isset b i = Some w \<and> (w \<noteq> 0 \<longleftrightarrow> i \<in> used b)"
begin

lemma alloc_returns: "wf b \<Longrightarrow> \<exists>r b'. alloc b = Some (r, b')"
  using alloc_full alloc_avail by blast

lemma alloc_Inr:
  assumes "wf b" "alloc b = Some (Inr i, b')"
  shows "wf b'" "used b' = insert i (used b)" "pool b' = pool b" "i \<in> pool b" "i \<notin> used b"
  using alloc_full [of b] alloc_avail [of b] assms by fastforce+

lemma alloc_Inl:
  assumes "wf b" "alloc b = Some (Inl e, b')"
  shows "e = ENOSPC" "b' = b" "used b = pool b"
  using alloc_full [of b] alloc_avail [of b] assms by fastforce+

lemma alloc_isset:
  assumes "wf b" "alloc b = Some (Inr i, b')"
  shows "\<exists>w. isset b' i = Some w \<and> w \<noteq> 0"
  using alloc_Inr [OF assms] isset_pool [of b' i] by auto

lemma alloc_release:
  assumes "wf b" "alloc b = Some (Inr i, b')"
  shows "\<exists>b''. release b' i = Some b'' \<and> wf b'' \<and> used b'' = used b \<and> pool b'' = pool b"
  using alloc_Inr [OF assms] release_used [of b' i] by auto

lemma alloc_distinct:
  assumes "wf b" "alloc b = Some (Inr i, b1)" "alloc b1 = Some (Inr j, b2)"
  shows "i \<noteq> j"
  using alloc_Inr [OF assms(1,2)] alloc_Inr [OF _ assms(3)] by auto

lemma release_alloc:
  assumes "wf b" "i \<in> used b" "release b i = Some b'"
  shows "\<exists>j b''. alloc b' = Some (Inr j, b'') \<and> card (used b'') = card (used b)"
proof -
  have b': "wf b'" "used b' = used b - {i}" "pool b' = pool b"
    using release_used [OF assms(1,2)] assms(3) by auto
  have "used b' \<noteq> pool b'"
    using b' used_in_pool [OF assms(1)] assms(2) by blast
  then obtain j b'' where "alloc b' = Some (Inr j, b'')" "j \<notin> used b'" "used b'' = insert j (used b')"
    using alloc_avail [OF b'(1)] by auto
  moreover have "card (insert j (used b - {i})) = card (used b)" if "j \<notin> used b - {i}"
    using that assms(2) card.remove [of "used b" i] by (cases "finite (used b)") simp_all
  ultimately show ?thesis
    using b'(2) by auto
qed

end

interpretation bm: allocator bitmap_alloc bitmap_unmark bitmap_isset bitmap_wf marked bit_range
proof
  fix b assume wf: "bitmap_wf b"
  show "marked b \<subseteq> bit_range b"
    by (auto simp: marked_def bit_range_def)
  show "marked b = bit_range b \<Longrightarrow> bitmap_alloc b = Some (Inl ENOSPC, b)"
    by (rule bitmap_alloc_full [OF wf])
  show "\<exists>i b'. bitmap_alloc b = Some (Inr i, b') \<and> i \<in> bit_range b - marked b \<and> bitmap_wf b' \<and>
      marked b' = insert i (marked b) \<and> bit_range b' = bit_range b" if "marked b \<noteq> bit_range b"
    using that by (cases rule: bitmap_alloc_cases [OF wf])
      (auto simp: marked_put_bit [OF wf] bit_range_def word_less_nat_alt intro!: bitmap_wf_put_bit [OF wf])
  fix i
  show "\<exists>b'. bitmap_unmark b i = Some b' \<and> bitmap_wf b' \<and> marked b' = marked b - {i} \<and> bit_range b' = bit_range b"
    if "i \<in> marked b"
  proof -
    have "i < nbits b" using that by (simp add: marked_def)
    then show ?thesis
      using that bitmap_wf_put_bit [OF wf, of "unat i"]
      by (simp add: bitmap_unmark_eq [OF wf] marked_put_bit [OF wf] bit_range_def word_less_nat_alt)
  qed
  show "\<exists>w. bitmap_isset b i = Some w \<and> (w \<noteq> 0) = (i \<in> marked b)" if "i \<in> bit_range b"
    using bitmap_isset_eq [OF wf, of i] that by (simp add: bit_range_def)
qed

subsection \<open>Properties\<close>

text \<open>C14: on a well-formed bitmap \<open>bitmap_alloc\<close> never trips an assertion. It returns \<open>ENOSPC\<close> and
  leaves the bitmap alone exactly when every bit is marked; otherwise it hands out the lowest unmarked
  bit, marks that bit and no other, and keeps the bitmap well formed.\<close>

theorem bitmap_alloc_spec:
  assumes "bitmap_wf b"
  shows "(marked b = bit_range b \<and> bitmap_alloc b = Some (Inl ENOSPC, b)) \<or>
    (\<exists>i b'. bitmap_alloc b = Some (Inr i, b') \<and> i \<in> bit_range b - marked b \<and>
       (\<forall>j \<in> bit_range b - marked b. i \<le> j) \<and>
       bitmap_wf b' \<and> nbits b' = nbits b \<and> marked b' = insert i (marked b))"
proof (cases rule: bitmap_alloc_cases [OF assms])
  case (2 i)
  note found = this
  then have "i < nbits b" by (simp add: bit_range_def)
  then show ?thesis
    using found bitmap_wf_put_bit [OF assms, of "unat i" True]
    by (auto simp: marked_put_bit [OF assms] word_less_nat_alt)
qed blast

lemma bitmap_alloc_spec_witness:
  "bitmap_wf \<lparr>nbits = 10, v = [0xff, 0xfd]\<rparr> \<and>
   bitmap_alloc \<lparr>nbits = 10, v = [0xff, 0xfd]\<rparr> = Some (Inr 9, \<lparr>nbits = 10, v = [0xff, 0xff]\<rparr>) \<and>
   marked \<lparr>nbits = 10, v = [0xff, 0xfd]\<rparr> \<noteq> bit_range \<lparr>nbits = 10, v = [0xff, 0xfd]\<rparr>"
proof -
  have wf: "bitmap_wf \<lparr>nbits = 10, v = [0xff, 0xfd]\<rparr>"
    unfolding bitmap_wf_def by (intro conjI) (simp, simp, code_simp)
  have al: "bitmap_alloc \<lparr>nbits = 10, v = [0xff, 0xfd]\<rparr> = Some (Inr 9, \<lparr>nbits = 10, v = [0xff, 0xff]\<rparr>)"
    by code_simp
  have "marked \<lparr>nbits = 10, v = [0xff, 0xfd]\<rparr> \<noteq> bit_range \<lparr>nbits = 10, v = [0xff, 0xfd]\<rparr>"
    using bitmap_alloc_spec [OF wf] al by fastforce
  with wf al show ?thesis by blast
qed



end
