(* ===== verification/Copyio.thy ===== *)
theory Copyio
  imports Prelude
begin

unbundle bit_operations_syntax

text \<open>
  Moving data between the kernel and user memory: \<^verbatim>\<open>kern/vm/copyinout.c\<close> and \<^verbatim>\<open>kern/lib/uio.c\<close>. Memory is a map
  from addresses to bytes. Which user addresses the virtual memory system cannot provide is the
  parameter \<open>fault\<close>; a fault ends a copy at the first such byte. A kernel buffer is the list of its
  bytes. The theorems show that user copies never touch an address of the kernel, and that
  \<^verbatim>\<open>uiomove\<close> transfers exactly the next bytes of the scattered buffers.
\<close>

type_synonym mem = "u32 \<Rightarrow> u8"

definition USERSPACETOP :: u32 where "USERSPACETOP = 0x80000000"

subsection \<open>Copies\<close>

text \<open>\<^verbatim>\<open>memcpy\<close> from and to an address, byte by byte, up to the first fault.\<close>

fun copy_from :: "(u32 \<Rightarrow> bool) \<Rightarrow> mem \<Rightarrow> u32 \<Rightarrow> nat \<Rightarrow> u8 list \<times> bool" where
  "copy_from fault mem a 0 = ([], False)"
| "copy_from fault mem a (Suc n) =
     (if fault a then ([], True)
      else case copy_from fault mem (a + 1) n of (bs, f) \<Rightarrow> (mem a # bs, f))"

fun copy_to :: "(u32 \<Rightarrow> bool) \<Rightarrow> mem \<Rightarrow> u32 \<Rightarrow> u8 list \<Rightarrow> mem \<times> bool" where
  "copy_to fault mem a [] = (mem, False)"
| "copy_to fault mem a (b # bs) =
     (if fault a then (mem, True) else copy_to fault (mem(a := b)) (a + 1) bs)"

definition copycheck :: "u32 \<Rightarrow> u32 \<Rightarrow> errno + u32" where
  "copycheck userptr len = (
     let bot = userptr; top = bot + len - 1 in
     if top < bot then Inl EFAULT
     else if bot \<ge> USERSPACETOP then Inl EFAULT
     else if top \<ge> USERSPACETOP then Inr (USERSPACETOP - bot)
     else Inr len)"

text \<open>\<open>dest\<close> is the kernel buffer, which a copy must not overrun.\<close>

definition copyin :: "(u32 \<Rightarrow> bool) \<Rightarrow> mem \<Rightarrow> u32 \<Rightarrow> u8 list \<Rightarrow> u32 \<Rightarrow> ((errno + unit) \<times> u8 list) kp" where
  "copyin fault mem usersrc dest len =
     (case copycheck usersrc len of
        Inl e \<Rightarrow> Some (Inl e, dest)
      | Inr stoplen \<Rightarrow>
          if stoplen \<noteq> len then Some (Inl EFAULT, dest)
          else do {
            kassert (unat len \<le> length dest);
            let (bs, f) = copy_from fault mem usersrc (unat len);
            Some (if f then Inl EFAULT else Inr (), bs @ drop (length bs) dest)
          })"

definition copyout :: "(u32 \<Rightarrow> bool) \<Rightarrow> mem \<Rightarrow> u8 list \<Rightarrow> u32 \<Rightarrow> u32 \<Rightarrow> ((errno + unit) \<times> mem) kp" where
  "copyout fault mem src userdest len =
     (case copycheck userdest len of
        Inl e \<Rightarrow> Some (Inl e, mem)
      | Inr stoplen \<Rightarrow>
          if stoplen \<noteq> len then Some (Inl EFAULT, mem)
          else do {
            kassert (unat len \<le> length src);
            let (mem', f) = copy_to fault mem userdest (take (unat len) src);
            Some (if f then Inl EFAULT else Inr (), mem')
          })"

text \<open>\<^verbatim>\<open>copystr\<close> towards the kernel and towards the user: \<open>n\<close> bytes are left of the smaller of \<^verbatim>\<open>maxlen\<close> and
  \<^verbatim>\<open>stoplen\<close>, \<open>i\<close> have been copied. The result is the length with the terminating zero.\<close>

definition copystr_end :: "u32 \<Rightarrow> u32 \<Rightarrow> errno" where
  "copystr_end maxlen stoplen = (if stoplen < maxlen then EFAULT else ENAMETOOLONG)"

fun copystr_in :: "(u32 \<Rightarrow> bool) \<Rightarrow> mem \<Rightarrow> u32 \<Rightarrow> u32 \<Rightarrow> u32 \<Rightarrow> nat \<Rightarrow> nat \<Rightarrow> u8 list \<Rightarrow> ((errno + nat) \<times> u8 list) kp" where
  "copystr_in fault mem a maxlen stoplen 0 i dest = Some (Inl (copystr_end maxlen stoplen), dest)"
| "copystr_in fault mem a maxlen stoplen (Suc n) i dest =
     (if fault (a + of_nat i) then Some (Inl EFAULT, dest)
      else do {
        dest' \<leftarrow> wr dest i (mem (a + of_nat i));
        if mem (a + of_nat i) = 0 then Some (Inr (i + 1), dest')
        else copystr_in fault mem a maxlen stoplen n (i + 1) dest'
      })"

definition copyinstr :: "(u32 \<Rightarrow> bool) \<Rightarrow> mem \<Rightarrow> u32 \<Rightarrow> u8 list \<Rightarrow> u32 \<Rightarrow> ((errno + nat) \<times> u8 list) kp" where
  "copyinstr fault mem usersrc dest len =
     (case copycheck usersrc len of
        Inl e \<Rightarrow> Some (Inl e, dest)
      | Inr stoplen \<Rightarrow> copystr_in fault mem usersrc len stoplen (min (unat len) (unat stoplen)) 0 dest)"

fun copystr_out :: "(u32 \<Rightarrow> bool) \<Rightarrow> u8 list \<Rightarrow> u32 \<Rightarrow> u32 \<Rightarrow> u32 \<Rightarrow> nat \<Rightarrow> nat \<Rightarrow> mem \<Rightarrow> ((errno + nat) \<times> mem) kp" where
  "copystr_out fault src a maxlen stoplen 0 i mem = Some (Inl (copystr_end maxlen stoplen), mem)"
| "copystr_out fault src a maxlen stoplen (Suc n) i mem =
     (if fault (a + of_nat i) then Some (Inl EFAULT, mem)
      else do {
        b \<leftarrow> rd src i;
        let mem' = mem(a + of_nat i := b);
        if b = 0 then Some (Inr (i + 1), mem')
        else copystr_out fault src a maxlen stoplen n (i + 1) mem'
      })"

definition copyoutstr :: "(u32 \<Rightarrow> bool) \<Rightarrow> mem \<Rightarrow> u8 list \<Rightarrow> u32 \<Rightarrow> u32 \<Rightarrow> ((errno + nat) \<times> mem) kp" where
  "copyoutstr fault mem src userdest len =
     (case copycheck userdest len of
        Inl e \<Rightarrow> Some (Inl e, mem)
      | Inr stoplen \<Rightarrow> copystr_out fault src userdest len stoplen (min (unat len) (unat stoplen)) 0 mem)"

subsection \<open>Scattered buffers\<close>

datatype uio_rw = UIO_READ | UIO_WRITE
datatype uio_seg = UIO_USERISPACE | UIO_USERSPACE | UIO_SYSSPACE

record iovec =
  iov_base :: u32
  iov_len :: u32

text \<open>\<^verbatim>\<open>uio_iovcnt\<close> is the length of the list of buffers; \<^verbatim>\<open>off_t\<close> values are integers, since they never come
  near the end of their 64 bits here.\<close>

record uio =
  uio_iov :: "iovec list"
  uio_offset :: int
  uio_resid :: u32
  uio_segflg :: uio_seg
  uio_rw :: uio_rw
  uio_space :: "nat option"

text \<open>One transfer of \<open>sz\<close> bytes between position \<open>pos\<close> of the kernel buffer and an address.\<close>

definition uio_transfer :: "(u32 \<Rightarrow> bool) \<Rightarrow> uio_seg \<Rightarrow> uio_rw \<Rightarrow> u8 list \<Rightarrow> nat \<Rightarrow> u32 \<Rightarrow> u32 \<Rightarrow> mem \<Rightarrow>
    ((errno + unit) \<times> u8 list \<times> mem) kp" where
  "uio_transfer fault seg rw buf pos base sz mem =
     (case seg of
        UIO_SYSSPACE \<Rightarrow> do {
          kassert (pos + unat sz \<le> length buf);
          (case rw of
             UIO_READ \<Rightarrow> Some (Inr (), buf, fst (copy_to (\<lambda>_. False) mem base (take (unat sz) (drop pos buf))))
           | UIO_WRITE \<Rightarrow>
               Some (Inr (), take pos buf @ fst (copy_from (\<lambda>_. False) mem base (unat sz)) @ drop (pos + unat sz) buf, mem))
        }
      | _ \<Rightarrow>
          (case rw of
             UIO_READ \<Rightarrow> do {
               (r, mem') \<leftarrow> copyout fault mem (drop pos buf) base sz;
               Some (r, buf, mem')
             }
           | UIO_WRITE \<Rightarrow> do {
               (r, rest) \<leftarrow> copyin fault mem base (drop pos buf) sz;
               Some (r, take pos buf @ rest, mem)
             }))"

function uiomove_loop :: "(u32 \<Rightarrow> bool) \<Rightarrow> u8 list \<Rightarrow> nat \<Rightarrow> u32 \<Rightarrow> uio \<Rightarrow> mem \<Rightarrow> ((errno + unit) \<times> u8 list \<times> uio \<times> mem) kp" where
  "uiomove_loop fault buf pos n u mem =
     (if n > 0 \<and> uio_resid u > 0 then
        (case uio_iov u of
           [] \<Rightarrow> None
         | iov # rest \<Rightarrow>
             let sz = (if iov_len iov > n then n else iov_len iov) in
             if sz = 0 then
               (if rest = [] then None else uiomove_loop fault buf pos n (u\<lparr>uio_iov := rest\<rparr>) mem)
             else
               (case uio_transfer fault (uio_segflg u) (uio_rw u) buf pos (iov_base iov) sz mem of
                  None \<Rightarrow> None
                | Some (Inl e, buf', mem') \<Rightarrow> Some (Inl e, buf', u, mem')
                | Some (Inr _, buf', mem') \<Rightarrow>
                    uiomove_loop fault buf' (pos + unat sz) (n - sz)
                      (u\<lparr>uio_iov := iov\<lparr>iov_base := iov_base iov + sz, iov_len := iov_len iov - sz\<rparr> # rest,
                         uio_resid := uio_resid u - sz, uio_offset := uio_offset u + uint sz\<rparr>) mem'))
      else Some (Inr (), buf, u, mem))"
  by pat_completeness auto

termination
proof (relation "measure (\<lambda>(fault, buf, pos, n, u, mem). unat n + length (uio_iov u))", goal_cases)
  case (3 fault buf pos n u mem iov rest sz a b c d e)
  then have "sz \<le> n" "0 < sz" by (auto simp: word_gt_0 split: if_splits)
  then have "unat (n - sz) = unat n - unat sz" "0 < unat sz" "unat sz \<le> unat n"
    by (simp_all add: unat_sub word_le_nat_alt unat_gt_0)
  then show ?case using 3 by simp
qed auto

text \<open>\<open>curas\<close> is the address space of the current process, \<^verbatim>\<open>proc_getas()\<close>.\<close>

definition uiomove :: "(u32 \<Rightarrow> bool) \<Rightarrow> nat option \<Rightarrow> u8 list \<Rightarrow> u32 \<Rightarrow> uio \<Rightarrow> mem \<Rightarrow> ((errno + unit) \<times> u8 list \<times> uio \<times> mem) kp" where
  "uiomove fault curas buf n u mem = do {
     (if uio_segflg u = UIO_SYSSPACE then kassert (uio_space u = None) else kassert (uio_space u = curas));
     uiomove_loop fault buf 0 n u mem
   }"

function uiomovezeros_loop :: "(u32 \<Rightarrow> bool) \<Rightarrow> nat option \<Rightarrow> u32 \<Rightarrow> uio \<Rightarrow> mem \<Rightarrow> ((errno + unit) \<times> uio \<times> mem) kp" where
  "uiomovezeros_loop fault curas n u mem =
     (if n > 0 then
        let amt = (if 16 > n then n else 16) in
        (case uiomove fault curas (replicate 16 0) amt u mem of
           None \<Rightarrow> None
         | Some (Inl e, _, u', mem') \<Rightarrow> Some (Inl e, u', mem')
         | Some (Inr _, _, u', mem') \<Rightarrow> uiomovezeros_loop fault curas (n - amt) u' mem')
      else Some (Inr (), u, mem))"
  by pat_completeness auto

termination
proof (relation "measure (\<lambda>(fault, curas, n, u, mem). unat n)", goal_cases)
  case (2 fault curas n u mem amt)
  then have "amt \<le> n" "0 < amt" by (auto simp: word_gt_0 split: if_splits)
  then have "unat (n - amt) = unat n - unat amt" "0 < unat amt" "unat amt \<le> unat n"
    by (simp_all add: unat_sub word_le_nat_alt unat_gt_0)
  then show ?case by simp
qed auto

definition uiomovezeros :: "(u32 \<Rightarrow> bool) \<Rightarrow> nat option \<Rightarrow> u32 \<Rightarrow> uio \<Rightarrow> mem \<Rightarrow> ((errno + unit) \<times> uio \<times> mem) kp" where
  "uiomovezeros fault curas n u mem = do {
     kassert (uio_rw u = UIO_READ);
     uiomovezeros_loop fault curas n u mem
   }"

definition uio_kinit :: "u32 \<Rightarrow> u32 \<Rightarrow> int \<Rightarrow> uio_rw \<Rightarrow> uio" where
  "uio_kinit kbuf len pos rw =
     \<lparr>uio_iov = [\<lparr>iov_base = kbuf, iov_len = len\<rparr>], uio_offset = pos, uio_resid = len, uio_segflg = UIO_SYSSPACE,
      uio_rw = rw, uio_space = None\<rparr>"

subsection \<open>Copies stay in user space\<close>

lemma copycheck_Inr:
  assumes "copycheck p len = Inr st"
  shows "unat p + unat st \<le> 2 ^ 31"
proof (cases "USERSPACETOP \<le> p + len - 1")
  case True
  then have "st = USERSPACETOP - p" "p < USERSPACETOP"
    using assms by (auto simp: copycheck_def Let_def not_le split: if_splits)
  then show ?thesis by (simp add: unat_sub word_le_nat_alt word_less_nat_alt USERSPACETOP_def)
next
  case False
  then have st: "st = len" "p \<le> p + len - 1" "p + len - 1 < USERSPACETOP"
    using assms by (auto simp: copycheck_def Let_def not_le not_less split: if_splits)
  have "len \<noteq> 0"
  proof
    assume "len = 0"
    then have "p = 0" using st(2) word_le_sub1 [of p] by (cases "p = 0") (auto simp: word_le_nat_alt unat_minus_one)
    with \<open>len = 0\<close> st(3) show False by (simp add: USERSPACETOP_def)
  qed
  moreover have "unat (p + (len - 1)) = unat p + unat (len - 1)"
    using st(2) by (metis add_diff_eq unat_plus_simple)
  ultimately show ?thesis
    using st by (simp add: word_less_nat_alt USERSPACETOP_def unat_minus_one add_diff_eq)
qed

lemma unat_add_of_nat: "unat a + i < 2 ^ 32 \<Longrightarrow> unat (a + of_nat i) = unat a + i" for a :: u32
  by (simp add: unat_word_ariths unat_of_nat)

lemma copy_to_frame: "(\<And>i. i < length bs \<Longrightarrow> x \<noteq> a + of_nat i) \<Longrightarrow> fst (copy_to fault mem a bs) x = mem x"
proof (induction bs arbitrary: mem a)
  case (Cons b bs)
  have "x \<noteq> a" using Cons.prems [of 0] by simp
  moreover have "fst (copy_to fault (mem(a := b)) (a + 1) bs) x = (mem(a := b)) x"
    by (rule Cons.IH) (use Cons.prems [of "Suc i" for i] in \<open>simp add: add.assoc\<close>)
  ultimately show ?case by simp
qed simp

lemma copy_from_cong:
  "(\<And>i. i < n \<Longrightarrow> mem (a + of_nat i) = mem' (a + of_nat i)) \<Longrightarrow> copy_from fault mem a n = copy_from fault mem' a n"
proof (induction n arbitrary: a)
  case (Suc n)
  have "mem a = mem' a" using Suc.prems [of 0] by simp
  moreover have "copy_from fault mem (a + 1) n = copy_from fault mem' (a + 1) n"
    by (rule Suc.IH) (use Suc.prems [of "Suc i" for i] in \<open>simp add: add.assoc\<close>)
  ultimately show ?case by simp
qed simp

text \<open>A copy that passed \<^verbatim>\<open>copycheck\<close> uses addresses below \<^const>\<open>USERSPACETOP\<close>.\<close>

lemma below_top:
  assumes "copycheck p len = Inr st" "i < unat st"
  shows "p + of_nat i < USERSPACETOP"
proof -
  have "unat p + i < 2 ^ 31" using copycheck_Inr [OF assms(1)] assms(2) by linarith
  then show ?thesis by (simp add: word_less_nat_alt unat_add_of_nat USERSPACETOP_def)
qed

lemma copystr_out_frame:
  assumes "copystr_out fault src p maxlen st n i mem = Some (r, mem')" "\<And>j. j < i + n \<Longrightarrow> x \<noteq> p + of_nat j"
  shows "mem' x = mem x"
  using assms
proof (induction n arbitrary: i mem)
  case (Suc n)
  have "x \<noteq> p + of_nat i" using Suc.prems(2) [of i] by simp
  then show ?case
    using Suc.prems Suc.IH [of "i + 1"] by (auto simp: kp_conv Let_def split: if_splits)
qed simp

lemma copystr_in_cong:
  assumes "\<And>j. j < i + n \<Longrightarrow> mem (p + of_nat j) = mem' (p + of_nat j)"
  shows "copystr_in fault mem p maxlen st n i dest = copystr_in fault mem' p maxlen st n i dest"
  using assms
proof (induction n arbitrary: i dest)
  case (Suc n)
  have "mem (p + of_nat i) = mem' (p + of_nat i)" using Suc.prems [of i] by simp
  moreover have "copystr_in fault mem p maxlen st n (i + 1) d = copystr_in fault mem' p maxlen st n (i + 1) d" for d
    using Suc.IH [of "i + 1" d] Suc.prems by simp
  ultimately show ?case by (cases "wr dest i (mem' (p + of_nat i))") simp_all
qed simp

text \<open>C4: The user copy functions are confined to user space, whatever pointers and lengths a process passes:
  \<^verbatim>\<open>copyout\<close> and \<^verbatim>\<open>copyoutstr\<close> change no byte at or above \<^verbatim>\<open>USERSPACETOP\<close>, and what \<^verbatim>\<open>copyin\<close> and \<^verbatim>\<open>copyinstr\<close> deliver does
  not depend on any such byte.\<close>

theorem user_copies_confined:
  "(\<forall>r mem'. copyout fault mem src p len = Some (r, mem') \<or>
      (\<exists>n. copyoutstr fault mem src p len = Some (n, mem')) \<longrightarrow> (\<forall>a \<ge> USERSPACETOP. mem' a = mem a)) \<and>
   ((\<forall>a < USERSPACETOP. mem a = umem a) \<longrightarrow>
      copyin fault mem p dest len = copyin fault umem p dest len \<and>
      copyinstr fault mem p dest len = copyinstr fault umem p dest len)"
proof (cases "copycheck p len")
  case (Inr st)
  note low = below_top [OF Inr]
  have out: "mem' a = mem a" if "copyout fault mem src p len = Some (r, mem')" "USERSPACETOP \<le> a" for r mem' a
  proof -
    have "fst (copy_to fault mem p (take (unat len) src)) a = mem a" if "st = len"
      using that low \<open>USERSPACETOP \<le> a\<close> by (intro copy_to_frame) (auto simp: not_le [symmetric])
    then show ?thesis using that(1) Inr by (auto simp: copyout_def split: if_splits prod.splits)
  qed
  have outstr: "mem' a = mem a" if "copyoutstr fault mem src p len = Some (n, mem')" "USERSPACETOP \<le> a" for n mem' a
    using that Inr low by (auto simp: copyoutstr_def not_le [symmetric] intro!: copystr_out_frame)
  have "copyin fault mem p dest len = copyin fault umem p dest len" if "\<forall>a < USERSPACETOP. mem a = umem a"
    using that low copy_from_cong [of "unat len" mem p umem fault] by (auto simp: copyin_def Inr)
  moreover have "copyinstr fault mem p dest len = copyinstr fault umem p dest len" if "\<forall>a < USERSPACETOP. mem a = umem a"
    using that low by (auto simp: copyinstr_def Inr intro!: copystr_in_cong)
  ultimately show ?thesis using out outstr by blast
qed (auto simp: copyout_def copyoutstr_def copyin_def copyinstr_def)

theorem user_copies_confined_witness:
  "(\<exists>mem'. copyout (\<lambda>_. False) (\<lambda>_. 5) [1, 2] 0x1000 2 = Some (Inr (), mem') \<and> mem' 0x80000000 = 5) \<and>
   copyinstr (\<lambda>_. False) (\<lambda>a. if a < USERSPACETOP then 7 else 0) 0x7ffffffe [0, 0, 0] 3 =
   copyinstr (\<lambda>_. False) (\<lambda>_. 7) 0x7ffffffe [0, 0, 0] 3"
proof
  note th = user_copies_confined [where fault = "\<lambda>_. False" and mem = "\<lambda>_. 5" and src = "[1, 2]" and p = "0x1000" and len = 2]
  have "\<exists>mem'. copyout (\<lambda>_. False) (\<lambda>_. 5) [1, 2] 0x1000 2 = Some (Inr (), mem')"
    by (simp add: copyout_def copycheck_def USERSPACETOP_def Let_def split: prod.splits)
  then show "\<exists>mem'. copyout (\<lambda>_. False) (\<lambda>_. 5) [1, 2] 0x1000 2 = Some (Inr (), mem') \<and> mem' 0x80000000 = 5"
    using th by (auto simp: USERSPACETOP_def)
  show "copyinstr (\<lambda>_. False) (\<lambda>a. if a < USERSPACETOP then 7 else 0) 0x7ffffffe [0, 0, 0] 3 =
   copyinstr (\<lambda>_. False) (\<lambda>_. 7) 0x7ffffffe [0, 0, 0] 3"
    by (rule conjunct2 [OF mp [OF conjunct2 [OF user_copies_confined]]]) simp
qed

text \<open>C26: Copying no bytes always fails: \<^verbatim>\<open>copycheck\<close> takes an empty region for one that wraps around, or for one that
  overlaps the kernel, so \<^verbatim>\<open>copyin\<close> and \<^verbatim>\<open>copyout\<close> of length zero return \<^verbatim>\<open>EFAULT\<close> for every pointer.\<close>

theorem copy_nothing_faults:
  "copyin fault mem p dest 0 = Some (Inl EFAULT, dest) \<and> copyout fault mem src p 0 = Some (Inl EFAULT, mem)"
proof -
  have "p - 1 < p" if "p \<noteq> 0" using that by (simp add: word_less_nat_alt unat_minus_one unat_gt_0)
  then show ?thesis by (cases "p = 0") (auto simp: copyin_def copyout_def copycheck_def USERSPACETOP_def Let_def)
qed

subsection \<open>Copying out and back in\<close>

definition addrs :: "u32 \<Rightarrow> nat \<Rightarrow> u32 list" where
  "addrs a n = map (\<lambda>i. a + of_nat i) [0..<n]"

definition mem_put :: "mem \<Rightarrow> u32 list \<Rightarrow> u8 list \<Rightarrow> mem" where
  "mem_put mem as bs = fold (\<lambda>(a, b) m. m(a := b)) (zip as bs) mem"

lemma addrs_0 [simp]: "addrs a 0 = []"
  by (simp add: addrs_def)

lemma addrs_Suc: "addrs a (Suc n) = a # addrs (a + 1) n"
  by (simp add: addrs_def upt_conv_Cons add.assoc flip: map_Suc_upt del: upt_Suc)

lemma length_addrs [simp]: "length (addrs a n) = n"
  by (simp add: addrs_def)

lemma addrs_add: "addrs a (m + n) = addrs a m @ addrs (a + of_nat m) n"
  by (induction m arbitrary: a) (simp_all add: addrs_Suc add.assoc)

lemma set_addrs: "set (addrs a n) = {a + of_nat i | i. i < n}"
  by (auto simp: addrs_def)

lemma copy_from_ok:
  "(\<forall>x \<in> set (addrs a n). \<not> fault x) \<Longrightarrow> copy_from fault mem a n = (map mem (addrs a n), False)"
  by (induction n arbitrary: a) (simp_all add: addrs_Suc)

lemma copy_to_ok:
  "(\<forall>x \<in> set (addrs a (length bs)). \<not> fault x) \<Longrightarrow> copy_to fault mem a bs = (mem_put mem (addrs a (length bs)) bs, False)"
  by (induction bs arbitrary: mem a) (simp_all add: addrs_Suc mem_put_def)

lemma copy_to_fault: "snd (copy_to fault mem a bs) \<longleftrightarrow> (\<exists>x \<in> set (addrs a (length bs)). fault x)"
  by (induction bs arbitrary: mem a) (auto simp: addrs_Suc)

lemma mem_put_other: "x \<notin> set as \<Longrightarrow> mem_put mem as bs x = mem x"
  by (induction as arbitrary: mem bs) (auto simp: mem_put_def zip_Cons1 split: list.splits)

lemma mem_put_read: "distinct as \<Longrightarrow> length as = length bs \<Longrightarrow> map (mem_put mem as bs) as = bs"
proof (induction as arbitrary: mem bs)
  case (Cons a as)
  then obtain b cs where bs: "bs = b # cs" by (cases bs) auto
  have e: "mem_put mem (a # as) (b # cs) = mem_put (mem(a := b)) as cs" by (simp add: mem_put_def)
  show ?case using Cons mem_put_other [of a as "mem(a := b)" cs] by (simp add: bs e)
qed simp

lemma distinct_addrs: "unat a + n \<le> 2 ^ 32 \<Longrightarrow> distinct (addrs a n)"
proof -
  assume n: "unat a + n \<le> 2 ^ 32"
  have "inj_on (\<lambda>i. a + of_nat i :: u32) {0..<n}"
  proof (rule inj_onI)
    fix i j assume ij: "i \<in> {0..<n}" "j \<in> {0..<n}" "a + of_nat i = a + of_nat j"
    have "unat (a + of_nat i) = unat a + i" "unat (a + of_nat j) = unat a + j"
      using ij(1,2) n by (auto intro: unat_add_of_nat)
    then show "i = j" using ij(3) by (metis add_left_cancel)
  qed
  then show ?thesis by (simp add: addrs_def distinct_map)
qed

text \<open>C18: What \<^verbatim>\<open>copyout\<close> has written, \<^verbatim>\<open>copyin\<close> reads back: if a copy of \<open>len\<close> bytes to a user address succeeds, a
  copy from there fills a kernel buffer with just these bytes.\<close>

theorem copyout_copyin:
  assumes "copyout fault mem src p len = Some (Inr (), mem')" "unat len \<le> length dest"
  shows "copyin fault mem' p dest len = Some (Inr (), take (unat len) src @ drop (unat len) dest)"
proof -
  let ?bs = "take (unat len) src"
  have c: "copycheck p len = Inr len" "unat len \<le> length src" "copy_to fault mem p ?bs = (mem', False)"
    using assms(1) by (auto simp: copyout_def split: sum.splits if_splits prod.splits)
  have n: "length ?bs = unat len" using c(2) by simp
  have nf: "\<forall>x \<in> set (addrs p (unat len)). \<not> fault x" using c(3) copy_to_fault [of fault mem p ?bs] by (simp only: n) auto
  have "mem' = mem_put mem (addrs p (unat len)) ?bs" using copy_to_ok [of p ?bs fault mem] nf c(3) by (simp only: n) simp
  moreover have "distinct (addrs p (unat len))" using copycheck_Inr [OF c(1)] by (intro distinct_addrs) simp
  ultimately have "map mem' (addrs p (unat len)) = ?bs" using mem_put_read n by (simp add: c(2))
  then show ?thesis using c(1,2) assms(2) copy_from_ok [OF nf, of mem'] by (simp add: copyin_def)
qed

theorem copyout_copyin_witness:
  "let mem' = snd (the (copyout (\<lambda>_. False) (\<lambda>_. 0) [1, 2, 3] 0x1000 3))
   in copyin (\<lambda>_. False) mem' 0x1000 [9, 9, 9, 9] 3 = Some (Inr (), [1, 2, 3, 9])"
proof -
  have "copyout (\<lambda>_. False) (\<lambda>_. 0) [1, 2, 3] 0x1000 3 =
      Some (Inr (), snd (the (copyout (\<lambda>_. False) (\<lambda>_. 0) [1, 2, 3] 0x1000 3)))"
    by (simp add: copyout_def copycheck_def USERSPACETOP_def Let_def)
  from copyout_copyin [OF this, of "[9, 9, 9, 9]"] show ?thesis by simp
qed
subsection \<open>What \<^verbatim>\<open>uiomove\<close> transfers\<close>

text \<open>The addresses of the scattered buffers, in order; a buffer in user space has to be accessible.\<close>

definition iov_addrs :: "iovec \<Rightarrow> u32 list" where
  "iov_addrs v = addrs (iov_base v) (unat (iov_len v))"

definition uio_addrs :: "uio \<Rightarrow> u32 list" where
  "uio_addrs u = concat (map iov_addrs (uio_iov u))"

definition iov_ok :: "(u32 \<Rightarrow> bool) \<Rightarrow> uio_seg \<Rightarrow> iovec \<Rightarrow> bool" where
  "iov_ok fault seg v \<longleftrightarrow> seg = UIO_SYSSPACE \<or>
     unat (iov_base v) + unat (iov_len v) \<le> 2 ^ 31 \<and> (\<forall>x \<in> set (iov_addrs v). \<not> fault x)"

definition uio_ok :: "(u32 \<Rightarrow> bool) \<Rightarrow> uio \<Rightarrow> bool" where
  "uio_ok fault u \<longleftrightarrow> (\<forall>v \<in> set (uio_iov u). iov_ok fault (uio_segflg u) v)"

lemma iov_advance:
  assumes "sz \<le> iov_len v"
  shows "iov_addrs v = addrs (iov_base v) (unat sz) @ iov_addrs (v\<lparr>iov_base := iov_base v + sz, iov_len := iov_len v - sz\<rparr>)"
    "iov_ok fault seg v \<Longrightarrow> iov_ok fault seg (v\<lparr>iov_base := iov_base v + sz, iov_len := iov_len v - sz\<rparr>)"
proof -
  have le: "unat sz \<le> unat (iov_len v)" "unat (iov_len v - sz) = unat (iov_len v) - unat sz"
    using assms by (simp_all add: word_le_nat_alt unat_sub)
  show split: "iov_addrs v = addrs (iov_base v) (unat sz) @ iov_addrs (v\<lparr>iov_base := iov_base v + sz, iov_len := iov_len v - sz\<rparr>)"
    using addrs_add [of "iov_base v" "unat sz" "unat (iov_len v) - unat sz"] le by (simp add: iov_addrs_def)
  assume ok: "iov_ok fault seg v"
  have "unat (iov_base v + sz) \<le> unat (iov_base v) + unat sz" by (simp add: unat_word_ariths)
  then show "iov_ok fault seg (v\<lparr>iov_base := iov_base v + sz, iov_len := iov_len v - sz\<rparr>)"
    using ok le split by (auto simp: iov_ok_def)
qed

lemma copycheck_ok:
  assumes "unat p + unat len \<le> 2 ^ 31" "0 < len"
  shows "copycheck p len = Inr len"
proof -
  have l: "0 < unat len" using assms(2) by (simp add: unat_gt_0 word_gt_0)
  then have "unat (p + (len - 1)) = unat p + (unat len - 1)"
    using assms by (simp add: unat_word_ariths(1) unat_minus_one word_gt_0)
  then show ?thesis
    using assms(1) l by (auto simp: copycheck_def Let_def word_le_nat_alt word_less_nat_alt USERSPACETOP_def add_diff_eq)
qed

definition put_result :: "uio_rw \<Rightarrow> u8 list \<Rightarrow> nat \<Rightarrow> u32 list \<Rightarrow> mem \<Rightarrow> u8 list \<times> mem" where
  "put_result rw buf pos as mem =
     (case rw of
        UIO_READ \<Rightarrow> (buf, mem_put mem as (take (length as) (drop pos buf)))
      | UIO_WRITE \<Rightarrow> (take pos buf @ map mem as @ drop (pos + length as) buf, mem))"

lemma transfer_ok:
  assumes "sz \<le> iov_len v" "0 < sz" "iov_ok fault seg v" "pos + unat sz \<le> length buf"
  shows "uio_transfer fault seg rw buf pos (iov_base v) sz mem =
    Some (Inr (), put_result rw buf pos (addrs (iov_base v) (unat sz)) mem)"
proof -
  let ?as = "addrs (iov_base v) (unat sz)"
  have n: "length (take (unat sz) (drop pos buf)) = unat sz" using assms(4) by simp
  show ?thesis
  proof (cases "seg = UIO_SYSSPACE")
    case True
    then show ?thesis
      using assms(4) copy_from_ok [of "iov_base v" "unat sz" "\<lambda>_. False" mem]
        copy_to_ok [of "iov_base v" "take (unat sz) (drop pos buf)" "\<lambda>_. False" mem] n
      by (cases rw) (simp_all add: uio_transfer_def put_result_def)
  next
    case False
    have "unat sz \<le> unat (iov_len v)" using assms(1) by (simp add: word_le_nat_alt)
    then have c: "copycheck (iov_base v) sz = Inr sz"
      using assms(2,3) False by (intro copycheck_ok) (auto simp: iov_ok_def)
    have nf: "\<forall>x \<in> set ?as. \<not> fault x"
      using assms(3) False iov_advance(1) [OF assms(1)] by (auto simp: iov_ok_def)
    have "copyin fault mem (iov_base v) (drop pos buf) sz = Some (Inr (), map mem ?as @ drop (pos + unat sz) buf)"
      using c nf assms(4) copy_from_ok [OF nf, of mem] by (simp add: copyin_def add.commute)
    moreover have "copyout fault mem (drop pos buf) (iov_base v) sz =
        Some (Inr (), mem_put mem ?as (take (unat sz) (drop pos buf)))"
      using c assms(4) copy_to_ok [of "iov_base v" "take (unat sz) (drop pos buf)" fault mem] nf n by (simp add: copyout_def)
    ultimately show ?thesis
      using False by (cases seg; cases rw) (simp_all add: uio_transfer_def put_result_def)
  qed
qed

lemma put_result_append:
  assumes "put_result rw buf pos as mem = (buf', mem')" "pos + length as + length bs \<le> length buf"
  shows "put_result rw buf' (pos + length as) bs mem' = put_result rw buf pos (as @ bs) mem" "length buf' = length buf"
proof -
  have z: "zip (as @ bs) (take (length as + length bs) (drop pos buf)) =
      zip as (take (length as) (drop pos buf)) @ zip bs (take (length bs) (drop (pos + length as) buf))"
    using assms(2) by (simp add: take_add add.commute)
  show "put_result rw buf' (pos + length as) bs mem' = put_result rw buf pos (as @ bs) mem"
  proof (cases rw)
    case UIO_READ
    then show ?thesis using assms(1) z by (auto simp: put_result_def mem_put_def)
  next
    case UIO_WRITE
    then have "buf' = take pos buf @ map mem as @ drop (pos + length as) buf" "mem' = mem" using assms(1) by (auto simp: put_result_def)
    moreover have "pos \<le> length buf" using assms(2) by simp
    ultimately show ?thesis using UIO_WRITE by (simp add: put_result_def min.absorb2 add.commute add.left_commute)
  qed
  show "length buf' = length buf"
  proof (cases rw)
    case UIO_WRITE
    then have "buf' = take pos buf @ map mem as @ drop (pos + length as) buf" using assms(1) by (auto simp: put_result_def)
    then show ?thesis using assms(2) by simp
  qed (use assms(1) in \<open>simp add: put_result_def\<close>)
qed

declare uiomove_loop.simps [simp del]

lemma uiomove_loop_spec:
  assumes "unat n \<le> length (uio_addrs u)" "n \<le> uio_resid u" "uio_ok fault u" "pos + unat n \<le> length buf"
  shows "\<exists>u' buf' mem'. uiomove_loop fault buf pos n u mem = Some (Inr (), buf', u', mem') \<and>
    (buf', mem') = put_result (uio_rw u) buf pos (take (unat n) (uio_addrs u)) mem \<and>
    uio_addrs u' = drop (unat n) (uio_addrs u) \<and> uio_resid u' = uio_resid u - n \<and> uio_offset u' = uio_offset u + uint n \<and>
    uio_segflg u' = uio_segflg u \<and> uio_rw u' = uio_rw u \<and> uio_space u' = uio_space u \<and> uio_ok fault u'"
  using assms
proof (induction fault buf pos n u mem rule: uiomove_loop.induct)
  case (1 fault buf pos n u mem)
  show ?case
  proof (cases "n = 0")
    case True
    then show ?thesis
      using "1.prems" by (auto simp: uiomove_loop.simps [of fault buf pos 0] put_result_def mem_put_def split: uio_rw.splits)
  next
    case False
    then have n: "0 < n" "0 < uio_resid u" using "1.prems"(2) by (auto simp: word_gt_0)
    then have "0 < unat n" by (simp add: unat_gt_0)
    then obtain v vs where v: "uio_iov u = v # vs" using "1.prems"(1) by (cases "uio_iov u") (auto simp: uio_addrs_def)
    define sz where "sz = (if iov_len v > n then n else iov_len v)"
    show ?thesis
    proof (cases "sz = 0")
      case True
      then have l: "iov_len v = 0" using False by (auto simp: sz_def split: if_splits)
      then have a: "uio_addrs (u\<lparr>uio_iov := vs\<rparr>) = uio_addrs u" by (simp add: uio_addrs_def v iov_addrs_def)
      have "vs \<noteq> []" using "1.prems"(1) \<open>0 < unat n\<close> l by (auto simp: uio_addrs_def v iov_addrs_def)
      then have e: "uiomove_loop fault buf pos n u mem = uiomove_loop fault buf pos n (u\<lparr>uio_iov := vs\<rparr>) mem"
        using n v l False by (simp add: uiomove_loop.simps [of fault buf pos n u])
      have ok: "uio_ok fault (u\<lparr>uio_iov := vs\<rparr>)" using "1.prems"(3) by (simp add: uio_ok_def v)
      from "1.IH"(1) [OF conjI [OF n] v sz_def True \<open>vs \<noteq> []\<close>] show ?thesis
        unfolding e using "1.prems" ok a by simp
    next
      case sz0: False
      have sz: "sz \<le> iov_len v" "sz \<le> n" "0 < sz" using sz0 by (auto simp: sz_def word_gt_0 not_less)
      then have sn: "unat sz \<le> unat n" "unat (n - sz) = unat n - unat sz" "unat sz \<le> unat (iov_len v)"
        by (simp_all add: word_le_nat_alt unat_sub)
      have ok: "iov_ok fault (uio_segflg u) v" using "1.prems"(3) by (simp add: uio_ok_def v)
      obtain b1 m1 where p: "put_result (uio_rw u) buf pos (addrs (iov_base v) (unat sz)) mem = (b1, m1)" by fastforce
      have t: "uio_transfer fault (uio_segflg u) (uio_rw u) buf pos (iov_base v) sz mem = Some (Inr (), b1, m1)"
        using transfer_ok [OF sz(1,3) ok] "1.prems"(4) sn(1) p by simp
      define u1 where "u1 = u\<lparr>uio_iov := v\<lparr>iov_base := iov_base v + sz, iov_len := iov_len v - sz\<rparr> # vs,
        uio_resid := uio_resid u - sz, uio_offset := uio_offset u + uint sz\<rparr>"
      have e: "uiomove_loop fault buf pos n u mem = uiomove_loop fault b1 (pos + unat sz) (n - sz) u1 m1"
        using n v t sz0 by (simp add: uiomove_loop.simps [of fault buf pos n u] sz_def u1_def Let_def)
      have a: "uio_addrs u = addrs (iov_base v) (unat sz) @ uio_addrs u1"
        using iov_advance(1) [OF sz(1)] by (simp add: uio_addrs_def v u1_def)
      have pa: "put_result (uio_rw u) b1 (pos + unat sz) as m1 = put_result (uio_rw u) buf pos (addrs (iov_base v) (unat sz) @ as) mem"
        "length b1 = length buf" if "length as \<le> unat n - unat sz" for as
        using put_result_append [OF p, of as] that "1.prems"(4) sn(1) by simp_all
      have ok1: "uio_ok fault u1" using "1.prems"(3) iov_advance(2) [OF sz(1) ok] by (simp add: uio_ok_def v u1_def)
      have r: "n - sz \<le> uio_resid u1" "uio_resid u1 - (n - sz) = uio_resid u - n"
        using "1.prems"(2) sz(2) by (simp_all add: u1_def word_le_nat_alt unat_sub order_trans [OF sz(2)] word_le_minus_mono_left)
      have o: "uint sz + uint (n - sz) = uint n" using sz(2) by (simp add: uint_sub_lem [THEN iffD1] word_le_def)
      have pre: "unat (n - sz) \<le> length (uio_addrs u1)" "pos + unat sz + unat (n - sz) \<le> length b1"
        using "1.prems"(1,4) sn a pa(2) [of "[]"] by simp_all
      obtain u' buf' mem' where "uiomove_loop fault b1 (pos + unat sz) (n - sz) u1 m1 = Some (Inr (), buf', u', mem')"
        "(buf', mem') = put_result (uio_rw u1) b1 (pos + unat sz) (take (unat (n - sz)) (uio_addrs u1)) m1"
        "uio_addrs u' = drop (unat (n - sz)) (uio_addrs u1)" "uio_resid u' = uio_resid u1 - (n - sz)"
        "uio_offset u' = uio_offset u1 + uint (n - sz)" "uio_segflg u' = uio_segflg u1" "uio_rw u' = uio_rw u1"
        "uio_space u' = uio_space u1" "uio_ok fault u'"
        using "1.IH"(2) [OF conjI [OF n] v sz_def sz0 t refl refl refl, folded u1_def, OF pre(1) r(1) ok1 pre(2)] by blast
      then show ?thesis
        unfolding e using pa(1) [of "take (unat n - unat sz) (uio_addrs u1)"] r(2) o sn
        by (intro exI [of _ u'] exI [of _ buf'] exI [of _ mem']) (simp add: a u1_def)
    qed
  qed
qed

text \<open>C13: \<^verbatim>\<open>uiomove\<close> of \<open>n\<close> bytes, with accessible buffers that have room for them, transfers exactly the next \<open>n\<close>
  bytes of the scattered buffers, across the boundaries between them: a read stores the first \<open>n\<close> bytes of the
  kernel buffer there and nothing else, a write fetches them into the kernel buffer. Offset and residue
  advance by \<open>n\<close>, and what is left describes the rest of the buffers, so that calls can be repeated.\<close>

theorem uiomove_transfers:
  assumes "unat n \<le> length (uio_addrs u)" "n \<le> uio_resid u" "uio_ok fault u" "unat n \<le> length buf"
    and "uio_space u = (if uio_segflg u = UIO_SYSSPACE then None else curas)"
  shows "\<exists>buf' u' mem'. uiomove fault curas buf n u mem = Some (Inr (), buf', u', mem') \<and>
    (case uio_rw u of
       UIO_READ \<Rightarrow> buf' = buf \<and> mem' = mem_put mem (take (unat n) (uio_addrs u)) (take (unat n) buf)
     | UIO_WRITE \<Rightarrow> buf' = map mem (take (unat n) (uio_addrs u)) @ drop (unat n) buf \<and> mem' = mem) \<and>
    uio_addrs u' = drop (unat n) (uio_addrs u) \<and> uio_resid u' = uio_resid u - n \<and> uio_offset u' = uio_offset u + uint n \<and>
    uio_segflg u' = uio_segflg u \<and> uio_rw u' = uio_rw u \<and> uio_space u' = uio_space u \<and> uio_ok fault u'"
proof -
  obtain u' buf' mem' where x: "uiomove_loop fault buf 0 n u mem = Some (Inr (), buf', u', mem')"
    "(buf', mem') = put_result (uio_rw u) buf 0 (take (unat n) (uio_addrs u)) mem"
    "uio_addrs u' = drop (unat n) (uio_addrs u)" "uio_resid u' = uio_resid u - n" "uio_offset u' = uio_offset u + uint n"
    "uio_segflg u' = uio_segflg u" "uio_rw u' = uio_rw u" "uio_space u' = uio_space u" "uio_ok fault u'"
    using uiomove_loop_spec [OF assms(1-3), of 0 buf mem] assms(4) by auto
  have "length (take (unat n) (uio_addrs u)) = unat n" using assms(1) by simp
  then have "case uio_rw u of
       UIO_READ \<Rightarrow> buf' = buf \<and> mem' = mem_put mem (take (unat n) (uio_addrs u)) (take (unat n) buf)
     | UIO_WRITE \<Rightarrow> buf' = map mem (take (unat n) (uio_addrs u)) @ drop (unat n) buf \<and> mem' = mem"
    using x(2) by (cases "uio_rw u") (simp_all add: put_result_def)
  then show ?thesis using x(1,3-9) assms(5) by (auto simp: uiomove_def)
qed

theorem uiomove_transfers_witness:
  "let u = \<lparr>uio_iov = [\<lparr>iov_base = 0x100, iov_len = 1\<rparr>, \<lparr>iov_base = 0x200, iov_len = 4\<rparr>], uio_offset = 512, uio_resid = 5,
       uio_segflg = UIO_USERSPACE, uio_rw = UIO_WRITE, uio_space = Some 7\<rparr>
   in \<exists>u' mem'. uiomove (\<lambda>_. False) (Some 7) [0, 0, 0] 3 u (\<lambda>a. if a = 0x100 then 8 else 9) = Some (Inr (), [8, 9, 9], u', mem') \<and>
     uio_offset u' = 515 \<and> uio_resid u' = 2"
proof -
  let ?u = "\<lparr>uio_iov = [\<lparr>iov_base = 0x100, iov_len = 1\<rparr>, \<lparr>iov_base = 0x200, iov_len = 4\<rparr>], uio_offset = 512, uio_resid = 5,
       uio_segflg = UIO_USERSPACE, uio_rw = UIO_WRITE, uio_space = Some 7\<rparr>"
  have a: "uio_addrs ?u = [0x100, 0x200, 0x201, 0x202, 0x203]"
    by (simp add: uio_addrs_def iov_addrs_def addrs_def upt_rec)
  show ?thesis
    using uiomove_transfers [of 3 ?u "\<lambda>_. False" "[0, 0, 0]" "Some 7" "\<lambda>a. if a = 0x100 then 8 else 9"]
    by (auto simp: a uio_ok_def iov_ok_def)
qed

end
