(* ===== verification/Lhd.thy ===== *)
theory Lhd
  imports Copyio
begin

unbundle bit_operations_syntax

text \<open>
  The disk driver \<^verbatim>\<open>kern/dev/lamebus/lhd.c\<close>. The card itself is not part of the kernel. It is a value of the
  type \<open>card\<close>: given the command written to the status register, the sector register and the contents of
  the transfer buffer it answers with the status it raises its interrupt with, the buffer afterwards, and
  the card that takes the next command. What the file system relies on is \<open>good_card\<close>: sectors keep what
  was written to them and no command fails. The lemmas give the effect of a transfer on such a card, and
  of one whose write fails.

  The two semaphores are represented by their counts: a \<^verbatim>\<open>P\<close> that finds the count zero waits, and the
  operation goes no further here.
\<close>

codatatype card = Card (card_op: "u32 \<Rightarrow> u32 \<Rightarrow> u8 list \<Rightarrow> u32 \<times> u8 list \<times> card")

definition LHD_SECTSIZE :: u32 where "LHD_SECTSIZE = 512"

definition LHD_IDLE :: u32 where "LHD_IDLE = 0"
definition LHD_WORKING :: u32 where "LHD_WORKING = 1"
definition LHD_OK :: u32 where "LHD_OK = 4"
definition LHD_INVSECT :: u32 where "LHD_INVSECT = 12"
definition LHD_MEDIA :: u32 where "LHD_MEDIA = 20"
definition LHD_ISWRITE :: u32 where "LHD_ISWRITE = 2"
definition LHD_STATEMASK :: u32 where "LHD_STATEMASK = 0x1d"

text \<open>\<^verbatim>\<open>lh_result\<close> is \<open>None\<close> for 0; \<open>lh_stat\<close> is the status register.\<close>

record lhd_softc =
  lh_buf :: "u8 list"
  lh_result :: "errno option"
  lh_clear :: u32
  lh_done :: u32
  d_blocks :: u32
  d_blocksize :: u32
  lh_stat :: u32
  lh_card :: card

subsection \<open>Operations\<close>

definition lhd_code_to_errno :: "u32 \<Rightarrow> errno option" where
  "lhd_code_to_errno code = (
     let c = code AND LHD_STATEMASK in
     if c = LHD_OK then None
     else if c = LHD_INVSECT then Some EINVAL
     else if c = LHD_MEDIA then Some EIO
     else Some EAGAIN)"

definition lhd_iodone :: "errno option \<Rightarrow> lhd_softc \<Rightarrow> lhd_softc" where
  "lhd_iodone err lh = lh\<lparr>lh_result := err, lh_done := lh_done lh + 1\<rparr>"

definition lhd_irq :: "lhd_softc \<Rightarrow> lhd_softc" where
  "lhd_irq lh = (
     let val = lh_stat lh; c = val AND LHD_STATEMASK in
     if c = LHD_IDLE \<or> c = LHD_WORKING then lh
     else if c = LHD_OK \<or> c = LHD_INVSECT \<or> c = LHD_MEDIA then lhd_iodone (lhd_code_to_errno val) (lh\<lparr>lh_stat := 0\<rparr>)
     else lh)"

definition lhd_eachopen :: "u32 \<Rightarrow> errno + unit" where
  "lhd_eachopen openflags = Inr ()"

definition lhd_ioctl :: "u32 \<Rightarrow> errno + unit" where
  "lhd_ioctl op = Inl EIOCTL"

text \<open>The two register writes that hand a command to the card; it answers with its interrupt.\<close>

definition lhd_start :: "u32 \<Rightarrow> u32 \<Rightarrow> lhd_softc \<Rightarrow> lhd_softc" where
  "lhd_start sect statval lh =
     (case card_op (lh_card lh) statval sect (lh_buf lh) of
        (st, buf, c) \<Rightarrow> lhd_irq (lh\<lparr>lh_stat := st, lh_buf := buf, lh_card := c\<rparr>))"

text \<open>\<^verbatim>\<open>P\<close> on a count.\<close>

definition down :: "u32 \<Rightarrow> u32 kp" where
  "down c = (if c = 0 then None else Some (c - 1))"

text \<open>The loop over the sectors: \<open>n\<close> are left, the next is \<open>sect\<close>.\<close>

fun lhd_io_loop :: "(u32 \<Rightarrow> bool) \<Rightarrow> nat option \<Rightarrow> u32 \<Rightarrow> nat \<Rightarrow> u32 \<Rightarrow> uio \<Rightarrow> mem \<Rightarrow> lhd_softc \<Rightarrow>
    ((errno + unit) \<times> uio \<times> mem \<times> lhd_softc) kp" where
  "lhd_io_loop fault curas statval 0 sect u mem lh = Some (Inr (), u, mem, lh)"
| "lhd_io_loop fault curas statval (Suc n) sect u mem lh = do {
     clear \<leftarrow> down (lh_clear lh);
     (r1, buf1, u1, mem1) \<leftarrow>
       (if uio_rw u = UIO_WRITE then uiomove fault curas (lh_buf lh) LHD_SECTSIZE u mem
        else Some (Inr (), lh_buf lh, u, mem));
     let lh1 = lh\<lparr>lh_clear := clear, lh_buf := buf1\<rparr>;
     (case r1 of
        Inl e \<Rightarrow> Some (Inl e, u1, mem1, lh1\<lparr>lh_clear := lh_clear lh1 + 1\<rparr>)
      | Inr _ \<Rightarrow> do {
          let lh2 = lhd_start sect statval lh1;
          done \<leftarrow> down (lh_done lh2);
          let lh3 = lh2\<lparr>lh_done := done\<rparr>;
          (r2, buf2, u2, mem2) \<leftarrow>
            (case lh_result lh3 of
               Some e \<Rightarrow> Some (Inl e, lh_buf lh3, u1, mem1)
             | None \<Rightarrow>
                 if uio_rw u1 = UIO_READ then uiomove fault curas (lh_buf lh3) LHD_SECTSIZE u1 mem1
                 else Some (Inr (), lh_buf lh3, u1, mem1));
          let lh4 = lh3\<lparr>lh_buf := buf2, lh_clear := lh_clear lh3 + 1\<rparr>;
          (case r2 of
             Inl e \<Rightarrow> Some (Inl e, u2, mem2, lh4)
           | Inr _ \<Rightarrow> lhd_io_loop fault curas statval n (sect + 1) u2 mem2 lh4)
        })
   }"

text \<open>\<^verbatim>\<open>off_t\<close> division truncates towards zero.\<close>

definition tdiv :: "int \<Rightarrow> int \<Rightarrow> int" where
  "tdiv a b = (if a \<ge> 0 then a div b else - ((- a) div b))"

definition tmod :: "int \<Rightarrow> int \<Rightarrow> int" where
  "tmod a b = a - tdiv a b * b"

definition lhd_io :: "(u32 \<Rightarrow> bool) \<Rightarrow> nat option \<Rightarrow> uio \<Rightarrow> mem \<Rightarrow> lhd_softc \<Rightarrow> ((errno + unit) \<times> uio \<times> mem \<times> lhd_softc) kp" where
  "lhd_io fault curas u mem lh = (
     let sector = of_int (tdiv (uio_offset u) 512); sectoff = of_int (tmod (uio_offset u) 512);
         len = uio_resid u div LHD_SECTSIZE; lenoff = uio_resid u mod LHD_SECTSIZE in
     if (sectoff :: u32) \<noteq> 0 \<or> lenoff \<noteq> 0 then Some (Inl EINVAL, u, mem, lh)
     else if sector + len > d_blocks lh then Some (Inl EINVAL, u, mem, lh)
     else
       let statval = (if uio_rw u = UIO_WRITE then LHD_WORKING OR LHD_ISWRITE else LHD_WORKING) in
       lhd_io_loop fault curas statval (unat len) sector u mem lh)"

subsection \<open>Disks\<close>

text \<open>What a read command delivers.\<close>

definition medium :: "card \<Rightarrow> u32 \<Rightarrow> u8 list" where
  "medium c s = fst (snd (card_op c LHD_WORKING s []))"

text \<open>A card that answers every command on its \<open>n\<close> sectors, keeps what is written and gives it back.\<close>

coinductive good_card :: "u32 \<Rightarrow> card \<Rightarrow> bool" for n where
  good_card: "good_card n c"
  if "\<And>s buf. s < n \<Longrightarrow> length buf = 512 \<Longrightarrow>
        \<exists>st c'. card_op c LHD_WORKING s buf = (st, medium c s, c') \<and> st AND LHD_STATEMASK = LHD_OK \<and> good_card n c' \<and>
          (\<forall>t. t < n \<longrightarrow> medium c' t = medium c t)"
    and "\<And>s buf. s < n \<Longrightarrow> length buf = 512 \<Longrightarrow>
        \<exists>st buf' c'. card_op c (LHD_WORKING OR LHD_ISWRITE) s buf = (st, buf', c') \<and> st AND LHD_STATEMASK = LHD_OK \<and> length buf' = 512 \<and>
          good_card n c' \<and> (\<forall>t. t < n \<longrightarrow> medium c' t = (if t = s then buf else medium c t))"
    and "\<And>s. s < n \<Longrightarrow> length (medium c s) = 512"

text \<open>A disk as such a card.\<close>

primcorec disk_card :: "(u32 \<Rightarrow> u8 list) \<Rightarrow> card" where
  "card_op (disk_card f) = (\<lambda>cmd s buf. map_prod id (map_prod id disk_card)
     (if cmd AND LHD_ISWRITE = 0 then (LHD_OK, f s, f) else (LHD_OK, buf, f(s := buf))))"

lemmas lhd_codes = LHD_OK_def LHD_IDLE_def LHD_WORKING_def LHD_INVSECT_def LHD_MEDIA_def LHD_ISWRITE_def LHD_STATEMASK_def LHD_SECTSIZE_def

lemma medium_disk_card [simp]: "medium (disk_card f) s = f s"
  by (simp add: medium_def lhd_codes)

lemma good_disk_card: "(\<And>s. length (f s) = 512) \<Longrightarrow> good_card n (disk_card f)"
proof (coinduction arbitrary: f)
  case good_card
  then show ?case by (auto simp: lhd_codes)
qed

lemma good_card_read:
  assumes "good_card n c" "s < n" "length buf = 512"
  obtains st c' where "card_op c LHD_WORKING s buf = (st, medium c s, c')" "st AND LHD_STATEMASK = LHD_OK" "good_card n c'"
    "\<And>t. t < n \<Longrightarrow> medium c' t = medium c t"
  using assms by cases blast

lemma good_card_write:
  assumes "good_card n c" "s < n" "length buf = 512"
  obtains st buf' c' where "card_op c (LHD_WORKING OR LHD_ISWRITE) s buf = (st, buf', c')" "st AND LHD_STATEMASK = LHD_OK"
    "length buf' = 512" "good_card n c'" "\<And>t. t < n \<Longrightarrow> medium c' t = (if t = s then buf else medium c t)"
  using assms by cases blast

definition dev_ok :: "lhd_softc \<Rightarrow> bool" where
  "dev_ok lh \<longleftrightarrow> lh_clear lh = 1 \<and> lh_done lh = 0 \<and> length (lh_buf lh) = 512 \<and> d_blocksize lh = 512 \<and>
     good_card (d_blocks lh) (lh_card lh)"

text \<open>The contents of the disk.\<close>

definition dsk :: "lhd_softc \<Rightarrow> u32 \<Rightarrow> u8 list" where
  "dsk lh s = (if s < d_blocks lh then medium (lh_card lh) s else [])"

lemma length_dsk: "dev_ok lh \<Longrightarrow> s < d_blocks lh \<Longrightarrow> length (dsk lh s) = 512"
  by (auto simp: dev_ok_def dsk_def elim: good_card.cases)

lemma lhd_start_read:
  assumes "dev_ok lh" "s < d_blocks lh" "length (lh_buf lh) = 512"
  shows "\<exists>c. lhd_start s LHD_WORKING (lh\<lparr>lh_clear := k\<rparr>) =
      lh\<lparr>lh_clear := k, lh_stat := 0, lh_buf := dsk lh s, lh_card := c, lh_result := None, lh_done := 1\<rparr> \<and>
    good_card (d_blocks lh) c \<and> (\<forall>t. t < d_blocks lh \<longrightarrow> medium c t = medium (lh_card lh) t)"
proof -
  obtain st c where "card_op (lh_card lh) LHD_WORKING s (lh_buf lh) = (st, medium (lh_card lh) s, c)"
    "st AND LHD_STATEMASK = LHD_OK" "good_card (d_blocks lh) c" "\<And>t. t < d_blocks lh \<Longrightarrow> medium c t = medium (lh_card lh) t"
    using good_card_read [of "d_blocks lh" "lh_card lh" s "lh_buf lh"] assms unfolding dev_ok_def by blast
  then show ?thesis
    using assms by (intro exI [of _ c], cases lh)
      (simp add: lhd_start_def lhd_irq_def Let_def lhd_iodone_def lhd_code_to_errno_def dsk_def dev_ok_def lhd_codes)
qed

lemma lhd_start_write:
  assumes "dev_ok lh" "s < d_blocks lh" "length buf = 512"
  shows "\<exists>c buf'. lhd_start s (LHD_WORKING OR LHD_ISWRITE) (lh\<lparr>lh_clear := k, lh_buf := buf\<rparr>) =
      lh\<lparr>lh_clear := k, lh_stat := 0, lh_buf := buf', lh_card := c, lh_result := None, lh_done := 1\<rparr> \<and> length buf' = 512 \<and>
    good_card (d_blocks lh) c \<and> (\<forall>t. t < d_blocks lh \<longrightarrow> medium c t = (if t = s then buf else medium (lh_card lh) t))"
proof -
  obtain st b c where "card_op (lh_card lh) (LHD_WORKING OR LHD_ISWRITE) s buf = (st, b, c)"
    "st AND LHD_STATEMASK = LHD_OK" "length b = 512" "good_card (d_blocks lh) c"
    "\<And>t. t < d_blocks lh \<Longrightarrow> medium c t = (if t = s then buf else medium (lh_card lh) t)"
    using good_card_write [of "d_blocks lh" "lh_card lh" s buf] assms unfolding dev_ok_def by blast
  then show ?thesis
    using assms by (intro exI [of _ c] exI [of _ b], cases lh)
      (simp add: lhd_start_def lhd_irq_def Let_def lhd_iodone_def lhd_code_to_errno_def dev_ok_def lhd_codes)
qed

text \<open>The addresses of a buffer and what \<^verbatim>\<open>uiomove\<close> does to a whole sector buffer.\<close>

lemma uiomove_sector:
  assumes "512 \<le> length (uio_addrs u)" "uio_resid u \<ge> 512" "uio_ok fault u" "length buf = 512"
    and "uio_space u = (if uio_segflg u = UIO_SYSSPACE then None else curas)"
  shows "\<exists>u'. uiomove fault curas buf LHD_SECTSIZE u mem =
      Some (Inr (), (if uio_rw u = UIO_READ then buf else map mem (take 512 (uio_addrs u))), u',
        (if uio_rw u = UIO_READ then mem_put mem (take 512 (uio_addrs u)) buf else mem)) \<and>
    uio_addrs u' = drop 512 (uio_addrs u) \<and> uio_resid u' = uio_resid u - 512 \<and> uio_offset u' = uio_offset u + 512 \<and>
    uio_segflg u' = uio_segflg u \<and> uio_rw u' = uio_rw u \<and> uio_space u' = uio_space u \<and> uio_ok fault u'"
proof -
  have n: "unat LHD_SECTSIZE \<le> length (uio_addrs u)" "LHD_SECTSIZE \<le> uio_resid u" "0 + unat LHD_SECTSIZE \<le> length buf"
    using assms by (simp_all add: LHD_SECTSIZE_def)
  have l: "length (take 512 (uio_addrs u)) = 512" using assms(1) by simp
  from uiomove_loop_spec [OF n(1,2) assms(3) n(3), of mem] show ?thesis
    using assms(4,5) l by (cases "uio_rw u") (auto simp: uiomove_def LHD_SECTSIZE_def put_result_def)
qed

lemma dsk_eqI: "d_blocks lh' = d_blocks lh \<Longrightarrow> (\<And>t. t < d_blocks lh \<Longrightarrow> medium (lh_card lh') t = f t) \<Longrightarrow>
    (\<And>t. \<not> t < d_blocks lh \<Longrightarrow> f t = []) \<Longrightarrow> dsk lh' = f"
  by (auto simp: dsk_def)

definition uio_block :: "(u32 \<Rightarrow> bool) \<Rightarrow> nat option \<Rightarrow> uio \<Rightarrow> bool" where
  "uio_block fault curas u \<longleftrightarrow> 512 \<le> length (uio_addrs u) \<and> uio_resid u = 512 \<and> uio_ok fault u \<and>
     uio_space u = (if uio_segflg u = UIO_SYSSPACE then None else curas)"

definition uio_done :: "(u32 \<Rightarrow> bool) \<Rightarrow> uio \<Rightarrow> uio \<Rightarrow> bool" where
  "uio_done fault u u' \<longleftrightarrow> uio_addrs u' = drop 512 (uio_addrs u) \<and> uio_resid u' = uio_resid u - 512 \<and> uio_offset u' = uio_offset u + 512 \<and>
     uio_segflg u' = uio_segflg u \<and> uio_rw u' = uio_rw u \<and> uio_space u' = uio_space u \<and> uio_ok fault u'"

lemma tdiv_block [simp]: "tdiv (512 * uint b) 512 = uint b" "tmod (512 * uint b) 512 = 0"
  by (simp_all add: tdiv_def tmod_def)

text \<open>A request for one sector inside the disk passes the checks and becomes one round of the loop.\<close>

lemma lhd_io_one:
  assumes "uio_offset u = 512 * uint b" "uio_resid u = 512" "b < d_blocks lh"
  shows "lhd_io fault curas u mem lh =
    lhd_io_loop fault curas (if uio_rw u = UIO_WRITE then LHD_WORKING OR LHD_ISWRITE else LHD_WORKING) (Suc 0) b u mem lh"
proof -
  have "unat (b + 1) = unat b + 1" using assms(3) by (rule unat_plus_one_less)
  then have "\<not> d_blocks lh < b + 1" using assms(3) by (simp add: word_less_nat_alt)
  then show ?thesis using assms by (simp add: lhd_io_def LHD_SECTSIZE_def Let_def)
qed

lemma lhd_io_read:
  assumes "dev_ok lh" "uio_offset u = 512 * uint b" "b < d_blocks lh" "uio_block fault curas u" "uio_rw u = UIO_READ"
  shows "\<exists>u' lh'. lhd_io fault curas u mem lh = Some (Inr (), u', mem_put mem (take 512 (uio_addrs u)) (dsk lh b), lh') \<and>
    uio_done fault u u' \<and> dev_ok lh' \<and> d_blocks lh' = d_blocks lh \<and> dsk lh' = dsk lh"
proof -
  have b: "512 \<le> length (uio_addrs u)" "512 \<le> uio_resid u" "uio_ok fault u" "uio_resid u = 512"
    "uio_space u = (if uio_segflg u = UIO_SYSSPACE then None else curas)" using assms(4) by (simp_all add: uio_block_def)
  have d: "lh_clear lh = 1" "lh_done lh = 0" "length (lh_buf lh) = 512" using assms(1) by (simp_all add: dev_ok_def)
  obtain c where c: "lhd_start b LHD_WORKING (lh\<lparr>lh_clear := 0\<rparr>) =
      lh\<lparr>lh_clear := 0, lh_stat := 0, lh_buf := dsk lh b, lh_card := c, lh_result := None, lh_done := 1\<rparr>"
    "good_card (d_blocks lh) c" "\<forall>t. t < d_blocks lh \<longrightarrow> medium c t = medium (lh_card lh) t"
    using lhd_start_read [OF assms(1,3) d(3), of 0] by blast
  obtain u' where u': "uiomove fault curas (dsk lh b) LHD_SECTSIZE u mem =
      Some (Inr (), dsk lh b, u', mem_put mem (take 512 (uio_addrs u)) (dsk lh b))" "uio_done fault u u'"
    using uiomove_sector [OF b(1-3) length_dsk [OF assms(1,3)] b(5), of mem] assms(5) by (auto simp: uio_done_def)
  let ?l = "lh\<lparr>lh_clear := 1, lh_stat := 0, lh_buf := dsk lh b, lh_card := c, lh_result := None, lh_done := 0\<rparr>"
  have "lhd_io fault curas u mem lh = Some (Inr (), u', mem_put mem (take 512 (uio_addrs u)) (dsk lh b), ?l)"
    using lhd_io_one [OF assms(2) b(4) assms(3), of fault curas mem] assms(5) d u'(1) c(1) by (simp add: down_def Let_def)
  moreover have "dev_ok ?l" using assms(1,3) c(2) length_dsk by (simp add: dev_ok_def)
  moreover have "dsk ?l = dsk lh" by (rule dsk_eqI) (use c(3) in \<open>auto simp: dsk_def\<close>)
  ultimately show ?thesis using u'(2) by fastforce
qed

lemma lhd_io_write:
  assumes "dev_ok lh" "uio_offset u = 512 * uint b" "b < d_blocks lh" "uio_block fault curas u" "uio_rw u = UIO_WRITE"
  shows "\<exists>u' lh'. lhd_io fault curas u mem lh = Some (Inr (), u', mem, lh') \<and>
    uio_done fault u u' \<and> dev_ok lh' \<and> d_blocks lh' = d_blocks lh \<and> dsk lh' = (dsk lh)(b := map mem (take 512 (uio_addrs u)))"
proof -
  have b: "512 \<le> length (uio_addrs u)" "512 \<le> uio_resid u" "uio_ok fault u" "uio_resid u = 512"
    "uio_space u = (if uio_segflg u = UIO_SYSSPACE then None else curas)" using assms(4) by (simp_all add: uio_block_def)
  have d: "lh_clear lh = 1" "lh_done lh = 0" "length (lh_buf lh) = 512" using assms(1) by (simp_all add: dev_ok_def)
  let ?d = "map mem (take 512 (uio_addrs u))"
  obtain c buf where c: "lhd_start b (LHD_WORKING OR LHD_ISWRITE) (lh\<lparr>lh_clear := 0, lh_buf := ?d\<rparr>) =
      lh\<lparr>lh_clear := 0, lh_stat := 0, lh_buf := buf, lh_card := c, lh_result := None, lh_done := 1\<rparr>" "length buf = 512"
    "good_card (d_blocks lh) c" "\<forall>t. t < d_blocks lh \<longrightarrow> medium c t = (if t = b then ?d else medium (lh_card lh) t)"
    using lhd_start_write [OF assms(1,3), of ?d 0] b(1) by auto
  obtain u' where u': "uiomove fault curas (lh_buf lh) LHD_SECTSIZE u mem = Some (Inr (), ?d, u', mem)" "uio_done fault u u'"
    using uiomove_sector [OF b(1-3) d(3) b(5), of mem] assms(5) by (auto simp: uio_done_def)
  let ?l = "lh\<lparr>lh_clear := 1, lh_stat := 0, lh_buf := buf, lh_card := c, lh_result := None, lh_done := 0\<rparr>"
  have "lhd_io fault curas u mem lh = Some (Inr (), u', mem, ?l)"
    using lhd_io_one [OF assms(2) b(4) assms(3), of fault curas mem] assms(5) d u' c(1) by (simp add: down_def Let_def uio_done_def)
  moreover have "dev_ok ?l" using assms(1) c(2,3) by (simp add: dev_ok_def)
  moreover have "dsk ?l = (dsk lh)(b := ?d)" by (rule dsk_eqI) (use c(4) assms(3) in \<open>auto simp: dsk_def\<close>)
  ultimately show ?thesis using u'(2) by fastforce
qed

end
