(* ===== verification/Karray.thy ===== *)
theory Karray
  imports Prelude
begin

unbundle bit_operations_syntax

text \<open>
  The resizable arrays of \<^verbatim>\<open>kern/lib/array.c\<close> and \<^verbatim>\<open>kern/include/array.h\<close>. The block \<^verbatim>\<open>v\<close> is the list of its cells, of which
  the first \<^verbatim>\<open>num\<close> are in use. The theorems show that the operations are those of a list, and when the loop
  that doubles the capacity ends.
\<close>

record 'a array =
  arr_v :: "'a list"
  arr_num :: u32
  arr_max :: u32

subsection \<open>Operations\<close>

definition array_init :: "'a array" where
  "array_init = \<lparr>arr_v = [], arr_num = 0, arr_max = 0\<rparr>"

text \<open>\<open>mem\<close>: whether \<^verbatim>\<open>kmalloc\<close> has room for the structure.\<close>

definition array_create :: "bool \<Rightarrow> 'a array option" where
  "array_create mem = (if mem then Some array_init else None)"

definition array_cleanup :: "'a array \<Rightarrow> unit kp" where
  "array_cleanup a = kassert (arr_num a = 0)"

definition array_destroy :: "'a array \<Rightarrow> unit kp" where
  "array_destroy a = array_cleanup a"

definition array_num_of :: "'a array \<Rightarrow> u32" where
  "array_num_of a = arr_num a"

definition array_get :: "'a array \<Rightarrow> u32 \<Rightarrow> 'a kp" where
  "array_get a index = do {
     kassert (index < arr_num a);
     rd (arr_v a) (unat index)
   }"

definition array_set :: "'a array \<Rightarrow> u32 \<Rightarrow> 'a \<Rightarrow> 'a array kp" where
  "array_set a index val = do {
     kassert (index < arr_num a);
     v \<leftarrow> wr (arr_v a) (unat index) val;
     Some (a\<lparr>arr_v := v\<rparr>)
   }"

text \<open>The loop that finds the new capacity: for some arguments it never ends.\<close>

partial_function (option) grow :: "u32 \<Rightarrow> u32 \<Rightarrow> u32 kp" where
  "grow num newmax = (if num > newmax then grow num (if newmax \<noteq> 0 then newmax * 2 else 4) else Some newmax)"

text \<open>\<open>kmalloc\<close> maps a size in bytes to the cells of a new block, or \<open>None\<close>. Sizes are products of \<^verbatim>\<open>size_t\<close>, which
  wrap around; a copy must fit into both blocks.\<close>

definition array_preallocate :: "(u32 \<Rightarrow> 'a list option) \<Rightarrow> 'a array \<Rightarrow> u32 \<Rightarrow> ((errno + unit) \<times> 'a array) kp" where
  "array_preallocate kmalloc a num =
     (if num > arr_max a then do {
        newmax \<leftarrow> grow num (arr_max a);
        (case kmalloc (newmax * 4) of
           None \<Rightarrow> Some (Inl ENOMEM, a)
         | Some newptr \<Rightarrow> do {
             let n = unat (arr_num a * 4) div 4;
             kassert (n \<le> length newptr \<and> n \<le> length (arr_v a));
             Some (Inr (), a\<lparr>arr_v := take n (arr_v a) @ drop n newptr, arr_max := newmax\<rparr>)
           })
      }
      else Some (Inr (), a))"

definition array_setsize :: "(u32 \<Rightarrow> 'a list option) \<Rightarrow> 'a array \<Rightarrow> u32 \<Rightarrow> ((errno + unit) \<times> 'a array) kp" where
  "array_setsize kmalloc a num = do {
     (r, a1) \<leftarrow> array_preallocate kmalloc a num;
     (case r of
        Inl e \<Rightarrow> Some (Inl e, a1)
      | Inr _ \<Rightarrow> Some (Inr (), a1\<lparr>arr_num := num\<rparr>))
   }"

definition array_add :: "(u32 \<Rightarrow> 'a list option) \<Rightarrow> 'a array \<Rightarrow> 'a \<Rightarrow> ((errno + u32) \<times> 'a array) kp" where
  "array_add kmalloc a val = do {
     let index = arr_num a;
     (r, a1) \<leftarrow> array_setsize kmalloc a (index + 1);
     (case r of
        Inl e \<Rightarrow> Some (Inl e, a1)
      | Inr _ \<Rightarrow> do {
          v \<leftarrow> wr (arr_v a1) (unat index) val;
          Some (Inr index, a1\<lparr>arr_v := v\<rparr>)
        })
   }"

definition array_remove :: "'a array \<Rightarrow> u32 \<Rightarrow> 'a array kp" where
  "array_remove a index = do {
     kassert (arr_num a \<le> arr_max a);
     kassert (index < arr_num a);
     let num_to_move = arr_num a - (index + 1);
     let n = unat (num_to_move * 4) div 4;
     kassert (unat index + 1 + n \<le> length (arr_v a));
     Some (a\<lparr>arr_v := take (unat index) (arr_v a) @ take n (drop (unat index + 1) (arr_v a)) @ drop (unat index + n) (arr_v a),
            arr_num := arr_num a - 1\<rparr>)
   }"

subsection \<open>The doubling loop\<close>

lemma grow_step: "grow num newmax = (if num > newmax then grow num (if newmax \<noteq> 0 then newmax * 2 else 4) else Some newmax)"
  by (rule grow.simps)

lemma unat_double: "unat x < 2 ^ 31 \<Longrightarrow> unat (x * 2) = 2 * unat x" for x :: u32
  by (simp add: unat_word_ariths)

lemma grow_ends:
  assumes "unat num \<le> 2 ^ 31" "unat m \<le> 2 ^ 31"
  shows "\<exists>m'. grow num m = Some m' \<and> num \<le> m' \<and> (num \<le> m \<longrightarrow> m' = m) \<and> (m < num \<longrightarrow> unat m' < 2 * unat num \<or> unat m' = 4)"
  using assms
proof (induction "2 ^ 31 - unat m" arbitrary: m rule: less_induct)
  case less
  show ?case
  proof (cases "m < num")
    case False
    then have "grow num m = Some m" by (simp add: grow_step [of num m])
    then show ?thesis using False by auto
  next
    case True
    define m2 where "m2 = (if m \<noteq> 0 then m * 2 else 4)"
    have lt: "unat m < unat num" using True by (simp add: word_less_nat_alt)
    then have "unat m < 2 ^ 31" using less.prems(1) by linarith
    then have d: "unat m2 = (if m \<noteq> 0 then 2 * unat m else 4)" by (simp add: m2_def unat_double)
    have e: "grow num m = grow num m2" using True by (simp add: grow_step [of num m] m2_def)
    have small: "unat m2 < 2 * unat num \<or> unat m2 = 4" using d lt by auto
    show ?thesis
    proof (cases "m2 < num")
      case m2: True
      then have "unat m2 < 2 ^ 31" using less.prems(1) by (simp add: word_less_nat_alt)
      moreover have "unat m < unat m2" using d by (cases "m = 0") (simp_all add: unat_gt_0)
      ultimately have "2 ^ 31 - unat m2 < 2 ^ 31 - unat m" "unat m2 \<le> 2 ^ 31" by linarith+
      then obtain m' where "grow num m2 = Some m'" "num \<le> m'" "unat m' < 2 * unat num \<or> unat m' = 4"
        using less.hyps [of m2] less.prems m2 by blast
      then show ?thesis using e True by auto
    next
      case False
      then have "grow num m2 = Some m2" by (simp add: grow_step [of num m2])
      then show ?thesis using e small False True by auto
    qed
  qed
qed

text \<open>Capacities are 0 or a power of two from 4 up; past the last one the loop starts again.\<close>

definition capacities :: "u32 set" where
  "capacities = insert 0 ((\<lambda>k. 2 ^ k) ` {2..<32})"

lemma capacities_step:
  assumes "m \<in> capacities"
  shows "(if m \<noteq> 0 then m * 2 else 4) \<in> capacities"
proof (cases "m = 0")
  case True
  have "(4 :: u32) = 2 ^ 2" by simp
  then show ?thesis using True unfolding capacities_def by (auto intro!: image_eqI [of _ _ 2])
next
  case False
  then obtain k where k: "m = 2 ^ k" "2 \<le> k" "k < 32" using assms by (auto simp: capacities_def)
  then have "m * 2 = 2 ^ Suc k" by simp
  then show ?thesis using False k by (cases "k = 31") (auto simp: capacities_def intro!: image_eqI [of _ _ "Suc k"])
qed

lemma capacities_bound:
  assumes "m \<in> capacities"
  shows "unat m \<le> 2 ^ 31"
proof (cases "m = 0")
  case False
  then obtain k where k: "m = 2 ^ k" "k < 32" using assms by (auto simp: capacities_def)
  have "unat (of_nat (2 ^ k) :: u32) = 2 ^ k" using power_strict_increasing [OF k(2), of "2 :: nat"] by (intro unat_of_nat_id) simp
  then have "unat m = 2 ^ k" by (simp add: k(1))
  also have "(2 :: nat) ^ k \<le> 2 ^ 31" using k(2) by (intro power_increasing) simp_all
  finally show ?thesis .
qed simp

lemma grow_diverges:
  assumes "2 ^ 31 < unat num" "m \<in> capacities"
  shows "grow num m = None"
proof -
  have "\<not> (2 ^ 31 < unat num \<and> m \<in> capacities)" if "grow num m = Some r" for r
  proof (rule grow.raw_induct [where P = "\<lambda>num m r. \<not> (2 ^ 31 < unat num \<and> m \<in> capacities)", OF _ that])
    fix f num m r
    assume IH: "\<And>num m r. f num m = Some r \<Longrightarrow> \<not> (2 ^ 31 < unat num \<and> m \<in> capacities)"
      and eq: "(if num > m then f num (if m \<noteq> 0 then m * 2 else 4) else Some m) = Some r"
    show "\<not> (2 ^ 31 < unat num \<and> m \<in> capacities)"
    proof
      assume a: "2 ^ 31 < unat num \<and> m \<in> capacities"
      then have "m < num" using capacities_bound [of m] by (simp add: word_less_nat_alt)
      then show False using IH [of num "if m \<noteq> 0 then m * 2 else 4" r] eq a capacities_step [of m] by simp
    qed
  qed
  then show ?thesis using assms by (cases "grow num m") auto
qed

text \<open>C15: The loop of \<^verbatim>\<open>array_preallocate\<close> ends for every request up to \<open>2^31\<close> elements, with a capacity that suffices
  and is less than twice the request (or 4); for a larger request, starting from any capacity an array can
  have, it never ends, because the capacity wraps around to zero.\<close>

theorem array_grow_termination:
  assumes "m \<in> capacities"
  shows "if unat num \<le> 2 ^ 31
    then \<exists>m'. grow num m = Some m' \<and> num \<le> m' \<and> m' \<in> {m} \<union> {x. unat x < 2 * unat num \<or> unat x = 4}
    else grow num m = None"
  using grow_ends [of num m] capacities_bound [OF assms] grow_diverges [OF _ assms] by (auto simp: not_le not_less)

theorem array_grow_termination_witness:
  "grow 0x80000001 4 = None \<and> (\<exists>m'. grow 9 4 = Some m' \<and> 9 \<le> m')"
proof -
  have "(4 :: u32) = 2 ^ 2" by simp
  then have "(4 :: u32) \<in> capacities" unfolding capacities_def by (auto intro!: image_eqI [of _ _ 2])
  from array_grow_termination [OF this, of "0x80000001"] array_grow_termination [OF this, of 9] show ?thesis by auto
qed

subsection \<open>Arrays are lists\<close>

definition arr_ok :: "'a array \<Rightarrow> bool" where
  "arr_ok a \<longleftrightarrow> length (arr_v a) = unat (arr_max a) \<and> arr_num a \<le> arr_max a \<and> unat (arr_max a) < 2 ^ 30"

definition arr_list :: "'a array \<Rightarrow> 'a list" where
  "arr_list a = take (unat (arr_num a)) (arr_v a)"

text \<open>A block of the allocator has the size that was asked for.\<close>

definition blocks_ok :: "(u32 \<Rightarrow> 'a list option) \<Rightarrow> bool" where
  "blocks_ok kmalloc \<longleftrightarrow> (\<forall>n v. kmalloc n = Some v \<longrightarrow> length v = unat n div 4)"

lemma arr_okD:
  assumes "arr_ok a"
  shows "unat (arr_num a) \<le> length (arr_v a)" "length (arr_list a) = unat (arr_num a)" "unat (arr_num a) < 2 ^ 30"
  using assms by (auto simp: arr_ok_def arr_list_def word_le_nat_alt)

lemma unat_times4: "unat x < 2 ^ 30 \<Longrightarrow> unat (x * 4) = unat x * 4" for x :: u32
  by (simp add: unat_word_ariths)

lemma array_init_ok [simp]: "arr_ok array_init" "arr_list array_init = []"
  by (simp_all add: arr_ok_def arr_list_def array_init_def)

lemma array_get_list:
  assumes "arr_ok a"
  shows "array_get a i = (if unat i < length (arr_list a) then Some (arr_list a ! unat i) else None)"
  using arr_okD [OF assms] by (auto simp: array_get_def word_less_nat_alt rd_def arr_list_def)

lemma array_set_list:
  assumes "arr_ok a" "unat i < length (arr_list a)"
  shows "\<exists>a'. array_set a i x = Some a' \<and> arr_ok a' \<and> arr_list a' = (arr_list a)[unat i := x]"
  using arr_okD [OF assms(1)] assms
  by (auto simp: array_set_def word_less_nat_alt wr_def arr_list_def arr_ok_def take_update_swap)

lemma array_remove_list:
  assumes "arr_ok a" "unat i < length (arr_list a)"
  shows "\<exists>a'. array_remove a i = Some a' \<and> arr_ok a' \<and> arr_list a' = take (unat i) (arr_list a) @ drop (Suc (unat i)) (arr_list a)"
proof -
  note d = arr_okD [OF assms(1)]
  let ?i = "unat i" and ?n = "unat (arr_num a)"
  have i: "?i < ?n" "i < arr_num a" using assms(2) d(2) by (simp_all add: word_less_nat_alt)
  have i1: "unat (i + 1) = ?i + 1" by (rule unat_plus_one_less [OF i(2)])
  have mv: "unat (arr_num a - (i + 1)) = ?n - (?i + 1)" using i(1) by (simp add: unat_sub word_le_nat_alt i1)
  have n1: "unat (arr_num a - 1) = ?n - 1" using i(1) by (intro unat_minus_one) auto
  have m4: "unat ((arr_num a - (i + 1)) * 4) div 4 = ?n - (?i + 1)"
  proof -
    have "unat (arr_num a - (i + 1)) < 2 ^ 30" using mv d(3) by linarith
    then show ?thesis unfolding unat_times4 [OF \<open>unat (arr_num a - (i + 1)) < 2 ^ 30\<close>] mv by simp
  qed
  define v where "v = take ?i (arr_v a) @ take (?n - (?i + 1)) (drop (?i + 1) (arr_v a)) @ drop (?i + (?n - (?i + 1))) (arr_v a)"
  have "array_remove a i = Some (a\<lparr>arr_v := v, arr_num := arr_num a - 1\<rparr>)"
    using assms(1) i d unfolding array_remove_def Let_def m4 by (simp add: arr_ok_def v_def)
  moreover have "take (?n - 1) v = take ?i (arr_list a) @ drop (Suc ?i) (arr_list a)"
    using i(1) d(1) by (simp add: v_def arr_list_def drop_take min.absorb1)
  moreover have "length v = length (arr_v a)" using i(1) d(1) by (simp add: v_def)
  ultimately show ?thesis
    using assms(1) n1 by (auto simp: arr_ok_def arr_list_def word_le_nat_alt)
qed

lemma array_preallocate_list:
  assumes ok: "arr_ok a" "blocks_ok kmalloc" and n: "unat num < 2 ^ 29"
  shows "array_preallocate kmalloc a num = Some (Inl ENOMEM, a) \<or>
    (\<exists>a'. array_preallocate kmalloc a num = Some (Inr (), a') \<and> arr_ok a' \<and> arr_list a' = arr_list a \<and>
       arr_num a' = arr_num a \<and> num \<le> arr_max a')"
proof (cases "arr_max a < num")
  case False
  then have "array_preallocate kmalloc a num = Some (Inr (), a)" by (simp add: array_preallocate_def)
  then show ?thesis using ok(1) False by (simp add: not_less)
next
  case True
  note d = arr_okD [OF ok(1)]
  obtain m where m: "grow num (arr_max a) = Some m" "num \<le> m" "unat m < 2 * unat num \<or> unat m = 4"
    using grow_ends [of num "arr_max a"] n ok(1) True by (auto simp: arr_ok_def)
  have m30: "unat m < 2 ^ 30" using m(3) n by auto
  have n4: "unat (arr_num a * 4) div 4 = unat (arr_num a)" using unat_times4 [OF d(3)] by simp
  show ?thesis
  proof (cases "kmalloc (m * 4)")
    case None
    then show ?thesis using True m(1) by (simp add: array_preallocate_def)
  next
    case (Some v)
    then have l: "length v = unat m" using ok(2) unat_times4 [OF m30] by (auto simp: blocks_ok_def)
    have "arr_num a \<le> m" using ok(1) True m(2) unfolding arr_ok_def by (meson le_less_trans less_imp_le order_trans)
    then have "unat (arr_num a) \<le> unat m" by (simp add: word_le_nat_alt)
    then show ?thesis
      using True m(1,2) Some l n4 d(1) m30 \<open>arr_num a \<le> m\<close>
      by (simp add: array_preallocate_def arr_ok_def arr_list_def Let_def)
  qed
qed

lemma array_add_list:
  assumes ok: "arr_ok a" "blocks_ok kmalloc" and n: "length (arr_list a) + 1 < 2 ^ 29"
  shows "array_add kmalloc a x = Some (Inl ENOMEM, a) \<or>
    (\<exists>a'. array_add kmalloc a x = Some (Inr (arr_num a), a') \<and> arr_ok a' \<and> arr_list a' = arr_list a @ [x])"
proof -
  note d = arr_okD [OF ok(1)]
  have n1: "unat (arr_num a + 1) = unat (arr_num a) + 1"
    using n d(2) by (simp add: unat_word_ariths)
  then have "unat (arr_num a + 1) < 2 ^ 29" using n d(2) by simp
  from array_preallocate_list [OF ok this] show ?thesis
  proof
    assume "\<exists>a'. array_preallocate kmalloc a (arr_num a + 1) = Some (Inr (), a') \<and> arr_ok a' \<and> arr_list a' = arr_list a \<and>
       arr_num a' = arr_num a \<and> arr_num a + 1 \<le> arr_max a'"
    then obtain a' where a': "array_preallocate kmalloc a (arr_num a + 1) = Some (Inr (), a')" "arr_ok a'"
      "arr_list a' = arr_list a" "arr_num a' = arr_num a" "arr_num a + 1 \<le> arr_max a'" by blast
    have l: "unat (arr_num a) < length (arr_v a')" using a'(2,5) n1 by (simp add: arr_ok_def word_le_nat_alt)
    then have "take (unat (arr_num a) + 1) ((arr_v a')[unat (arr_num a) := x]) = arr_list a @ [x]"
      using a'(3,4) by (simp add: arr_list_def take_Suc_conv_app_nth)
    then show ?thesis
      using a' l n1 by (auto simp: array_add_def array_setsize_def arr_ok_def arr_list_def Let_def)
  qed (auto simp: array_add_def array_setsize_def Let_def)
qed



end
