(* ===== verification/Biglock.thy ===== *)
theory Biglock
  imports Prelude
begin

text \<open>
  The big lock of the file system layer, \<^verbatim>\<open>vfs_biglock\<close> of \<^verbatim>\<open>kern/vfs/vfslist.c\<close>, as the running thread sees it: the
  count of the underlying lock, the recursion depth, and whether this thread is the one recorded in the
  lock, which is the thread that created it. The lock operations are those of \<^verbatim>\<open>kern/thread/synch.c\<close>; a thread
  that would have to wait for the lock goes no further here.
\<close>

record biglock =
  bl_mine :: bool
  bl_count :: u32
  bl_depth :: u32

definition vfs_biglock_do_i_hold :: "biglock \<Rightarrow> bool" where
  "vfs_biglock_do_i_hold bl = (if bl_count bl = 1 then False else bl_mine bl)"

definition vfs_biglock_acquire :: "biglock \<Rightarrow> biglock kp" where
  "vfs_biglock_acquire bl = do {
     bl1 \<leftarrow> (if \<not> vfs_biglock_do_i_hold bl
             then do { kassert (bl_count bl > 0); Some (bl\<lparr>bl_count := bl_count bl - 1\<rparr>) }
             else Some bl);
     Some (bl1\<lparr>bl_depth := bl_depth bl1 + 1\<rparr>)
   }"

definition vfs_biglock_release :: "biglock \<Rightarrow> biglock kp" where
  "vfs_biglock_release bl = do {
     kassert (vfs_biglock_do_i_hold bl);
     kassert (bl_depth bl > 0);
     let bl1 = bl\<lparr>bl_depth := bl_depth bl - 1\<rparr>;
     if bl_depth bl1 = 0
     then do { let bl2 = bl1\<lparr>bl_count := bl_count bl1 + 1\<rparr>; kassert (bl_count bl2 > 0); Some bl2 }
     else Some bl1
   }"

subsection \<open>The thread that created the lock\<close>

text \<open>For this thread the lock is recursive: \<open>bl_at n\<close> says that it has been taken \<open>n\<close> times.\<close>

definition bl_at :: "nat \<Rightarrow> biglock \<Rightarrow> bool" where
  "bl_at n bl \<longleftrightarrow> bl_mine bl \<and> bl_count bl = (if n = 0 then 1 else 0) \<and> unat (bl_depth bl) = n"

definition bl_set :: "nat \<Rightarrow> biglock" where
  "bl_set n = \<lparr>bl_mine = True, bl_count = (if n = 0 then 1 else 0), bl_depth = of_nat n\<rparr>"

lemma bl_at_eq: "bl_at n bl \<longleftrightarrow> bl = bl_set n \<and> n < 2 ^ 32"
proof
  assume "bl_at n bl"
  then show "bl = bl_set n \<and> n < 2 ^ 32"
    using unsigned_less [of "bl_depth bl"] by (cases bl) (auto simp: bl_at_def bl_set_def)
qed (auto simp: bl_at_def bl_set_def unat_of_nat_id)

lemma bl_set_acquire [simp]: "Suc n < 2 ^ 32 \<Longrightarrow> vfs_biglock_acquire (bl_set n) = Some (bl_set (Suc n))"
  by (simp add: vfs_biglock_acquire_def vfs_biglock_do_i_hold_def bl_set_def)

lemma bl_set_hold [simp]: "vfs_biglock_do_i_hold (bl_set n) \<longleftrightarrow> n \<noteq> 0"
  by (simp add: vfs_biglock_do_i_hold_def bl_set_def)

lemma bl_set_release [simp]: "Suc n < 2 ^ 32 \<Longrightarrow> vfs_biglock_release (bl_set (Suc n)) = Some (bl_set n)"
proof -
  assume n: "Suc n < 2 ^ 32"
  then have "unat (1 + word_of_nat n :: u32) = Suc n" using unat_of_nat_id [of "Suc n", where 'a = 32] by simp
  then have "(1 + word_of_nat n :: u32) > 0" by (simp add: word_less_nat_alt)
  moreover have "(word_of_nat n :: u32) = 0 \<longleftrightarrow> n = 0"
    using n unat_of_nat_id [of n, where 'a = 32] by (auto simp: unat_eq_zero [symmetric] simp del: unat_eq_zero)
  ultimately show ?thesis
    by (simp add: vfs_biglock_release_def vfs_biglock_do_i_hold_def bl_set_def)
qed

text \<open>Any other thread gets the lock but is then told that it does not hold it.\<close>

lemma biglock_stranger:
  assumes "\<not> bl_mine bl"
  shows "\<not> vfs_biglock_do_i_hold bl" "vfs_biglock_release bl = None"
  using assms by (simp_all add: vfs_biglock_do_i_hold_def vfs_biglock_release_def)

end
