(* ===== verification/Sfsdata.thy ===== *)
theory Sfsdata
  imports Prelude
begin

unbundle bit_operations_syntax

text \<open>
  The on-disk structures of SFS, \<^verbatim>\<open>kern/include/kern/sfs.h\<close>: superblock, inode and directory entry, and their
  layout as bytes. The kernel reads a block straight into such a structure; on the big-endian machine
  every integer is stored with its highest byte first. The lemmas show that structures and blocks
  correspond one to one.
\<close>

definition SFS_MAGIC :: u32 where "SFS_MAGIC = 0xabadf001"
definition SFS_BLOCKSIZE :: u32 where "SFS_BLOCKSIZE = 512"
definition SFS_VOLNAME_SIZE :: nat where "SFS_VOLNAME_SIZE = 32"
definition SFS_NDIRECT :: u32 where "SFS_NDIRECT = 15"
definition SFS_NINDIRECT :: u32 where "SFS_NINDIRECT = 1"
definition SFS_DBPERIDB :: u32 where "SFS_DBPERIDB = 128"
definition SFS_NAMELEN :: nat where "SFS_NAMELEN = 60"
definition SFS_SUPER_BLOCK :: u32 where "SFS_SUPER_BLOCK = 0"
definition SFS_FREEMAP_START :: u32 where "SFS_FREEMAP_START = 2"
definition SFS_NOINO :: u32 where "SFS_NOINO = 0"
definition SFS_ROOTDIR_INO :: u32 where "SFS_ROOTDIR_INO = 1"
definition SFS_BITSPERBLOCK :: u32 where "SFS_BITSPERBLOCK = SFS_BLOCKSIZE * 8"

definition SFS_ROUNDUP :: "u32 \<Rightarrow> u32 \<Rightarrow> u32" where
  "SFS_ROUNDUP a b = ((a + b - 1) div b) * b"

definition SFS_FREEMAPBITS :: "u32 \<Rightarrow> u32" where
  "SFS_FREEMAPBITS nblocks = SFS_ROUNDUP nblocks SFS_BITSPERBLOCK"

definition SFS_FREEMAPBLOCKS :: "u32 \<Rightarrow> u32" where
  "SFS_FREEMAPBLOCKS nblocks = SFS_FREEMAPBITS nblocks div SFS_BITSPERBLOCK"

definition SFS_TYPE_INVAL :: u16 where "SFS_TYPE_INVAL = 0"
definition SFS_TYPE_FILE :: u16 where "SFS_TYPE_FILE = 1"
definition SFS_TYPE_DIR :: u16 where "SFS_TYPE_DIR = 2"

lemmas sfs_consts = SFS_MAGIC_def SFS_BLOCKSIZE_def SFS_VOLNAME_SIZE_def SFS_NDIRECT_def SFS_NINDIRECT_def SFS_DBPERIDB_def
  SFS_NAMELEN_def SFS_SUPER_BLOCK_def SFS_FREEMAP_START_def SFS_NOINO_def SFS_ROOTDIR_INO_def SFS_BITSPERBLOCK_def
  SFS_TYPE_INVAL_def SFS_TYPE_FILE_def SFS_TYPE_DIR_def

record sfs_superblock =
  sb_magic :: u32
  sb_nblocks :: u32
  sb_volname :: "u8 list"
  sb_reserved :: "u32 list"

record sfs_dinode =
  sfi_size :: u32
  sfi_type :: u16
  sfi_linkcount :: u16
  sfi_direct :: "u32 list"
  sfi_indirect :: u32
  sfi_waste :: "u32 list"

record sfs_direntry =
  sfd_ino :: u32
  sfd_name :: "u8 list"

subsection \<open>Big-endian layout\<close>

definition be32 :: "u32 \<Rightarrow> u8 list" where
  "be32 x = [ucast (drop_bit 24 x), ucast (drop_bit 16 x), ucast (drop_bit 8 x), ucast x]"

definition be16 :: "u16 \<Rightarrow> u8 list" where
  "be16 x = [ucast (drop_bit 8 x), ucast x]"

definition of_be32 :: "u8 list \<Rightarrow> u32" where
  "of_be32 bs = push_bit 24 (ucast (bs ! 0)) OR push_bit 16 (ucast (bs ! 1)) OR push_bit 8 (ucast (bs ! 2)) OR ucast (bs ! 3)"

definition of_be16 :: "u8 list \<Rightarrow> u16" where
  "of_be16 bs = push_bit 8 (ucast (bs ! 0)) OR ucast (bs ! 1)"

definition be_words :: "u32 list \<Rightarrow> u8 list" where
  "be_words ws = concat (map be32 ws)"

fun of_be_words :: "nat \<Rightarrow> u8 list \<Rightarrow> u32 list" where
  "of_be_words 0 bs = []"
| "of_be_words (Suc n) bs = of_be32 (take 4 bs) # of_be_words n (drop 4 bs)"

definition superblock_bytes :: "sfs_superblock \<Rightarrow> u8 list" where
  "superblock_bytes sb = be32 (sb_magic sb) @ be32 (sb_nblocks sb) @ sb_volname sb @ be_words (sb_reserved sb)"

definition bytes_superblock :: "u8 list \<Rightarrow> sfs_superblock" where
  "bytes_superblock bs =
     \<lparr>sb_magic = of_be32 (take 4 bs), sb_nblocks = of_be32 (take 4 (drop 4 bs)), sb_volname = take 32 (drop 8 bs),
      sb_reserved = of_be_words 118 (drop 40 bs)\<rparr>"

definition dinode_bytes :: "sfs_dinode \<Rightarrow> u8 list" where
  "dinode_bytes i = be32 (sfi_size i) @ be16 (sfi_type i) @ be16 (sfi_linkcount i) @ be_words (sfi_direct i) @
     be32 (sfi_indirect i) @ be_words (sfi_waste i)"

definition bytes_dinode :: "u8 list \<Rightarrow> sfs_dinode" where
  "bytes_dinode bs =
     \<lparr>sfi_size = of_be32 (take 4 bs), sfi_type = of_be16 (take 2 (drop 4 bs)), sfi_linkcount = of_be16 (take 2 (drop 6 bs)),
      sfi_direct = of_be_words 15 (drop 8 bs), sfi_indirect = of_be32 (take 4 (drop 68 bs)), sfi_waste = of_be_words 110 (drop 72 bs)\<rparr>"

definition direntry_bytes :: "sfs_direntry \<Rightarrow> u8 list" where
  "direntry_bytes d = be32 (sfd_ino d) @ sfd_name d"

definition bytes_direntry :: "u8 list \<Rightarrow> sfs_direntry" where
  "bytes_direntry bs = \<lparr>sfd_ino = of_be32 (take 4 bs), sfd_name = take 60 (drop 4 bs)\<rparr>"

definition superblock_ok :: "sfs_superblock \<Rightarrow> bool" where
  "superblock_ok sb \<longleftrightarrow> length (sb_volname sb) = 32 \<and> length (sb_reserved sb) = 118"

definition dinode_ok :: "sfs_dinode \<Rightarrow> bool" where
  "dinode_ok i \<longleftrightarrow> length (sfi_direct i) = 15 \<and> length (sfi_waste i) = 110"

subsection \<open>Round trips\<close>

lemma length_be [simp]: "length (be32 x) = 4" "length (be16 y) = 2"
  by (simp_all add: be32_def be16_def)

lemma be32_inverse [simp]: "of_be32 (be32 x) = x"
proof (rule bit_word_eqI)
  fix n assume "n < LENGTH(32)"
  then consider "n < 8" | "8 \<le> n \<and> n < 16" | "16 \<le> n \<and> n < 24" | "24 \<le> n \<and> n < 32" by fastforce
  then show "bit (of_be32 (be32 x)) n = bit x n"
    by cases (auto simp: of_be32_def be32_def bit_simps)
qed

lemma be16_inverse [simp]: "of_be16 (be16 x) = x"
proof (rule bit_word_eqI)
  fix n assume "n < LENGTH(16)"
  then consider "n < 8" | "8 \<le> n \<and> n < 16" by fastforce
  then show "bit (of_be16 (be16 x)) n = bit x n"
    by cases (auto simp: of_be16_def be16_def bit_simps)
qed

lemma not_bit_beyond: "8 \<le> n \<Longrightarrow> \<not> bit b n" for b :: u8
  using bit_imp_le_length [of b n] by auto

lemma of_be32_inverse: "length bs = 4 \<Longrightarrow> be32 (of_be32 bs) = bs"
proof -
  assume "length bs = 4"
  then obtain a b c d where bs: "bs = [a, b, c, d]" by (auto simp: length_Suc_conv numeral_eq_Suc)
  show ?thesis unfolding bs of_be32_def be32_def
    by (auto simp: bit_simps not_bit_beyond intro!: bit_word_eqI)
qed

lemma of_be16_inverse: "length bs = 2 \<Longrightarrow> be16 (of_be16 bs) = bs"
proof -
  assume "length bs = 2"
  then obtain a b where bs: "bs = [a, b]" by (auto simp: length_Suc_conv numeral_eq_Suc)
  show ?thesis unfolding bs of_be16_def be16_def
    by (auto simp: bit_simps not_bit_beyond intro!: bit_word_eqI)
qed

lemma length_be_words [simp]: "length (be_words ws) = 4 * length ws"
  by (induction ws) (simp_all add: be_words_def)

lemma length_of_be_words [simp]: "length (of_be_words n bs) = n"
  by (induction n arbitrary: bs) simp_all

lemma be_words_Nil [simp]: "be_words [] = []" and be_words_Cons: "be_words (w # ws) = be32 w @ be_words ws"
  by (simp_all add: be_words_def)

lemma be_words_inverse: "n = length ws \<Longrightarrow> of_be_words n (be_words ws @ rest) = ws"
proof (induction ws arbitrary: n)
  case (Cons w ws)
  then obtain m where "n = Suc m" by (cases n) auto
  then show ?case using Cons by (simp add: be_words_Cons)
qed simp

lemma of_be_words_inverse: "length bs = 4 * n \<Longrightarrow> be_words (of_be_words n bs) = bs"
  by (induction n arbitrary: bs) (auto simp: be_words_Cons of_be32_inverse)

lemma of_be_words_nth: "i < n \<Longrightarrow> of_be_words n bs ! i = of_be32 (take 4 (drop (4 * i) bs))"
proof (induction n arbitrary: bs i)
  case (Suc n)
  then show ?case by (cases i) (simp_all add: add.commute)
qed simp

lemma superblock_inverse: "superblock_ok sb \<Longrightarrow> bytes_superblock (superblock_bytes sb) = sb"
  using be_words_inverse [of 118 "sb_reserved sb" "[]"]
  by (cases sb) (simp add: superblock_ok_def bytes_superblock_def superblock_bytes_def)

lemma dinode_inverse: "dinode_ok i \<Longrightarrow> bytes_dinode (dinode_bytes i) = i"
  using be_words_inverse [of 15 "sfi_direct i"] be_words_inverse [of 110 "sfi_waste i" "[]"]
  by (cases i) (simp add: dinode_ok_def bytes_dinode_def dinode_bytes_def)

lemma direntry_inverse: "length (sfd_name d) = 60 \<Longrightarrow> bytes_direntry (direntry_bytes d) = d"
  by (cases d) (simp add: bytes_direntry_def direntry_bytes_def)

text \<open>Cutting a block into consecutive pieces.\<close>

lemma take_drop_join: "take n (drop m bs) @ drop (m + n) bs = drop m bs"
  by (metis add.commute append_take_drop_id drop_drop)

lemma bytes_superblock_inverse: "length bs = 512 \<Longrightarrow> superblock_bytes (bytes_superblock bs) = bs"
proof -
  assume l: "length bs = 512"
  have "drop 8 bs = take 32 (drop 8 bs) @ drop 40 bs" using take_drop_join [of 32 8 bs] by simp
  moreover have "drop 4 bs = take 4 (drop 4 bs) @ drop 8 bs" using take_drop_join [of 4 4 bs] by simp
  moreover have "be_words (of_be_words 118 (drop 40 bs)) = drop 40 bs" using l by (intro of_be_words_inverse) simp
  ultimately show ?thesis
    using l append_take_drop_id [of 4 bs] by (simp add: superblock_bytes_def bytes_superblock_def of_be32_inverse)
qed

lemma length_dinode_bytes [simp]: "dinode_ok i \<Longrightarrow> length (dinode_bytes i) = 512"
  by (simp add: dinode_bytes_def dinode_ok_def)

lemma length_superblock_bytes [simp]: "superblock_ok sb \<Longrightarrow> length (superblock_bytes sb) = 512"
  by (simp add: superblock_bytes_def superblock_ok_def)

lemma dinode_ok_bytes [simp]: "dinode_ok (bytes_dinode bs)"
  by (simp add: dinode_ok_def bytes_dinode_def)

lemma superblock_ok_bytes: "length bs = 512 \<Longrightarrow> superblock_ok (bytes_superblock bs)"
  by (simp add: superblock_ok_def bytes_superblock_def)

lemma of_be_words_take: "of_be_words n (take (4 * n) bs) = of_be_words n bs"
  by (rule nth_equalityI) (auto simp: of_be_words_nth take_drop min_def)

lemma bytes_dinode_inverse: "length bs = 512 \<Longrightarrow> dinode_bytes (bytes_dinode bs) = bs"
proof -
  assume l: "length bs = 512"
  have "be_words (of_be_words 15 (drop 8 bs)) = take 60 (drop 8 bs)"
    using of_be_words_inverse [of "take 60 (drop 8 bs)" 15] of_be_words_take [of 15 "drop 8 bs"] l by simp
  moreover have "be_words (of_be_words 110 (drop 72 bs)) = drop 72 bs" using l by (intro of_be_words_inverse) simp
  moreover have "drop 68 bs = take 4 (drop 68 bs) @ drop 72 bs" using take_drop_join [of 4 68 bs] by simp
  moreover have "drop 8 bs = take 60 (drop 8 bs) @ drop 68 bs" using take_drop_join [of 60 8 bs] by simp
  moreover have "drop 6 bs = take 2 (drop 6 bs) @ drop 8 bs" using take_drop_join [of 2 6 bs] by simp
  moreover have "drop 4 bs = take 2 (drop 4 bs) @ drop 6 bs" using take_drop_join [of 2 4 bs] by simp
  ultimately show ?thesis
    using l append_take_drop_id [of 4 bs] by (simp add: dinode_bytes_def bytes_dinode_def of_be32_inverse of_be16_inverse)
qed

lemma bytes_direntry_inverse: "length bs = 64 \<Longrightarrow> direntry_bytes (bytes_direntry bs) = bs"
  using append_take_drop_id [of 4 bs] by (simp add: direntry_bytes_def bytes_direntry_def of_be32_inverse)



end
