(* ===== verification/Sfsblock.thy ===== *)
theory Sfsblock
  imports Bitmap Lhd Karray Biglock Sfsdata
begin

text \<open>
  The lowest layer of SFS: the state of a mounted file system, block transfers (\<^verbatim>\<open>kern/fs/sfs/sfs_io.c\<close>, first
  part) and block allocation (\<^verbatim>\<open>kern/fs/sfs/sfs_balloc.c\<close>).

  The state \<open>world\<close> holds the \<^verbatim>\<open>struct sfs_fs\<close>, the in-memory inodes by their address (\<open>None\<close> is memory that is not an
  inode, so that using a stale pointer stops the kernel here), the disk, the big lock, and the outcomes of
  the coming calls of \<^verbatim>\<open>kmalloc\<close>. A kernel buffer is the list of its bytes; for a transfer it is laid out
  at address 0 of a memory of its own.
\<close>

subsection \<open>State\<close>

datatype vnode_ops = sfs_fileops | sfs_dirops

record sfs_vnode =
  vn_ops :: vnode_ops
  vn_refcount :: int
  sv_i :: sfs_dinode
  sv_ino :: u32
  sv_dirty :: bool

text \<open>\<^verbatim>\<open>sfs_device\<close>: whether the pointer to the device is set.\<close>

record sfs_fs =
  sfs_sb :: sfs_superblock
  sfs_superdirty :: bool
  sfs_device :: bool
  sfs_vnodes :: "nat array"
  sfs_freemap :: "bitmap option"
  sfs_freemapdirty :: bool

record world =
  w_sfs :: sfs_fs
  w_vn :: "nat \<Rightarrow> sfs_vnode option"
  w_next :: nat
  w_dev :: lhd_softc
  w_bl :: biglock
  w_kmem :: "nat \<Rightarrow> bool"

definition kmalloc_outcome :: "world \<Rightarrow> bool \<times> world" where
  "kmalloc_outcome w = (w_kmem w 0, w\<lparr>w_kmem := \<lambda>n. w_kmem w (Suc n)\<rparr>)"

definition nblocks :: "world \<Rightarrow> u32" where
  "nblocks w = sb_nblocks (sfs_sb (w_sfs w))"

definition put_freemap :: "bitmap \<Rightarrow> world \<Rightarrow> world" where
  "put_freemap fm w = w\<lparr>w_sfs := (w_sfs w)\<lparr>sfs_freemap := Some fm\<rparr>\<rparr>"

definition put_freemapdirty :: "bool \<Rightarrow> world \<Rightarrow> world" where
  "put_freemapdirty b w = w\<lparr>w_sfs := (w_sfs w)\<lparr>sfs_freemapdirty := b\<rparr>\<rparr>"

definition put_vn :: "nat \<Rightarrow> sfs_vnode \<Rightarrow> world \<Rightarrow> world" where
  "put_vn sv x w = w\<lparr>w_vn := (w_vn w)(sv \<mapsto> x)\<rparr>"

definition biglock_acquire :: "world \<Rightarrow> world kp" where
  "biglock_acquire w = do { bl \<leftarrow> vfs_biglock_acquire (w_bl w); Some (w\<lparr>w_bl := bl\<rparr>) }"

definition biglock_release :: "world \<Rightarrow> world kp" where
  "biglock_release w = do { bl \<leftarrow> vfs_biglock_release (w_bl w); Some (w\<lparr>w_bl := bl\<rparr>) }"

subsection \<open>Block transfers\<close>

text \<open>The retry loop; \<open>k\<close> retries are left.\<close>

fun rw_retry :: "(u32 \<Rightarrow> bool) \<Rightarrow> nat option \<Rightarrow> nat \<Rightarrow> uio \<Rightarrow> mem \<Rightarrow> world \<Rightarrow> ((errno + unit) \<times> uio \<times> mem \<times> world) kp" where
  "rw_retry fault curas k u mem w = do {
     kassert (sfs_device (w_sfs w));
     (result, u1, mem1, dev) \<leftarrow> lhd_io fault curas u mem (w_dev w);
     let w1 = w\<lparr>w_dev := dev\<rparr>;
     if result = Inl EINVAL then None
     else if result = Inl EIO then
       (case k of
          0 \<Rightarrow> Some (result, u1, mem1, w1)
        | Suc k' \<Rightarrow> rw_retry fault curas k' u1 mem1 w1)
     else Some (result, u1, mem1, w1)
   }"

declare rw_retry.simps [simp del]

definition sfs_rwblock :: "(u32 \<Rightarrow> bool) \<Rightarrow> nat option \<Rightarrow> uio \<Rightarrow> mem \<Rightarrow> world \<Rightarrow> ((errno + unit) \<times> uio \<times> mem \<times> world) kp" where
  "sfs_rwblock fault curas u mem w = do {
     kassert (vfs_biglock_do_i_hold (w_bl w));
     rw_retry fault curas 10 u mem w
   }"

definition SFSUIO :: "u32 \<Rightarrow> uio_rw \<Rightarrow> uio" where
  "SFSUIO block rw = uio_kinit 0 SFS_BLOCKSIZE (uint block * 512) rw"

definition kbuf_mem :: "u8 list \<Rightarrow> mem" where
  "kbuf_mem bs a = (if unat a < length bs then bs ! unat a else 0)"

definition mem_kbuf :: "nat \<Rightarrow> mem \<Rightarrow> u8 list" where
  "mem_kbuf n mem = map (\<lambda>i. mem (of_nat i)) [0..<n]"

definition sfs_readblock :: "u32 \<Rightarrow> world \<Rightarrow> ((errno + u8 list) \<times> world) kp" where
  "sfs_readblock block w = do {
     (result, u, mem, w1) \<leftarrow> sfs_rwblock (\<lambda>_. False) None (SFSUIO block UIO_READ) (\<lambda>_. 0) w;
     (case result of
        Inl e \<Rightarrow> Some (Inl e, w1)
      | Inr _ \<Rightarrow> Some (Inr (mem_kbuf 512 mem), w1))
   }"

definition sfs_writeblock :: "u32 \<Rightarrow> u8 list \<Rightarrow> world \<Rightarrow> ((errno + unit) \<times> world) kp" where
  "sfs_writeblock block data w = do {
     kassert (length data = unat SFS_BLOCKSIZE);
     (result, u, mem, w1) \<leftarrow> sfs_rwblock (\<lambda>_. False) None (SFSUIO block UIO_WRITE) (kbuf_mem data) w;
     Some (result, w1)
   }"

subsection \<open>Block allocation\<close>

definition sfs_clearblock :: "u32 \<Rightarrow> world \<Rightarrow> ((errno + unit) \<times> world) kp" where
  "sfs_clearblock block w = sfs_writeblock block (replicate 512 0) w"

definition sfs_balloc :: "world \<Rightarrow> ((errno + u32) \<times> world) kp" where
  "sfs_balloc w = do {
     fm \<leftarrow> sfs_freemap (w_sfs w);
     (result, fm1) \<leftarrow> bitmap_alloc fm;
     let w1 = put_freemap fm1 w;
     (case result of
        Inl e \<Rightarrow> Some (Inl e, w1)
      | Inr diskblock \<Rightarrow> do {
          let w2 = put_freemapdirty True w1;
          kassert (diskblock < nblocks w2);
          (result, w3) \<leftarrow> sfs_clearblock diskblock w2;
          (case result of
             Inl e \<Rightarrow> do {
               fm2 \<leftarrow> sfs_freemap (w_sfs w3);
               fm3 \<leftarrow> bitmap_unmark fm2 diskblock;
               Some (Inl e, put_freemap fm3 w3)
             }
           | Inr _ \<Rightarrow> Some (Inr diskblock, w3))
        })
   }"

definition sfs_bfree :: "u32 \<Rightarrow> world \<Rightarrow> world kp" where
  "sfs_bfree diskblock w = do {
     fm \<leftarrow> sfs_freemap (w_sfs w);
     fm1 \<leftarrow> bitmap_unmark fm diskblock;
     Some (put_freemapdirty True (put_freemap fm1 w))
   }"

definition sfs_bused :: "u32 \<Rightarrow> world \<Rightarrow> bool kp" where
  "sfs_bused diskblock w = do {
     kassert (diskblock < nblocks w);
     fm \<leftarrow> sfs_freemap (w_sfs w);
     b \<leftarrow> bitmap_isset fm diskblock;
     Some (b \<noteq> 0)
   }"

subsection \<open>Operations that return\<close>

text \<open>The operation does not stop the kernel, and its result satisfies \<open>Q\<close>.\<close>

definition returns :: "'a kp \<Rightarrow> ('a \<Rightarrow> bool) \<Rightarrow> bool" where
  "returns m Q \<longleftrightarrow> (\<exists>x. m = Some x \<and> Q x)"

lemma returns_Some [simp]: "returns (Some x) Q \<longleftrightarrow> Q x"
  by (simp add: returns_def)

lemma returns_None [simp]: "\<not> returns None Q"
  by (simp add: returns_def)

lemma returns_bind [simp]: "returns (Option.bind m f) Q \<longleftrightarrow> returns m (\<lambda>x. returns (f x) Q)"
  by (cases m) simp_all

lemma returns_kassert [simp]: "returns (kassert b) Q \<longleftrightarrow> b \<and> Q ()"
  by (simp add: kassert_def)

lemma returns_mono: "returns m P \<Longrightarrow> (\<And>x. P x \<Longrightarrow> Q x) \<Longrightarrow> returns m Q"
  by (auto simp: returns_def)

lemma returns_eq: "m = Some x \<Longrightarrow> Q x \<Longrightarrow> returns m Q"
  by simp

subsection \<open>Transfers on a disk without faults\<close>

definition dk :: "world \<Rightarrow> u32 \<Rightarrow> u8 list" where
  "dk w = dsk (w_dev w)"

definition io_ok :: "world \<Rightarrow> bool" where
  "io_ok w \<longleftrightarrow> dev_ok (w_dev w) \<and> sfs_device (w_sfs w) \<and> vfs_biglock_do_i_hold (w_bl w)"

text \<open>\<open>w'\<close> differs from \<open>w\<close> at most in the device, whose contents are now \<open>D\<close>.\<close>

definition disk_step :: "world \<Rightarrow> (u32 \<Rightarrow> u8 list) \<Rightarrow> world \<Rightarrow> bool" where
  "disk_step w D w' \<longleftrightarrow> w_sfs w' = w_sfs w \<and> w_vn w' = w_vn w \<and> w_next w' = w_next w \<and> w_bl w' = w_bl w \<and> w_kmem w' = w_kmem w \<and>
     dev_ok (w_dev w') \<and> d_blocks (w_dev w') = d_blocks (w_dev w) \<and> dk w' = D"

lemma SFSUIO_facts:
  "uio_offset (SFSUIO b rw) = 512 * uint b" "uio_rw (SFSUIO b rw) = rw" "uio_addrs (SFSUIO b rw) = addrs 0 512"
  "uio_block (\<lambda>_. False) None (SFSUIO b rw)"
  by (simp_all add: SFSUIO_def uio_kinit_def uio_addrs_def iov_addrs_def SFS_BLOCKSIZE_def uio_block_def uio_ok_def iov_ok_def)

lemma map_kbuf_mem: "length bs = 512 \<Longrightarrow> map (kbuf_mem bs) (addrs 0 512) = bs"
  by (rule nth_equalityI) (simp_all add: addrs_def kbuf_mem_def unat_of_nat_id)

lemma mem_kbuf_put: "length bs = 512 \<Longrightarrow> mem_kbuf 512 (mem_put mem (addrs 0 512) bs) = bs"
  using mem_put_read [of "addrs 0 512" bs mem] distinct_addrs [of 0 512] by (simp add: mem_kbuf_def addrs_def comp_def)

text \<open>A transfer of one block between a user's buffer and the disk.\<close>

lemma sfs_rwblock_read:
  assumes "io_ok w" "uio_offset u = 512 * uint b" "b < d_blocks (w_dev w)" "uio_block fault curas u" "uio_rw u = UIO_READ"
  shows "\<exists>u' w'. sfs_rwblock fault curas u mem w = Some (Inr (), u', mem_put mem (take 512 (uio_addrs u)) (dk w b), w') \<and>
    uio_done fault u u' \<and> disk_step w (dk w) w'"
proof -
  obtain u' d where "lhd_io fault curas u mem (w_dev w) = Some (Inr (), u', mem_put mem (take 512 (uio_addrs u)) (dk w b), d)"
    "uio_done fault u u'" "dev_ok d" "d_blocks d = d_blocks (w_dev w)" "dsk d = dk w"
    using lhd_io_read [OF _ assms(2-5), of mem] assms(1) by (auto simp: io_ok_def dk_def)
  then show ?thesis
    using assms(1) by (intro exI [of _ u'] exI [of _ "w\<lparr>w_dev := d\<rparr>"])
      (simp add: sfs_rwblock_def io_ok_def rw_retry.simps [of fault curas 10] disk_step_def dk_def Let_def)
qed

lemma sfs_rwblock_write:
  assumes "io_ok w" "uio_offset u = 512 * uint b" "b < d_blocks (w_dev w)" "uio_block fault curas u" "uio_rw u = UIO_WRITE"
  shows "\<exists>u' w'. sfs_rwblock fault curas u mem w = Some (Inr (), u', mem, w') \<and>
    uio_done fault u u' \<and> disk_step w ((dk w)(b := map mem (take 512 (uio_addrs u)))) w'"
proof -
  obtain u' d where "lhd_io fault curas u mem (w_dev w) = Some (Inr (), u', mem, d)"
    "uio_done fault u u'" "dev_ok d" "d_blocks d = d_blocks (w_dev w)" "dsk d = (dk w)(b := map mem (take 512 (uio_addrs u)))"
    using lhd_io_write [OF _ assms(2-5), of mem] assms(1) by (auto simp: io_ok_def dk_def)
  then show ?thesis
    using assms(1) by (intro exI [of _ u'] exI [of _ "w\<lparr>w_dev := d\<rparr>"])
      (simp add: sfs_rwblock_def io_ok_def rw_retry.simps [of fault curas 10] disk_step_def dk_def Let_def)
qed

lemma sfs_readblock_spec:
  assumes "io_ok w" "b < d_blocks (w_dev w)"
  shows "returns (sfs_readblock b w) (\<lambda>(r, w'). r = Inr (dk w b) \<and> disk_step w (dk w) w')"
proof -
  have "length (dk w b) = 512" using assms by (simp add: dk_def io_ok_def length_dsk)
  then show ?thesis
    using sfs_rwblock_read [OF assms(1) SFSUIO_facts(1) assms(2) SFSUIO_facts(4,2), of "\<lambda>_. 0"]
    by (auto simp: sfs_readblock_def SFSUIO_facts(3) mem_kbuf_put)
qed

lemma sfs_writeblock_spec:
  assumes "io_ok w" "b < d_blocks (w_dev w)" "length data = 512"
  shows "returns (sfs_writeblock b data w) (\<lambda>(r, w'). r = Inr () \<and> disk_step w ((dk w)(b := data)) w')"
  using sfs_rwblock_write [OF assms(1) SFSUIO_facts(1) assms(2) SFSUIO_facts(4,2), of "kbuf_mem data"] assms(3)
  by (auto simp: sfs_writeblock_def SFSUIO_facts(3) map_kbuf_mem SFS_BLOCKSIZE_def)

subsection \<open>The free block map\<close>

definition in_use :: "world \<Rightarrow> u32 set" where
  "in_use w = (case sfs_freemap (w_sfs w) of None \<Rightarrow> {} | Some fm \<Rightarrow> marked fm)"

text \<open>The bitmap is well formed and covers the file system; what lies beyond is marked in use.\<close>

definition fm_ok :: "world \<Rightarrow> bool" where
  "fm_ok w \<longleftrightarrow> (\<exists>fm. sfs_freemap (w_sfs w) = Some fm \<and> bitmap_wf fm \<and> nblocks w \<le> nbits fm \<and>
     (\<forall>b. b < nbits fm \<longrightarrow> b \<notin> marked fm \<longrightarrow> b < nblocks w))"

definition blk_ok :: "world \<Rightarrow> bool" where
  "blk_ok w \<longleftrightarrow> io_ok w \<and> fm_ok w \<and> nblocks w \<le> d_blocks (w_dev w)"

definition zblock :: "u8 list" where
  "zblock = replicate 512 0"

text \<open>\<open>w'\<close> differs from \<open>w\<close> at most in the device and in the free block map.\<close>

definition alloc_step :: "world \<Rightarrow> (u32 \<Rightarrow> u8 list) \<Rightarrow> u32 set \<Rightarrow> world \<Rightarrow> bool" where
  "alloc_step w D U w' \<longleftrightarrow>
     sfs_sb (w_sfs w') = sfs_sb (w_sfs w) \<and> sfs_superdirty (w_sfs w') = sfs_superdirty (w_sfs w) \<and>
     sfs_device (w_sfs w') = sfs_device (w_sfs w) \<and> sfs_vnodes (w_sfs w') = sfs_vnodes (w_sfs w) \<and>
     (\<not> sfs_freemapdirty (w_sfs w') \<longrightarrow> sfs_freemap (w_sfs w') = sfs_freemap (w_sfs w) \<and> \<not> sfs_freemapdirty (w_sfs w)) \<and>
     w_vn w' = w_vn w \<and> w_next w' = w_next w \<and> w_bl w' = w_bl w \<and> w_kmem w' = w_kmem w \<and>
     blk_ok w' \<and> d_blocks (w_dev w') = d_blocks (w_dev w) \<and> dk w' = D \<and> in_use w' = U"

lemma disk_step_alloc_step: "disk_step w D w' \<Longrightarrow> blk_ok w \<Longrightarrow> alloc_step w D (in_use w) w'"
  by (auto simp: disk_step_def alloc_step_def blk_ok_def io_ok_def fm_ok_def in_use_def nblocks_def)

lemma fm_okE:
  assumes "fm_ok w"
  obtains fm where "sfs_freemap (w_sfs w) = Some fm" "bitmap_wf fm" "in_use w = marked fm" "nblocks w \<le> nbits fm"
    "\<And>b. b < nbits fm \<Longrightarrow> b \<notin> marked fm \<Longrightarrow> b < nblocks w"
  using assms by (auto simp: fm_ok_def in_use_def)

lemma nbits_bit_range: "bit_range a = bit_range b \<Longrightarrow> nbits a = nbits b"
  unfolding bit_range_def by (metis less_irrefl linorder_neqE mem_Collect_eq)

text \<open>Block allocation hands out a block that was free, cleared and now in use, or finds none.\<close>

lemma sfs_balloc_spec:
  assumes "blk_ok w"
  shows "returns (sfs_balloc w) (\<lambda>(r, w').
    case r of
      Inl e \<Rightarrow> e = ENOSPC \<and> (\<forall>b. b < nblocks w \<longrightarrow> b \<in> in_use w) \<and> w' = w
    | Inr b \<Rightarrow> b \<notin> in_use w \<and> b < nblocks w \<and> alloc_step w ((dk w)(b := zblock)) (insert b (in_use w)) w')"
proof -
  have ok: "io_ok w" "fm_ok w" "nblocks w \<le> d_blocks (w_dev w)" using assms by (simp_all add: blk_ok_def)
  obtain fm where fm: "sfs_freemap (w_sfs w) = Some fm" "bitmap_wf fm" "in_use w = marked fm" "nblocks w \<le> nbits fm"
    "\<And>b. b < nbits fm \<Longrightarrow> b \<notin> marked fm \<Longrightarrow> b < nblocks w" using fm_okE [OF ok(2)] by blast
  obtain r fm1 where a: "bitmap_alloc fm = Some (r, fm1)" using bm.alloc_returns [OF fm(2)] by blast
  show ?thesis
  proof (cases r)
    case (Inl e)
    note f = bm.alloc_Inl [OF fm(2) a [unfolded Inl]]
    have "b \<in> in_use w" if "b < nblocks w" for b
      using that f(3) fm(3,4) by (auto simp: bit_range_def)
    moreover have "put_freemap fm1 w = w" using f(2) fm(1) by (simp add: put_freemap_def)
    ultimately show ?thesis using fm(1) a Inl f(1) by (simp add: sfs_balloc_def Let_def)
  next
    case (Inr b)
    note f = bm.alloc_Inr [OF fm(2) a [unfolded Inr]]
    let ?w = "put_freemapdirty True (put_freemap fm1 w)"
    have b: "b < nblocks w" using f(4,5) fm(5) by (simp add: bit_range_def)
    then have bd: "b < d_blocks (w_dev ?w)" using ok(3) by (simp add: put_freemapdirty_def put_freemap_def)
    have io: "io_ok ?w" using ok(1) by (simp add: io_ok_def put_freemapdirty_def put_freemap_def)
    have n: "nbits fm1 = nbits fm" using f(3) by (rule nbits_bit_range)
    have "alloc_step w ((dk w)(b := zblock)) (insert b (in_use w)) w'"
      if "disk_step ?w ((dk w)(b := zblock)) w'" for w'
      using that ok fm f(1,2) n by (auto simp: disk_step_def alloc_step_def blk_ok_def io_ok_def fm_ok_def in_use_def nblocks_def
          put_freemapdirty_def put_freemap_def)
    then show ?thesis
      using sfs_writeblock_spec [OF io bd, of zblock] fm(1,3) a Inr b f(5)
      by (auto simp: sfs_balloc_def Let_def sfs_clearblock_def nblocks_def put_freemapdirty_def put_freemap_def zblock_def
          dk_def returns_def)
  qed
qed

lemma sfs_balloc_cases [consumes 1, case_names full found]:
  assumes "blk_ok w"
  obtains (full) "sfs_balloc w = Some (Inl ENOSPC, w)" "\<And>b. b < nblocks w \<Longrightarrow> b \<in> in_use w"
    | (found) b w' where "sfs_balloc w = Some (Inr b, w')" "b \<notin> in_use w" "b < nblocks w"
        "alloc_step w ((dk w)(b := zblock)) (insert b (in_use w)) w'"
proof -
  obtain r w' where rw: "sfs_balloc w = Some (r, w')" "case r of
      Inl e \<Rightarrow> e = ENOSPC \<and> (\<forall>b. b < nblocks w \<longrightarrow> b \<in> in_use w) \<and> w' = w
    | Inr b \<Rightarrow> b \<notin> in_use w \<and> b < nblocks w \<and> alloc_step w ((dk w)(b := zblock)) (insert b (in_use w)) w'"
    using sfs_balloc_spec [OF assms] by (auto simp: returns_def)
  show ?thesis
  proof (cases r)
    case (Inl e)
    then show ?thesis using full rw by auto
  next
    case (Inr b)
    then show ?thesis using found rw by auto
  qed
qed

lemma sfs_bfree_spec:
  assumes "blk_ok w" "b \<in> in_use w" "b < nblocks w"
  shows "\<exists>w'. sfs_bfree b w = Some w' \<and> alloc_step w (dk w) (in_use w - {b}) w'"
proof -
  have ok: "io_ok w" "fm_ok w" "nblocks w \<le> d_blocks (w_dev w)" using assms(1) by (simp_all add: blk_ok_def)
  obtain fm where fm: "sfs_freemap (w_sfs w) = Some fm" "bitmap_wf fm" "in_use w = marked fm" "nblocks w \<le> nbits fm"
    "\<And>b. b < nbits fm \<Longrightarrow> b \<notin> marked fm \<Longrightarrow> b < nblocks w" using fm_okE [OF ok(2)] by blast
  obtain fm1 where f: "bitmap_unmark fm b = Some fm1" "bitmap_wf fm1" "marked fm1 = marked fm - {b}" "bit_range fm1 = bit_range fm"
    using bm.release_used [OF fm(2), of b] assms(2) fm(3) by auto
  have n: "nbits fm1 = nbits fm" using f(4) by (rule nbits_bit_range)
  have "alloc_step w (dk w) (in_use w - {b}) (put_freemapdirty True (put_freemap fm1 w))"
    using ok fm f n assms(3) by (auto simp: alloc_step_def blk_ok_def io_ok_def fm_ok_def in_use_def nblocks_def
          put_freemapdirty_def put_freemap_def dk_def)
  then show ?thesis using fm(1) f(1) by (simp add: sfs_bfree_def)
qed

lemma sfs_bused_spec:
  assumes "blk_ok w" "b < nblocks w"
  shows "sfs_bused b w = Some (b \<in> in_use w)"
proof -
  have ok: "fm_ok w" using assms(1) by (simp add: blk_ok_def)
  obtain fm where fm: "sfs_freemap (w_sfs w) = Some fm" "bitmap_wf fm" "in_use w = marked fm" "nblocks w \<le> nbits fm"
    by (rule fm_okE [OF ok], rule that)
  have "b < nbits fm" using assms(2) fm(4) by (rule less_le_trans)
  then obtain x where "bitmap_isset fm b = Some x" "x \<noteq> 0 \<longleftrightarrow> b \<in> marked fm"
    using bm.isset_pool [OF fm(2), of b] by (auto simp: bit_range_def)
  then show ?thesis using fm(1,3) assms(2) by (simp add: sfs_bused_def)
qed

subsection \<open>Taking and giving up the big lock\<close>

lemma w_bl_views [simp]:
  "dk (w\<lparr>w_bl := b\<rparr>) = dk w" "in_use (w\<lparr>w_bl := b\<rparr>) = in_use w" "nblocks (w\<lparr>w_bl := b\<rparr>) = nblocks w" "fm_ok (w\<lparr>w_bl := b\<rparr>) = fm_ok w"
  by (simp_all add: dk_def in_use_def nblocks_def fm_ok_def)

lemma biglock_enter: "w_bl w = bl_set n \<Longrightarrow> Suc n < 2 ^ 32 \<Longrightarrow> biglock_acquire w = Some (w\<lparr>w_bl := bl_set (Suc n)\<rparr>)"
  by (simp add: biglock_acquire_def)

lemma biglock_leave: "w_bl w = bl_set (Suc n) \<Longrightarrow> Suc n < 2 ^ 32 \<Longrightarrow> biglock_release w = Some (w\<lparr>w_bl := bl_set n\<rparr>)"
  by (simp add: biglock_release_def)

subsection \<open>A small volume\<close>

text \<open>
  A volume of 16 blocks: superblock, root directory, free block map, and a file \<open>a\<close> with inode 3 that has its block 0
  in block 4, its indirect block in block 5, and its blocks 15 and 16 in blocks 6 and 7. The root directory
  (inode 1) has its entries in block 8: the file and an empty slot. Both inodes are in memory.
\<close>

definition small_sb :: sfs_superblock where
  "small_sb = \<lparr>sb_magic = SFS_MAGIC, sb_nblocks = 16, sb_volname = replicate 32 0, sb_reserved = replicate 118 0\<rparr>"

definition small_root :: sfs_dinode where
  "small_root = \<lparr>sfi_size = 128, sfi_type = 2, sfi_linkcount = 1, sfi_direct = 8 # replicate 14 0, sfi_indirect = 0, sfi_waste = replicate 110 0\<rparr>"

definition small_file :: sfs_dinode where
  "small_file = \<lparr>sfi_size = 8704, sfi_type = 1, sfi_linkcount = 1, sfi_direct = 4 # replicate 14 0, sfi_indirect = 5, sfi_waste = replicate 110 0\<rparr>"

definition small_map :: "u8 list" where
  "small_map = [0xff, 0x01] @ replicate 510 0xff"

definition small_disk :: "u32 \<Rightarrow> u8 list" where
  "small_disk b =
     (if b = 0 then superblock_bytes small_sb
      else if b = 1 then dinode_bytes small_root
      else if b = 2 then small_map
      else if b = 3 then dinode_bytes small_file
      else if b = 4 then replicate 512 104
      else if b = 5 then be_words ([6, 7] @ replicate 126 0)
      else if b = 6 then replicate 512 105
      else if b = 7 then replicate 512 106
      else if b = 8 then direntry_bytes \<lparr>sfd_ino = 3, sfd_name = 97 # replicate 59 0\<rparr> @ replicate 448 0
      else zblock)"

definition small_world :: world where
  "small_world =
     \<lparr>w_sfs = \<lparr>sfs_sb = small_sb, sfs_superdirty = False, sfs_device = True,
        sfs_vnodes = \<lparr>arr_v = [0, 1, 0, 0], arr_num = 2, arr_max = 4\<rparr>,
        sfs_freemap = Some \<lparr>nbits = 4096, v = small_map\<rparr>, sfs_freemapdirty = False\<rparr>,
      w_vn = [0 \<mapsto> \<lparr>vn_ops = sfs_dirops, vn_refcount = 1, sv_i = small_root, sv_ino = 1, sv_dirty = False\<rparr>,
              1 \<mapsto> \<lparr>vn_ops = sfs_fileops, vn_refcount = 1, sv_i = small_file, sv_ino = 3, sv_dirty = False\<rparr>],
      w_next = 2,
      w_dev = \<lparr>lh_buf = zblock, lh_result = None, lh_clear = 1, lh_done = 0, d_blocks = 16, d_blocksize = 512, lh_stat = 0,
        lh_card = disk_card small_disk\<rparr>,
      w_bl = bl_set 0,
      w_kmem = \<lambda>_. True\<rparr>"

definition small_root_vn :: sfs_vnode where
  "small_root_vn = \<lparr>vn_ops = sfs_dirops, vn_refcount = 1, sv_i = small_root, sv_ino = 1, sv_dirty = False\<rparr>"

definition small_file_vn :: sfs_vnode where
  "small_file_vn = \<lparr>vn_ops = sfs_fileops, vn_refcount = 1, sv_i = small_file, sv_ino = 3, sv_dirty = False\<rparr>"

lemma small_inodes_ok [simp]: "dinode_ok small_root" "dinode_ok small_file" "superblock_ok small_sb"
  by (simp_all add: small_root_def small_file_def small_sb_def dinode_ok_def superblock_ok_def)

lemma length_small_disk [simp]: "length (small_disk b) = 512"
  by (simp add: small_disk_def small_map_def direntry_bytes_def zblock_def)

lemma dk_small_world: "b < 16 \<Longrightarrow> dk small_world b = small_disk b"
  by (simp add: dk_def dsk_def small_world_def)

lemma small_vnodes: "w_vn small_world 0 = Some small_root_vn" "w_vn small_world 1 = Some small_file_vn"
  by (simp_all add: small_world_def small_root_vn_def small_file_vn_def)

lemma nblocks_small_world [simp]: "nblocks small_world = 16"
  by (simp add: nblocks_def small_world_def small_sb_def)

lemma bit_all_ones: "bit (0xff :: u8) k \<longleftrightarrow> k < 8"
proof -
  have "(0xff :: u8) = -1" by simp
  then show ?thesis by (simp only: bit_minus_1_iff possible_bit_word) simp
qed

lemma small_map_bit: "i < 4096 \<Longrightarrow> bit (small_map ! (i div 8)) (i mod 8) \<longleftrightarrow> i < 9 \<or> 16 \<le> i"
proof -
  assume i: "i < 4096"
  consider "i div 8 = 0" | "i div 8 = 1" | "2 \<le> i div 8" by linarith
  then show ?thesis
  proof cases
    case 1
    then have "i < 8" by (simp add: div_eq_0_iff)
    moreover have "small_map ! (i div 8) = 0xff" using 1 by (simp add: small_map_def)
    ultimately show ?thesis using bit_all_ones [of "i mod 8"] by simp
  next
    case 2
    then have "8 \<le> i" "i < 16" by linarith+
    moreover have "bit (1 :: u8) (i mod 8) \<longleftrightarrow> i mod 8 = 0" by (simp add: bit_1_iff)
    moreover have "i mod 8 = i - 8" using \<open>8 \<le> i\<close> \<open>i < 16\<close> by (simp add: mod_if)
    ultimately show ?thesis using 2 by (auto simp: small_map_def)
  next
    case 3
    then have "small_map ! (i div 8) = 0xff" using i by (simp add: small_map_def nth_append nth_Cons')
    moreover have "16 \<le> i" using 3 by linarith
    ultimately show ?thesis using bit_all_ones [of "i mod 8"] by simp
  qed
qed

lemma in_use_small_world: "b \<in> in_use small_world \<longleftrightarrow> unat b < 9 \<or> 16 \<le> unat b \<and> unat b < 4096"
  using small_map_bit [of "unat b"] by (auto simp: in_use_def small_world_def marked_def bit_at_def word_less_nat_alt)

lemma small_world_blk_ok: "blk_ok (small_world\<lparr>w_bl := bl_set (Suc n)\<rparr>)"
proof -
  have "dev_ok (w_dev small_world)" by (simp add: dev_ok_def small_world_def zblock_def good_disk_card)
  moreover have "bitmap_wf \<lparr>nbits = 4096, v = small_map\<rparr>"
    by (simp add: bitmap_wf_def) (simp add: small_map_def)
  moreover have "b < 16" if "b < 4096" "b \<notin> marked \<lparr>nbits = 4096, v = small_map\<rparr>" for b
    using that in_use_small_world [of b] by (auto simp: in_use_def small_world_def word_less_nat_alt)
  ultimately show ?thesis
    by (auto simp: blk_ok_def io_ok_def fm_ok_def) (simp_all add: small_world_def)
qed

subsection \<open>Allocation\<close>

text \<open>C12: On a healthy file system \<^verbatim>\<open>sfs_balloc\<close> never stops the kernel. Either every block of the volume is in use, and it
  fails with \<^verbatim>\<open>ENOSPC\<close> and changes nothing; or it gives out a block of the volume that was free, marks exactly that
  block, clears it on disk and leaves every other block alone. Freeing that block takes the allocation back.\<close>

theorem sfs_balloc_correct:
  assumes "blk_ok w"
  shows "\<exists>r w'. sfs_balloc w = Some (r, w') \<and> blk_ok w' \<and>
    (case r of
       Inl e \<Rightarrow> e = ENOSPC \<and> (\<forall>b. b < nblocks w \<longrightarrow> b \<in> in_use w) \<and> w' = w
     | Inr b \<Rightarrow> b \<notin> in_use w \<and> b < nblocks w \<and> in_use w' = insert b (in_use w) \<and> dk w' = (dk w)(b := zblock) \<and>
         (\<exists>w''. sfs_bfree b w' = Some w'' \<and> blk_ok w'' \<and> in_use w'' = in_use w \<and> dk w'' = dk w'))"
  using assms
proof (cases rule: sfs_balloc_cases)
  case full
  then show ?thesis using assms by auto
next
  case (found b w')
  note s = found(4) [unfolded alloc_step_def]
  have "b < nblocks w'" using found(3) s by (simp add: nblocks_def)
  then obtain w'' where "sfs_bfree b w' = Some w''" "alloc_step w' (dk w') (in_use w' - {b}) w''"
    using sfs_bfree_spec [of w' b] s by auto
  then show ?thesis using found s by (auto simp: alloc_step_def)
qed

theorem sfs_balloc_correct_witness:
  "\<exists>b w'. sfs_balloc (small_world\<lparr>w_bl := bl_set 1\<rparr>) = Some (Inr b, w') \<and> b \<notin> in_use small_world \<and> dk w' b = zblock"
proof -
  let ?w = "small_world\<lparr>w_bl := bl_set 1\<rparr>"
  have "(9 :: u32) < 16" "9 \<notin> in_use small_world" by (simp_all add: in_use_small_world)
  moreover obtain r w' where "sfs_balloc ?w = Some (r, w')" "case r of
      Inl e \<Rightarrow> e = ENOSPC \<and> (\<forall>b. b < nblocks ?w \<longrightarrow> b \<in> in_use ?w) \<and> w' = ?w
    | Inr b \<Rightarrow> b \<notin> in_use ?w \<and> b < nblocks ?w \<and> in_use w' = insert b (in_use ?w) \<and> dk w' = (dk ?w)(b := zblock) \<and>
        (\<exists>w''. sfs_bfree b w' = Some w'' \<and> blk_ok w'' \<and> in_use w'' = in_use ?w \<and> dk w'' = dk w')"
    using sfs_balloc_correct [of ?w] small_world_blk_ok [of 0] by auto
  ultimately show ?thesis by (cases r) auto
qed

subsection \<open>Lost writes\<close>

text \<open>C23: A write whose transfer fails on the medium is reported as a success. The driver has consumed the data
  by the time the card reports the error, so the retry of \<^verbatim>\<open>sfs_rwblock\<close> asks for a transfer of no sectors, which
  succeeds without a command to the card.\<close>

theorem sfs_write_error_lost:
  assumes "card_op (lh_card (w_dev w)) (LHD_WORKING OR LHD_ISWRITE) b data = (st, buf', c)" "st AND LHD_STATEMASK = LHD_MEDIA"
    and "lh_clear (w_dev w) = 1" "lh_done (w_dev w) = 0" "length (lh_buf (w_dev w)) = 512" "b < d_blocks (w_dev w)"
    and "vfs_biglock_do_i_hold (w_bl w)" "sfs_device (w_sfs w)" "length data = 512"
  shows "\<exists>w'. sfs_writeblock b data w = Some (Inr (), w') \<and> lh_card (w_dev w') = c"
proof -
  let ?u = "SFSUIO b UIO_WRITE" and ?d = "w_dev w"
  have ub: "512 \<le> length (uio_addrs ?u)" "512 \<le> uio_resid ?u" "uio_ok (\<lambda>_. False) ?u" "uio_resid ?u = 512"
    "uio_space ?u = (if uio_segflg ?u = UIO_SYSSPACE then None else None)"
    using SFSUIO_facts(4) [of b UIO_WRITE] by (simp_all add: uio_block_def)
  obtain u' where u': "uiomove (\<lambda>_. False) None (lh_buf ?d) LHD_SECTSIZE ?u (kbuf_mem data) = Some (Inr (), data, u', kbuf_mem data)"
    "uio_resid u' = 0" "uio_offset u' = 512 * uint b + 512" "uio_rw u' = UIO_WRITE"
    using uiomove_sector [OF ub(1-3) assms(5) ub(5), of "kbuf_mem data"] assms(9) ub(4)
    by (auto simp: SFSUIO_facts map_kbuf_mem)
  let ?d1 = "?d\<lparr>lh_clear := 1, lh_stat := 0, lh_buf := buf', lh_card := c, lh_result := Some EIO, lh_done := 0\<rparr>"
  have s: "lhd_start b (LHD_WORKING OR LHD_ISWRITE) (?d\<lparr>lh_clear := 0, lh_buf := data\<rparr>) =
      ?d\<lparr>lh_clear := 0, lh_stat := 0, lh_buf := buf', lh_card := c, lh_result := Some EIO, lh_done := 1\<rparr>"
    using assms(1,2,4) by (cases ?d) (simp add: lhd_start_def lhd_irq_def Let_def lhd_iodone_def lhd_code_to_errno_def lhd_codes)
  have one: "lhd_io (\<lambda>_. False) None ?u (kbuf_mem data) ?d = Some (Inl EIO, u', kbuf_mem data, ?d1)"
    using lhd_io_one [OF SFSUIO_facts(1) ub(4) assms(6), of "\<lambda>_. False" None "kbuf_mem data"] assms(3,4) u'(1) s
    by (simp add: SFSUIO_facts(2) down_def Let_def)
  have "tdiv (512 * uint b + 512) 512 = uint b + 1" "tmod (512 * uint b + 512) 512 = 0"
    by (simp_all add: tdiv_def tmod_def)
  moreover have "\<not> d_blocks ?d < b + 1"
    using unat_plus_one_less [OF assms(6)] assms(6) by (simp add: word_less_nat_alt)
  ultimately have two: "lhd_io (\<lambda>_. False) None u' (kbuf_mem data) ?d1 = Some (Inr (), u', kbuf_mem data, ?d1)"
    using u'(2-4) by (simp add: lhd_io_def Let_def LHD_SECTSIZE_def)
  have "rw_retry (\<lambda>_. False) None 9 u' (kbuf_mem data) (w\<lparr>w_dev := ?d1\<rparr>) = Some (Inr (), u', kbuf_mem data, w\<lparr>w_dev := ?d1\<rparr>)"
    by (subst rw_retry.simps) (use two assms(8) in simp)
  then have "rw_retry (\<lambda>_. False) None (Suc 9) ?u (kbuf_mem data) w = Some (Inr (), u', kbuf_mem data, w\<lparr>w_dev := ?d1\<rparr>)"
    by (subst rw_retry.simps) (use one assms(8) in \<open>simp add: Let_def\<close>)
  then show ?thesis using assms(7,9) by (simp add: sfs_writeblock_def sfs_rwblock_def SFS_BLOCKSIZE_def)
qed

theorem sfs_write_error_lost_witness:
  "\<exists>w'. sfs_writeblock 4 zblock (small_world\<lparr>w_bl := bl_set 1,
      w_dev := (w_dev small_world)\<lparr>lh_card := Card (\<lambda>cmd s buf. (LHD_MEDIA, buf, disk_card small_disk))\<rparr>\<rparr>) = Some (Inr (), w') \<and>
    medium (lh_card (w_dev w')) 4 = replicate 512 104"
proof -
  let ?w = "small_world\<lparr>w_bl := bl_set 1, w_dev := (w_dev small_world)\<lparr>lh_card := Card (\<lambda>cmd s buf. (LHD_MEDIA, buf, disk_card small_disk))\<rparr>\<rparr>"
  have "\<exists>w'. sfs_writeblock 4 zblock ?w = Some (Inr (), w') \<and> lh_card (w_dev w') = disk_card small_disk"
    by (rule sfs_write_error_lost [where st = LHD_MEDIA and buf' = zblock]) (simp_all add: small_world_def zblock_def lhd_codes)
  then show ?thesis by (auto simp: small_disk_def)
qed

end
