(* ===== verification/Sfsbmap.thy ===== *)
theory Sfsbmap
  imports Sfsblock
begin

text \<open>
  Block mapping of SFS, \<^verbatim>\<open>kern/fs/sfs/sfs_bmap.c\<close>: from a block of a file to a block of the disk, and truncation.
  Inodes are named by their address in \<open>w_vn\<close>. The indirect block is handled as the list of its 128 numbers.
\<close>

definition put_inode :: "nat \<Rightarrow> (sfs_dinode \<Rightarrow> sfs_dinode) \<Rightarrow> world \<Rightarrow> world kp" where
  "put_inode sv f w = do { x \<leftarrow> w_vn w sv; Some (put_vn sv (x\<lparr>sv_i := f (sv_i x), sv_dirty := True\<rparr>) w) }"

text \<open>The end of \<^verbatim>\<open>sfs_bmap\<close>: hand back the block, which must be in use.\<close>

definition bmap_return :: "u32 \<Rightarrow> world \<Rightarrow> ((errno + u32) \<times> world) kp" where
  "bmap_return block w = do {
     (if block \<noteq> 0 then do { used \<leftarrow> sfs_bused block w; kassert used } else Some ());
     Some (Inr block, w)
   }"

definition bmap_direct :: "nat \<Rightarrow> u32 \<Rightarrow> bool \<Rightarrow> world \<Rightarrow> ((errno + u32) \<times> world) kp" where
  "bmap_direct sv fileblock doalloc w = do {
     x \<leftarrow> w_vn w sv;
     block \<leftarrow> rd (sfi_direct (sv_i x)) (unat fileblock);
     if block = 0 \<and> doalloc then do {
       (result, w1) \<leftarrow> sfs_balloc w;
       (case result of
          Inl e \<Rightarrow> Some (Inl e, w1)
        | Inr block \<Rightarrow> do {
            w2 \<leftarrow> put_inode sv (\<lambda>i. i\<lparr>sfi_direct := (sfi_direct i)[unat fileblock := block]\<rparr>) w1;
            bmap_return block w2
          })
     }
     else bmap_return block w
   }"

text \<open>Get hold of the contents of the indirect block, allocating it if there is none.\<close>

definition bmap_idblock :: "nat \<Rightarrow> world \<Rightarrow> ((errno + u32 \<times> u32 list) \<times> world) kp" where
  "bmap_idblock sv w = do {
     x \<leftarrow> w_vn w sv;
     let idblock = sfi_indirect (sv_i x);
     if idblock = 0 then do {
       (result, w1) \<leftarrow> sfs_balloc w;
       (case result of
          Inl e \<Rightarrow> Some (Inl e, w1)
        | Inr idblock \<Rightarrow> do {
            w2 \<leftarrow> put_inode sv (\<lambda>i. i\<lparr>sfi_indirect := idblock\<rparr>) w1;
            Some (Inr (idblock, replicate 128 0), w2)
          })
     }
     else do {
       (result, w1) \<leftarrow> sfs_readblock idblock w;
       (case result of
          Inl e \<Rightarrow> Some (Inl e, w1)
        | Inr bs \<Rightarrow> Some (Inr (idblock, of_be_words 128 bs), w1))
     }
   }"

definition bmap_indirect :: "nat \<Rightarrow> u32 \<Rightarrow> bool \<Rightarrow> world \<Rightarrow> ((errno + u32) \<times> world) kp" where
  "bmap_indirect sv idoff doalloc w = do {
     (result, w1) \<leftarrow> bmap_idblock sv w;
     (case result of
        Inl e \<Rightarrow> Some (Inl e, w1)
      | Inr (idblock, idbuf) \<Rightarrow> do {
          block \<leftarrow> rd idbuf (unat idoff);
          if block = 0 \<and> doalloc then do {
            (result, w2) \<leftarrow> sfs_balloc w1;
            (case result of
               Inl e \<Rightarrow> Some (Inl e, w2)
             | Inr block \<Rightarrow> do {
                 (result, w3) \<leftarrow> sfs_writeblock idblock (be_words (idbuf[unat idoff := block])) w2;
                 (case result of
                    Inl e \<Rightarrow> Some (Inl e, w3)
                  | Inr _ \<Rightarrow> bmap_return block w3)
               })
          }
          else bmap_return block w1
        })
   }"

definition sfs_bmap :: "nat \<Rightarrow> u32 \<Rightarrow> bool \<Rightarrow> world \<Rightarrow> ((errno + u32) \<times> world) kp" where
  "sfs_bmap sv fileblock doalloc w = do {
     kassert (vfs_biglock_do_i_hold (w_bl w));
     if fileblock < SFS_NDIRECT then bmap_direct sv fileblock doalloc w
     else do {
       let fileblock = fileblock - SFS_NDIRECT;
       let idnum = fileblock div SFS_DBPERIDB;
       let idoff = fileblock mod SFS_DBPERIDB;
       if idnum \<ge> SFS_NINDIRECT then Some (Inl EFBIG, w)
       else do {
         x \<leftarrow> w_vn w sv;
         if sfi_indirect (sv_i x) = 0 \<and> \<not> doalloc then Some (Inr 0, w)
         else bmap_indirect sv idoff doalloc w
       }
     }
   }"

subsection \<open>Truncation\<close>

text \<open>The loop over the direct blocks, for the indices given.\<close>

fun itrunc_direct :: "nat \<Rightarrow> u32 \<Rightarrow> nat list \<Rightarrow> world \<Rightarrow> world kp" where
  "itrunc_direct sv blocklen [] w = Some w"
| "itrunc_direct sv blocklen (i # is) w = do {
     x \<leftarrow> w_vn w sv;
     block \<leftarrow> rd (sfi_direct (sv_i x)) i;
     if of_nat i \<ge> blocklen \<and> block \<noteq> 0 then do {
       w1 \<leftarrow> sfs_bfree block w;
       w2 \<leftarrow> put_inode sv (\<lambda>n. n\<lparr>sfi_direct := (sfi_direct n)[i := 0]\<rparr>) w1;
       itrunc_direct sv blocklen is w2
     }
     else itrunc_direct sv blocklen is w
   }"

text \<open>The loop over the indirect block: its contents, \<^verbatim>\<open>hasnonzero\<close> and \<^verbatim>\<open>iddirty\<close>.\<close>

fun itrunc_indirect :: "u32 \<Rightarrow> u32 \<Rightarrow> nat list \<Rightarrow> u32 list \<Rightarrow> bool \<Rightarrow> bool \<Rightarrow> world \<Rightarrow> (u32 list \<times> bool \<times> bool \<times> world) kp" where
  "itrunc_indirect blocklen baseblock [] idbuf hasnonzero iddirty w = Some (idbuf, hasnonzero, iddirty, w)"
| "itrunc_indirect blocklen baseblock (j # js) idbuf hasnonzero iddirty w = do {
     block \<leftarrow> rd idbuf j;
     (idbuf1, iddirty1, w1) \<leftarrow>
       (if blocklen < baseblock + of_nat j \<and> block \<noteq> 0 then do {
          w1 \<leftarrow> sfs_bfree block w;
          Some (idbuf[j := 0], True, w1)
        }
        else Some (idbuf, iddirty, w));
     block1 \<leftarrow> rd idbuf1 j;
     itrunc_indirect blocklen baseblock js idbuf1 (hasnonzero \<or> block1 \<noteq> 0) iddirty1 w1
   }"

definition itrunc_idblock :: "nat \<Rightarrow> u32 \<Rightarrow> world \<Rightarrow> ((errno + unit) \<times> world) kp" where
  "itrunc_idblock sv blocklen w = do {
     x \<leftarrow> w_vn w sv;
     let idblock = sfi_indirect (sv_i x);
     let baseblock = SFS_NDIRECT;
     let highblock = baseblock + SFS_DBPERIDB - 1;
     if blocklen < highblock \<and> idblock \<noteq> 0 then do {
       (result, w1) \<leftarrow> sfs_readblock idblock w;
       (case result of
          Inl e \<Rightarrow> Some (Inl e, w1)
        | Inr bs \<Rightarrow> do {
            (idbuf, hasnonzero, iddirty, w2) \<leftarrow>
              itrunc_indirect blocklen baseblock [0..<unat SFS_DBPERIDB] (of_be_words 128 bs) False False w1;
            if \<not> hasnonzero then do {
              w3 \<leftarrow> sfs_bfree idblock w2;
              w4 \<leftarrow> put_inode sv (\<lambda>n. n\<lparr>sfi_indirect := 0\<rparr>) w3;
              Some (Inr (), w4)
            }
            else if iddirty then sfs_writeblock idblock (be_words idbuf) w2
            else Some (Inr (), w2)
          })
     }
     else Some (Inr (), w)
   }"

definition sfs_itrunc :: "nat \<Rightarrow> int \<Rightarrow> world \<Rightarrow> ((errno + unit) \<times> world) kp" where
  "sfs_itrunc sv len w = do {
     let blocklen = of_int (tdiv (len + 512 - 1) 512);
     w1 \<leftarrow> biglock_acquire w;
     w2 \<leftarrow> itrunc_direct sv blocklen [0..<unat SFS_NDIRECT] w1;
     (result, w3) \<leftarrow> itrunc_idblock sv blocklen w2;
     (case result of
        Inl e \<Rightarrow> do { w4 \<leftarrow> biglock_release w3; Some (Inl e, w4) }
      | Inr _ \<Rightarrow> do {
          w4 \<leftarrow> put_inode sv (\<lambda>n. n\<lparr>sfi_size := of_int len\<rparr>) w3;
          w5 \<leftarrow> biglock_release w4;
          Some (Inr (), w5)
        })
   }"

subsection \<open>What an inode maps\<close>

text \<open>The block number for block \<open>n\<close> of a file, given the contents of the disk; 0 is a hole. The contents of that block.
  The blocks an inode owns.\<close>

definition fblk :: "(u32 \<Rightarrow> u8 list) \<Rightarrow> sfs_dinode \<Rightarrow> nat \<Rightarrow> u32" where
  "fblk D di n =
     (if n < 15 then sfi_direct di ! n
      else if n < 143 \<and> sfi_indirect di \<noteq> 0 then of_be_words 128 (D (sfi_indirect di)) ! (n - 15)
      else 0)"

definition fdata :: "(u32 \<Rightarrow> u8 list) \<Rightarrow> sfs_dinode \<Rightarrow> nat \<Rightarrow> u8 list" where
  "fdata D di n = (if fblk D di n = 0 then zblock else D (fblk D di n))"

definition owned :: "(u32 \<Rightarrow> u8 list) \<Rightarrow> sfs_dinode \<Rightarrow> u32 set" where
  "owned D di = insert (sfi_indirect di) (fblk D di ` {..<143}) - {0}"

text \<open>A sound inode: its blocks are in use and inside the file system, and no block serves two purposes.\<close>

definition inode_ok :: "(u32 \<Rightarrow> u8 list) \<Rightarrow> u32 set \<Rightarrow> u32 \<Rightarrow> sfs_dinode \<Rightarrow> bool" where
  "inode_ok D U N di \<longleftrightarrow> dinode_ok di \<and> owned D di \<subseteq> U \<and> (\<forall>b \<in> owned D di. b < N) \<and>
     inj_on (fblk D di) {n. n < 143 \<and> fblk D di n \<noteq> 0} \<and> (sfi_indirect di \<noteq> 0 \<longrightarrow> sfi_indirect di \<notin> fblk D di ` {..<143})"

lemma fblk_owned: "n < 143 \<Longrightarrow> fblk D di n \<noteq> 0 \<Longrightarrow> fblk D di n \<in> owned D di"
  by (auto simp: owned_def)

lemma indirect_owned: "sfi_indirect di \<noteq> 0 \<Longrightarrow> sfi_indirect di \<in> owned D di"
  by (simp add: owned_def)

lemma fblk_cong: "D (sfi_indirect di) = D' (sfi_indirect di) \<Longrightarrow> fblk D di n = fblk D' di n"
  by (simp add: fblk_def)

lemma owned_cong: "D (sfi_indirect di) = D' (sfi_indirect di) \<Longrightarrow> owned D di = owned D' di"
  using fblk_cong [of D di D'] by (simp add: owned_def)

text \<open>Nothing an inode maps changes when the disk changes elsewhere.\<close>

lemma inode_frame:
  assumes "\<And>b. b \<in> owned D di \<Longrightarrow> D' b = D b" "n < 143"
  shows "fblk D' di n = fblk D di n" "fdata D' di n = fdata D di n"
proof -
  have *: "fblk D' di n = fblk D di n"
  proof (cases "sfi_indirect di = 0")
    case False
    then show ?thesis using assms(1) [OF indirect_owned] by (intro fblk_cong) simp
  qed (simp add: fblk_def)
  then show "fblk D' di n = fblk D di n" .
  show "fdata D' di n = fdata D di n"
    using * assms fblk_owned [OF assms(2), of D di] by (auto simp: fdata_def)
qed

lemma owned_frame:
  assumes "\<And>b. b \<in> owned D di \<Longrightarrow> D' b = D b"
  shows "owned D' di = owned D di"
proof -
  have "fblk D' di ` {..<143} = fblk D di ` {..<143}" using inode_frame(1) [OF assms] by (intro image_cong) auto
  then show ?thesis by (simp add: owned_def)
qed

lemma inode_ok_frame:
  assumes "inode_ok D U N di" "\<And>b. b \<in> owned D di \<Longrightarrow> D' b = D b" "owned D di \<subseteq> U'"
  shows "inode_ok D' U' N di"
proof -
  have f: "fblk D' di n = fblk D di n" if "n < 143" for n using inode_frame(1) [OF assms(2) that] .
  have "fblk D' di ` {..<143} = fblk D di ` {..<143}" using f by (intro image_cong) auto
  moreover have "inj_on (fblk D' di) {n. n < 143 \<and> fblk D' di n \<noteq> 0}"
    using assms(1) f by (auto simp: inode_ok_def inj_on_def)
  ultimately show ?thesis using assms(1,3) owned_frame [OF assms(2)] by (simp add: inode_ok_def)
qed

text \<open>A fresh, cleared block becomes block \<open>n\<close> of the file.\<close>

lemma inode_grow:
  assumes ok: "inode_ok D U N di" and b: "b \<notin> U" "b < N" "0 \<in> U" and n: "n < 143" "fblk D di n = 0"
    and f: "\<And>k. k < 143 \<Longrightarrow> fblk D' di' k = (if k = n then b else fblk D di k)"
    and di': "sfi_indirect di' = sfi_indirect di" "dinode_ok di'"
    and D': "D' b = zblock" "\<And>c. c \<in> U \<Longrightarrow> c \<noteq> sfi_indirect di \<Longrightarrow> D' c = D c"
  shows "inode_ok D' (insert b U) N di'" "owned D' di' = insert b (owned D di)"
    "\<And>k. k < 143 \<Longrightarrow> fdata D' di' k = fdata D di k"
proof -
  have b0: "b \<noteq> 0" using b by auto
  have img: "insert 0 (fblk D' di' ` {..<143}) = insert b (insert 0 (fblk D di ` {..<143}))"
    using f n by (auto simp: image_iff)
  show ow: "owned D' di' = insert b (owned D di)"
  proof -
    have "owned D' di' = insert (sfi_indirect di) (insert 0 (fblk D' di' ` {..<143})) - {0}"
      by (auto simp: owned_def di'(1))
    also have "\<dots> = insert b (owned D di)" unfolding img using b0 by (auto simp: owned_def)
    finally show ?thesis .
  qed
  have sub: "owned D di \<subseteq> U" and lt: "\<forall>c \<in> owned D di. c < N"
    and inj: "inj_on (fblk D di) {n. n < 143 \<and> fblk D di n \<noteq> 0}"
    and ind: "sfi_indirect di \<noteq> 0 \<longrightarrow> sfi_indirect di \<notin> fblk D di ` {..<143}"
    using ok by (simp_all add: inode_ok_def)
  have new: "fblk D di k \<noteq> b" if "k < 143" for k using fblk_owned [OF that, of D di] sub b b0 by auto
  have "inj_on (fblk D' di') {n. n < 143 \<and> fblk D' di' n \<noteq> 0}"
  proof (rule inj_onI)
    fix k l assume *: "k \<in> {n. n < 143 \<and> fblk D' di' n \<noteq> 0}" "l \<in> {n. n < 143 \<and> fblk D' di' n \<noteq> 0}" "fblk D' di' k = fblk D' di' l"
    then show "k = l" using f [of k] f [of l] new [of k] new [of l] inj_onD [OF inj, of k l] by (auto split: if_splits)
  qed
  moreover have "sfi_indirect di' \<notin> fblk D' di' ` {..<143}" if i: "sfi_indirect di' \<noteq> 0"
  proof
    assume "sfi_indirect di' \<in> fblk D' di' ` {..<143}"
    then obtain k where k: "k < 143" "sfi_indirect di = fblk D' di' k" using di'(1) by auto
    have "sfi_indirect di \<in> U" using i di'(1) indirect_owned sub by auto
    then show False using k f [OF k(1)] ind i di'(1) b(1) by (auto split: if_splits)
  qed
  ultimately show "inode_ok D' (insert b U) N di'"
    using ow sub lt b(2) di'(2) by (auto simp: inode_ok_def)
  show "fdata D' di' k = fdata D di k" if k: "k < 143" for k
  proof (cases "k = n \<or> fblk D di k = 0")
    case True
    then show ?thesis using f [OF k] n(2) b0 D'(1) by (auto simp: fdata_def)
  next
    case False
    then have "fblk D di k \<in> U" using fblk_owned [OF k, of D di] sub by auto
    moreover have "fblk D di k \<in> fblk D di ` {..<143}" using k by simp
    then have "fblk D di k \<noteq> sfi_indirect di" using ind False by metis
    ultimately have "D' (fblk D di k) = D (fblk D di k)" by (rule D'(2))
    then show ?thesis using False f [OF k] by (simp add: fdata_def)
  qed
qed

lemma words_zblock: "i < 128 \<Longrightarrow> of_be_words 128 zblock ! i = 0"
  by (simp add: of_be_words_nth zblock_def take_replicate drop_replicate of_be32_def)

lemma words_replicate: "of_be_words 128 zblock = replicate 128 0"
  by (rule nth_equalityI) (simp_all add: words_zblock)

text \<open>A fresh, cleared block becomes the indirect block.\<close>

lemma inode_new_indirect:
  assumes ok: "inode_ok D U N di" and b: "b \<notin> U" "b < N" "0 \<in> U" and i: "sfi_indirect di = 0"
    and D': "D' b = zblock" "\<And>c. c \<in> U \<Longrightarrow> D' c = D c"
  shows "inode_ok D' (insert b U) N (di\<lparr>sfi_indirect := b\<rparr>)" "owned D' (di\<lparr>sfi_indirect := b\<rparr>) = insert b (owned D di)"
    "\<And>k. k < 143 \<Longrightarrow> fblk D' (di\<lparr>sfi_indirect := b\<rparr>) k = fblk D di k"
    "\<And>k. k < 143 \<Longrightarrow> fdata D' (di\<lparr>sfi_indirect := b\<rparr>) k = fdata D di k"
proof -
  let ?di = "di\<lparr>sfi_indirect := b\<rparr>"
  have b0: "b \<noteq> 0" using b by auto
  show f: "fblk D' ?di k = fblk D di k" if "k < 143" for k
    using that i D'(1) by (auto simp: fblk_def words_zblock)
  have img: "fblk D' ?di ` {..<143} = fblk D di ` {..<143}" using f by (intro image_cong) auto
  show ow: "owned D' ?di = insert b (owned D di)" using b0 i by (auto simp: owned_def img)
  have sub: "owned D di \<subseteq> U" using ok by (simp add: inode_ok_def)
  have "b \<notin> fblk D di ` {..<143}" using sub b b0 fblk_owned [of _ D di] by auto
  moreover have "inj_on (fblk D' ?di) {n. n < 143 \<and> fblk D' ?di n \<noteq> 0}"
    using ok f by (auto simp: inode_ok_def inj_on_def)
  ultimately show "inode_ok D' (insert b U) N ?di"
    using ok ow b(2) by (auto simp: inode_ok_def img dinode_ok_def)
  show "fdata D' ?di k = fdata D di k" if k: "k < 143" for k
    using f [OF k] fblk_owned [OF k, of D di] sub D'(2) by (auto simp: fdata_def)
qed

subsection \<open>The effect of mapping\<close>

text \<open>\<open>w'\<close> arises from \<open>w\<close> by giving blocks to the inode at \<open>sv\<close>: its other attributes and the contents of the file stay, the
  new blocks were free, and no other block in use changes, except the indirect block of the inode.\<close>

definition same_fs :: "world \<Rightarrow> world \<Rightarrow> bool" where
  "same_fs w w' \<longleftrightarrow>
     sfs_sb (w_sfs w') = sfs_sb (w_sfs w) \<and> sfs_superdirty (w_sfs w') = sfs_superdirty (w_sfs w) \<and>
     sfs_device (w_sfs w') = sfs_device (w_sfs w) \<and> sfs_vnodes (w_sfs w') = sfs_vnodes (w_sfs w) \<and>
     (\<not> sfs_freemapdirty (w_sfs w') \<longrightarrow> sfs_freemap (w_sfs w') = sfs_freemap (w_sfs w) \<and> \<not> sfs_freemapdirty (w_sfs w)) \<and>
     w_next w' = w_next w \<and> w_bl w' = w_bl w \<and> w_kmem w' = w_kmem w \<and> d_blocks (w_dev w') = d_blocks (w_dev w)"

lemma same_fs_refl [simp]: "same_fs w w"
  by (simp add: same_fs_def)

lemma same_fs_trans: "same_fs w w' \<Longrightarrow> same_fs w' w'' \<Longrightarrow> same_fs w w''"
  by (auto simp: same_fs_def)

lemma same_fs_nblocks: "same_fs w w' \<Longrightarrow> nblocks w' = nblocks w"
  by (simp add: same_fs_def nblocks_def)

lemma alloc_step_facts:
  assumes "alloc_step w D U w'"
  shows "same_fs w w'" "w_vn w' = w_vn w" "blk_ok w'" "dk w' = D" "in_use w' = U" "nblocks w' = nblocks w"
  using assms by (simp_all add: alloc_step_def same_fs_def nblocks_def)

definition same_meta :: "sfs_dinode \<Rightarrow> sfs_dinode \<Rightarrow> bool" where
  "same_meta di di' \<longleftrightarrow> sfi_size di' = sfi_size di \<and> sfi_type di' = sfi_type di \<and> sfi_linkcount di' = sfi_linkcount di \<and>
     sfi_waste di' = sfi_waste di"

definition same_vnode :: "sfs_vnode \<Rightarrow> sfs_vnode \<Rightarrow> bool" where
  "same_vnode x x' \<longleftrightarrow> vn_ops x' = vn_ops x \<and> vn_refcount x' = vn_refcount x \<and> sv_ino x' = sv_ino x"

definition bmap_step :: "nat \<Rightarrow> sfs_vnode \<Rightarrow> world \<Rightarrow> sfs_vnode \<Rightarrow> world \<Rightarrow> bool" where
  "bmap_step sv x w x' w' \<longleftrightarrow>
     same_fs w w' \<and> blk_ok w' \<and> w_vn w' = (w_vn w)(sv \<mapsto> x') \<and>
     same_vnode x x' \<and> (sv_dirty x' \<or> sv_i x' = sv_i x \<and> sv_dirty x' = sv_dirty x) \<and>
     same_meta (sv_i x) (sv_i x') \<and>
     inode_ok (dk w') (in_use w') (nblocks w') (sv_i x') \<and>
     in_use w \<subseteq> in_use w' \<and> owned (dk w') (sv_i x') = owned (dk w) (sv_i x) \<union> (in_use w' - in_use w) \<and>
     (sfi_indirect (sv_i x') = sfi_indirect (sv_i x) \<or> sfi_indirect (sv_i x) = 0 \<and> sfi_indirect (sv_i x') \<notin> in_use w) \<and>
     (\<forall>b. b \<in> in_use w \<longrightarrow> b = 0 \<or> b \<noteq> sfi_indirect (sv_i x) \<longrightarrow> dk w' b = dk w b) \<and>
     (\<forall>n. n < 143 \<longrightarrow> fdata (dk w') (sv_i x') n = fdata (dk w) (sv_i x) n)"

lemma bmap_step_refl:
  "blk_ok w \<Longrightarrow> w_vn w sv = Some x \<Longrightarrow> inode_ok (dk w) (in_use w) (nblocks w) (sv_i x) \<Longrightarrow> bmap_step sv x w x w"
  by (auto simp: bmap_step_def same_meta_def same_vnode_def)

lemma bmap_stepD:
  assumes "bmap_step sv x w x' w'"
  shows "same_fs w w'" "blk_ok w'" "w_vn w' = (w_vn w)(sv \<mapsto> x')" "same_vnode x x'"
    "sv_dirty x' \<or> sv_i x' = sv_i x \<and> sv_dirty x' = sv_dirty x" "same_meta (sv_i x) (sv_i x')"
    "inode_ok (dk w') (in_use w') (nblocks w') (sv_i x')" "in_use w \<subseteq> in_use w'"
    "owned (dk w') (sv_i x') = owned (dk w) (sv_i x) \<union> (in_use w' - in_use w)"
    "sfi_indirect (sv_i x') = sfi_indirect (sv_i x) \<or> sfi_indirect (sv_i x) = 0 \<and> sfi_indirect (sv_i x') \<notin> in_use w"
    "\<And>b. b \<in> in_use w \<Longrightarrow> b = 0 \<or> b \<noteq> sfi_indirect (sv_i x) \<Longrightarrow> dk w' b = dk w b"
    "\<And>n. n < 143 \<Longrightarrow> fdata (dk w') (sv_i x') n = fdata (dk w) (sv_i x) n"
  using assms by (simp_all only: bmap_step_def simp_thms)

lemma bmap_step_trans:
  assumes "bmap_step sv x w x1 w1" "bmap_step sv x1 w1 x2 w2"
  shows "bmap_step sv x w x2 w2"
proof -
  note 1 = bmap_stepD [OF assms(1)] and 2 = bmap_stepD [OF assms(2)]
  have "dk w2 b = dk w b" if "b \<in> in_use w" "b = 0 \<or> b \<noteq> sfi_indirect (sv_i x)" for b
    using 1(8,10) 1(11) [OF that] 2(11) [of b] that by auto
  moreover have "sfi_indirect (sv_i x2) = sfi_indirect (sv_i x) \<or> sfi_indirect (sv_i x) = 0 \<and> sfi_indirect (sv_i x2) \<notin> in_use w"
    using 1(8,10) 2(10) by (metis subsetD)
  moreover have "owned (dk w2) (sv_i x2) = owned (dk w) (sv_i x) \<union> (in_use w2 - in_use w)" using 1(8,9) 2(8,9) by blast
  moreover have "same_meta (sv_i x) (sv_i x2)" using 1(6) 2(6) by (simp add: same_meta_def)
  moreover have "same_vnode x x2" using 1(4) 2(4) by (simp add: same_vnode_def)
  moreover have "sv_dirty x2 \<or> sv_i x2 = sv_i x \<and> sv_dirty x2 = sv_dirty x" using 1(5) 2(5) by auto
  moreover have "w_vn w2 = (w_vn w)(sv \<mapsto> x2)" using 1(3) 2(3) by simp
  moreover have "in_use w \<subseteq> in_use w2" using 1(8) 2(8) by blast
  ultimately show ?thesis
    using same_fs_trans [OF 1(1) 2(1)] 1(12) 2(2,7,12) unfolding bmap_step_def by simp
qed

lemma put_vn_simps [simp]:
  "w_sfs (put_vn sv x w) = w_sfs w" "w_vn (put_vn sv x w) = (w_vn w)(sv \<mapsto> x)" "w_next (put_vn sv x w) = w_next w"
  "w_dev (put_vn sv x w) = w_dev w" "w_bl (put_vn sv x w) = w_bl w" "w_kmem (put_vn sv x w) = w_kmem w"
  by (simp_all add: put_vn_def)

lemma put_vn_views [simp]:
  "dk (put_vn sv x w) = dk w" "in_use (put_vn sv x w) = in_use w" "nblocks (put_vn sv x w) = nblocks w"
  "io_ok (put_vn sv x w) = io_ok w" "fm_ok (put_vn sv x w) = fm_ok w" "blk_ok (put_vn sv x w) = blk_ok w"
  "same_fs w1 (put_vn sv x w) = same_fs w1 w"
  by (simp_all add: dk_def in_use_def nblocks_def io_ok_def fm_ok_def blk_ok_def same_fs_def)

lemma put_inode_eq: "w_vn w sv = Some x \<Longrightarrow> put_inode sv f w = Some (put_vn sv (x\<lparr>sv_i := f (sv_i x), sv_dirty := True\<rparr>) w)"
  by (simp add: put_inode_def)

definition bmap_pre :: "nat \<Rightarrow> sfs_vnode \<Rightarrow> world \<Rightarrow> bool" where
  "bmap_pre sv x w \<longleftrightarrow> blk_ok w \<and> w_vn w sv = Some x \<and> inode_ok (dk w) (in_use w) (nblocks w) (sv_i x) \<and> 0 \<in> in_use w"

definition bmap_post :: "bool \<Rightarrow> nat \<Rightarrow> sfs_vnode \<Rightarrow> world \<Rightarrow> errno + u32 \<Rightarrow> sfs_vnode \<Rightarrow> world \<Rightarrow> bool" where
  "bmap_post doalloc n x w r x' w' \<longleftrightarrow>
     (case r of
        Inl e \<Rightarrow> e = ENOSPC \<and> doalloc \<and> fblk (dk w) (sv_i x) n = 0 \<and> (\<forall>b. b < nblocks w \<longrightarrow> b \<in> in_use w')
      | Inr b \<Rightarrow> b = fblk (dk w') (sv_i x') n \<and> (doalloc \<longrightarrow> b \<noteq> 0)) \<and>
     (\<not> doalloc \<longrightarrow> x' = x \<and> in_use w' = in_use w \<and> dk w' = dk w)"

lemma bmap_preD:
  assumes "bmap_pre sv x w"
  shows "blk_ok w" "w_vn w sv = Some x" "inode_ok (dk w) (in_use w) (nblocks w) (sv_i x)" "0 \<in> in_use w"
    "dinode_ok (sv_i x)" "bmap_step sv x w x w"
  using assms bmap_step_refl by (simp_all add: bmap_pre_def inode_ok_def)

lemma bmap_pre_step: "bmap_step sv x w x' w' \<Longrightarrow> bmap_pre sv x w \<Longrightarrow> bmap_pre sv x' w'"
  using bmap_stepD [of sv x w x' w'] by (auto simp: bmap_pre_def)

lemma bmap_return_zero [simp]: "bmap_return 0 w = Some (Inr 0, w)"
  by (simp add: bmap_return_def)

lemma bmap_return_fblk:
  assumes "bmap_pre sv x w" "n < 143"
  shows "bmap_return (fblk (dk w) (sv_i x) n) w = Some (Inr (fblk (dk w) (sv_i x) n), w)"
proof (cases "fblk (dk w) (sv_i x) n = 0")
  case False
  then have "fblk (dk w) (sv_i x) n \<in> in_use w" "fblk (dk w) (sv_i x) n < nblocks w"
    using fblk_owned [OF assms(2), of "dk w" "sv_i x"] bmap_preD(3) [OF assms(1)] by (auto simp: inode_ok_def)
  then show ?thesis using False sfs_bused_spec [OF bmap_preD(1) [OF assms(1)]] by (simp add: bmap_return_def)
qed simp

lemma indirect_in_use: "inode_ok D U N di \<Longrightarrow> 0 \<in> U \<Longrightarrow> sfi_indirect di \<in> U"
  using indirect_owned [of di D] by (cases "sfi_indirect di = 0") (auto simp: inode_ok_def)

text \<open>Giving the inode one more block.\<close>

lemma bmap_step_alloc:
  assumes "bmap_pre sv x w" "b \<notin> in_use w" "b < nblocks w"
    and a: "alloc_step w D (insert b (in_use w)) w1"
    and D: "\<And>c. c \<in> in_use w \<Longrightarrow> c = 0 \<or> c \<noteq> sfi_indirect (sv_i x) \<Longrightarrow> D c = dk w c"
    and di: "inode_ok D (insert b (in_use w)) (nblocks w) di" "owned D di = insert b (owned (dk w) (sv_i x))"
      "\<And>k. k < 143 \<Longrightarrow> fdata D di k = fdata (dk w) (sv_i x) k" "same_meta (sv_i x) di"
      "sfi_indirect di = sfi_indirect (sv_i x) \<or> sfi_indirect (sv_i x) = 0 \<and> sfi_indirect di = b"
    and x': "x' = x\<lparr>sv_i := di, sv_dirty := d\<rparr>" "d \<or> di = sv_i x \<and> d = sv_dirty x"
  shows "bmap_step sv x w x' (put_vn sv x' w1)"
proof -
  note s = alloc_step_facts [OF a]
  have "owned D di = owned (dk w) (sv_i x) \<union> (insert b (in_use w) - in_use w)" using di(2) assms(2) by auto
  then show ?thesis
    using s D di assms(2) x'(2) unfolding bmap_step_def x'(1) by (auto simp: same_vnode_def)
qed

lemma bmap_direct_spec:
  assumes pre: "bmap_pre sv x w" and n: "unat fb < 15"
  shows "returns (bmap_direct sv fb doalloc w)
    (\<lambda>(r, w'). \<exists>x'. bmap_step sv x w x' w' \<and> bmap_post doalloc (unat fb) x w r x' w')"
proof -
  note p = bmap_preD [OF pre]
  let ?n = "unat fb" and ?di = "sv_i x"
  have l: "length (sfi_direct ?di) = 15" using p(5) by (simp add: dinode_ok_def)
  have f: "fblk (dk w) ?di ?n = sfi_direct ?di ! ?n" using n by (simp add: fblk_def)
  show ?thesis
  proof (cases "fblk (dk w) ?di ?n = 0 \<and> doalloc")
    case False
    then have "bmap_direct sv fb doalloc w = Some (Inr (fblk (dk w) ?di ?n), w)"
      using p(2) l n f bmap_return_fblk [OF pre, of ?n] by (auto simp: bmap_direct_def)
    moreover have "bmap_post doalloc ?n x w (Inr (fblk (dk w) ?di ?n)) x w" using False by (auto simp: bmap_post_def)
    ultimately show ?thesis using p(6) by auto
  next
    case True
    let ?u = "\<lambda>b. ?di\<lparr>sfi_direct := (sfi_direct ?di)[?n := b]\<rparr>"
    have new: "returns (do { w2 \<leftarrow> put_inode sv (\<lambda>i. i\<lparr>sfi_direct := (sfi_direct i)[?n := b]\<rparr>) w1; bmap_return b w2 })
        (\<lambda>(r, w'). \<exists>x'. bmap_step sv x w x' w' \<and> bmap_post doalloc ?n x w r x' w')"
      if b: "b \<notin> in_use w" "b < nblocks w" and a: "alloc_step w ((dk w)(b := zblock)) (insert b (in_use w)) w1" for b w1
    proof -
      let ?D = "(dk w)(b := zblock)" and ?x = "x\<lparr>sv_i := ?u b, sv_dirty := True\<rparr>"
      have i: "sfi_indirect ?di \<noteq> b" using b(1) indirect_in_use [OF p(3,4)] by auto
      have fk: "fblk ?D (?u b) k = (if k = ?n then b else fblk (dk w) ?di k)" if "k < 143" for k
        using n l i by (auto simp: fblk_def)
      have D: "?D c = dk w c" if "c \<in> in_use w" for c using that b(1) by auto
      have ok: "dinode_ok (?u b)" using p(5) by (simp add: dinode_ok_def)
      note g = inode_grow [OF p(3) b p(4) _ conjunct1 [OF True] fk _ ok _ D]
      have st: "bmap_step sv x w ?x (put_vn sv ?x w1)"
        by (rule bmap_step_alloc [where d = True, OF pre b a D g]) (use n in \<open>simp_all add: same_meta_def\<close>)
      have fb: "fblk (dk (put_vn sv ?x w1)) (sv_i ?x) ?n = b" using fk [of ?n] n alloc_step_facts(4) [OF a] by simp
      have "bmap_return b (put_vn sv ?x w1) = Some (Inr b, put_vn sv ?x w1)"
        using bmap_return_fblk [OF bmap_pre_step [OF st pre], of ?n] n fb by simp
      moreover have "bmap_post doalloc ?n x w (Inr b) ?x (put_vn sv ?x w1)" using True fb b p(4) by (auto simp: bmap_post_def)
      moreover have "w_vn w1 sv = Some x" using p(2) alloc_step_facts(2) [OF a] by simp
      ultimately show ?thesis using st by (auto simp: put_inode_eq)
    qed
    from p(1) show ?thesis
    proof (cases rule: sfs_balloc_cases)
      case full
      then have "bmap_post doalloc ?n x w (Inl ENOSPC) x w" using True by (simp add: bmap_post_def)
      then show ?thesis using full(1) p(2,6) l n f True by (auto simp: bmap_direct_def)
    next
      case (found b w1)
      then show ?thesis using new [OF found(2-4)] p(2) l n f True by (simp add: bmap_direct_def)
    qed
  qed
qed

lemma alloc_step_write: "alloc_step w D U w1 \<Longrightarrow> disk_step w1 D' w2 \<Longrightarrow> alloc_step w D' U w2"
  by (auto simp: alloc_step_def disk_step_def blk_ok_def io_ok_def fm_ok_def in_use_def nblocks_def)

lemma bmap_step_disk: "bmap_pre sv x w \<Longrightarrow> disk_step w (dk w) w' \<Longrightarrow> bmap_step sv x w x w'"
  using disk_step_alloc_step [of w "dk w" w'] alloc_step_facts [of w "dk w" "in_use w" w']
  by (auto simp: bmap_step_def bmap_pre_def same_vnode_def same_meta_def)

text \<open>The indirect block: there is one afterwards, with what it maps unchanged.\<close>

lemma bmap_idblock_spec:
  assumes pre: "bmap_pre sv x w"
  shows "returns (bmap_idblock sv w) (\<lambda>(r, w').
    case r of
      Inl e \<Rightarrow> e = ENOSPC \<and> sfi_indirect (sv_i x) = 0 \<and> w' = w \<and> (\<forall>b. b < nblocks w \<longrightarrow> b \<in> in_use w)
    | Inr (idblock, idbuf) \<Rightarrow> \<exists>x'. bmap_step sv x w x' w' \<and> idblock = sfi_indirect (sv_i x') \<and> idblock \<noteq> 0 \<and>
        idbuf = of_be_words 128 (dk w' idblock) \<and> (\<forall>k. k < 143 \<longrightarrow> fblk (dk w') (sv_i x') k = fblk (dk w) (sv_i x) k) \<and>
        (sfi_indirect (sv_i x) \<noteq> 0 \<longrightarrow> x' = x \<and> in_use w' = in_use w \<and> dk w' = dk w))"
proof -
  note p = bmap_preD [OF pre]
  let ?i = "sfi_indirect (sv_i x)"
  show ?thesis
  proof (cases "?i = 0")
    case False
    then have "?i < nblocks w" using indirect_owned [of "sv_i x" "dk w"] p(3) by (auto simp: inode_ok_def)
    then have d: "?i < d_blocks (w_dev w)" "io_ok w" using p(1) by (auto simp: blk_ok_def)
    obtain w1 where r: "sfs_readblock ?i w = Some (Inr (dk w ?i), w1)" "disk_step w (dk w) w1"
      using sfs_readblock_spec [OF d(2,1)] by (auto simp: returns_def)
    have "bmap_step sv x w x w1" by (rule bmap_step_disk [OF pre r(2)])
    moreover have "dk w1 = dk w" "in_use w1 = in_use w" using r(2) by (simp_all add: disk_step_def in_use_def)
    ultimately show ?thesis using False p(2) r(1) by (auto simp: bmap_idblock_def Let_def)
  next
    case True
    from p(1) show ?thesis
    proof (cases rule: sfs_balloc_cases)
      case full
      then show ?thesis using True p(2) by (simp add: bmap_idblock_def Let_def)
    next
      case (found b w1)
      let ?D = "(dk w)(b := zblock)" and ?di = "(sv_i x)\<lparr>sfi_indirect := b\<rparr>"
      let ?x = "x\<lparr>sv_i := ?di, sv_dirty := True\<rparr>"
      note s = alloc_step_facts [OF found(4)]
      have D: "?D c = dk w c" if "c \<in> in_use w" for c using that found(2) by auto
      note g = inode_new_indirect [where D' = ?D, OF p(3) found(2,3) p(4) True _ D]
      have st: "bmap_step sv x w ?x (put_vn sv ?x w1)"
        by (rule bmap_step_alloc [where d = True, OF pre found(2-4) D g(1,2,4)]) (use True in \<open>simp_all add: same_meta_def\<close>)
      have "b \<noteq> 0" using found(2) p(4) by auto
      then show ?thesis
        using st found(1) True p(2) s(2,4) g(3) by (auto simp: bmap_idblock_def Let_def put_inode_eq words_replicate)
    qed
  qed
qed

text \<open>Entering a fresh block into the indirect block.\<close>

lemma bmap_indirect_alloc:
  assumes pre: "bmap_pre sv x w" and i: "sfi_indirect (sv_i x) \<noteq> 0" and k: "k < 128" and f: "fblk (dk w) (sv_i x) (15 + k) = 0"
    and b: "b \<notin> in_use w" "b < nblocks w" and a: "alloc_step w ((dk w)(b := zblock)) (insert b (in_use w)) w1"
  shows "\<exists>w'. sfs_writeblock (sfi_indirect (sv_i x)) (be_words ((of_be_words 128 (dk w (sfi_indirect (sv_i x))))[k := b])) w1 = Some (Inr (), w') \<and>
    bmap_step sv x w x w' \<and> fblk (dk w') (sv_i x) (15 + k) = b \<and> bmap_return b w' = Some (Inr b, w')"
proof -
  note p = bmap_preD [OF pre] and s = alloc_step_facts [OF a]
  let ?i = "sfi_indirect (sv_i x)"
  let ?ws = "(of_be_words 128 (dk w ?i))[k := b]"
  let ?D = "(dk w)(b := zblock, ?i := be_words ?ws)"
  have "?i < nblocks w" using indirect_owned [OF i, of "dk w"] p(3) by (auto simp: inode_ok_def)
  then have d: "io_ok w1" "?i < d_blocks (w_dev w1)" using s(3,6) by (auto simp: blk_ok_def)
  obtain w2 where w2: "sfs_writeblock ?i (be_words ?ws) w1 = Some (Inr (), w2)" "disk_step w1 ?D w2"
    using sfs_writeblock_spec [OF d, of "be_words ?ws"] s(4) by (auto simp: returns_def)
  have a2: "alloc_step w ?D (insert b (in_use w)) w2" by (rule alloc_step_write [OF a w2(2)])
  note s2 = alloc_step_facts [OF a2]
  have ib: "?i \<noteq> b" using b(1) indirect_in_use [OF p(3,4)] by auto
  have D: "?D c = dk w c" if "c \<in> in_use w" "c \<noteq> ?i" for c using that b(1) by auto
  have fk: "fblk ?D (sv_i x) m = (if m = 15 + k then b else fblk (dk w) (sv_i x) m)" if "m < 143" for m
    using that i k be_words_inverse [of 128 ?ws "[]"] by (auto simp: fblk_def nth_list_update)
  note g = inode_grow [where D' = ?D, OF p(3) b p(4) _ f fk _ p(5) _ D]
  have "bmap_step sv x w x (put_vn sv x w2)"
    by (rule bmap_step_alloc [where d = "sv_dirty x", OF pre b a2 D g]) (use k ib i in \<open>auto simp: same_meta_def\<close>)
  moreover have "put_vn sv x w2 = w2" using s2(2) p(2) by (simp add: put_vn_def fun_upd_idem)
  ultimately have st: "bmap_step sv x w x w2" by simp
  have fb: "fblk (dk w2) (sv_i x) (15 + k) = b" using fk [of "15 + k"] k s2(4) by simp
  then have "bmap_return b w2 = Some (Inr b, w2)" using bmap_return_fblk [OF bmap_pre_step [OF st pre], of "15 + k"] k by simp
  then show ?thesis using w2(1) st fb by auto
qed

lemma bmap_indirect_spec:
  assumes pre: "bmap_pre sv x w" and k: "unat idoff < 128" and a: "sfi_indirect (sv_i x) \<noteq> 0 \<or> doalloc"
  shows "returns (bmap_indirect sv idoff doalloc w)
    (\<lambda>(r, w'). \<exists>x'. bmap_step sv x w x' w' \<and> bmap_post doalloc (15 + unat idoff) x w r x' w')"
proof -
  let ?n = "15 + unat idoff"
  obtain r w1 where rw: "bmap_idblock sv w = Some (r, w1)" "case r of
      Inl e \<Rightarrow> e = ENOSPC \<and> sfi_indirect (sv_i x) = 0 \<and> w1 = w \<and> (\<forall>b. b < nblocks w \<longrightarrow> b \<in> in_use w)
    | Inr (idblock, idbuf) \<Rightarrow> \<exists>x'. bmap_step sv x w x' w1 \<and> idblock = sfi_indirect (sv_i x') \<and> idblock \<noteq> 0 \<and>
        idbuf = of_be_words 128 (dk w1 idblock) \<and> (\<forall>k. k < 143 \<longrightarrow> fblk (dk w1) (sv_i x') k = fblk (dk w) (sv_i x) k) \<and>
        (sfi_indirect (sv_i x) \<noteq> 0 \<longrightarrow> x' = x \<and> in_use w1 = in_use w \<and> dk w1 = dk w)"
    using bmap_idblock_spec [OF pre] by (auto simp: returns_def)
  show ?thesis
  proof (cases r)
    case (Inl e)
    then have "bmap_post doalloc ?n x w (Inl e) x w" using rw(2) a by (auto simp: bmap_post_def fblk_def)
    then show ?thesis using Inl rw bmap_preD(6) [OF pre] by (auto simp: bmap_indirect_def)
  next
    case (Inr ib)
    then obtain x1 where x1: "bmap_step sv x w x1 w1" "sfi_indirect (sv_i x1) \<noteq> 0"
        "r = Inr (sfi_indirect (sv_i x1), of_be_words 128 (dk w1 (sfi_indirect (sv_i x1))))"
        "\<forall>k. k < 143 \<longrightarrow> fblk (dk w1) (sv_i x1) k = fblk (dk w) (sv_i x) k"
        "sfi_indirect (sv_i x) \<noteq> 0 \<longrightarrow> x1 = x \<and> in_use w1 = in_use w \<and> dk w1 = dk w"
      using rw(2) by (cases ib) auto
    have pre1: "bmap_pre sv x1 w1" by (rule bmap_pre_step [OF x1(1) pre])
    have f: "fblk (dk w1) (sv_i x1) ?n = of_be_words 128 (dk w1 (sfi_indirect (sv_i x1))) ! unat idoff"
      using x1(2) k by (simp add: fblk_def)
    have comb: "\<exists>x'. bmap_step sv x w x' w' \<and> bmap_post doalloc ?n x w r x' w'"
      if "bmap_step sv x1 w1 x2 w'" "bmap_post doalloc ?n x1 w1 r x2 w'" for x2 w' r
    proof (intro exI conjI)
      show "bmap_step sv x w x2 w'" by (rule bmap_step_trans [OF x1(1) that(1)])
      show "bmap_post doalloc ?n x w r x2 w'"
        using that(2) x1(4) k same_fs_nblocks [OF bmap_stepD(1) [OF x1(1)]] a x1(5) by (auto simp: bmap_post_def split: sum.splits)
    qed
    note p1 = bmap_preD [OF pre1]
    show ?thesis
    proof (cases "fblk (dk w1) (sv_i x1) ?n = 0 \<and> doalloc")
      case False
      then have "bmap_indirect sv idoff doalloc w = Some (Inr (fblk (dk w1) (sv_i x1) ?n), w1)"
        using rw(1) x1(3) f k bmap_return_fblk [OF pre1, of ?n] by (auto simp: bmap_indirect_def)
      moreover have "bmap_post doalloc ?n x1 w1 (Inr (fblk (dk w1) (sv_i x1) ?n)) x1 w1" using False by (auto simp: bmap_post_def)
      ultimately show ?thesis using comb [OF p1(6)] by auto
    next
      case True
      from p1(1) show ?thesis
      proof (cases rule: sfs_balloc_cases)
        case full
        then have "bmap_post doalloc ?n x1 w1 (Inl ENOSPC) x1 w1" using True by (simp add: bmap_post_def)
        then show ?thesis using comb [OF p1(6)] full(1) rw(1) x1(3) f k True by (auto simp: bmap_indirect_def)
      next
        case (found b w2)
        obtain w3 where w3: "sfs_writeblock (sfi_indirect (sv_i x1))
            (be_words ((of_be_words 128 (dk w1 (sfi_indirect (sv_i x1))))[unat idoff := b])) w2 = Some (Inr (), w3)"
          "bmap_step sv x1 w1 x1 w3" "fblk (dk w3) (sv_i x1) ?n = b" "bmap_return b w3 = Some (Inr b, w3)"
          using bmap_indirect_alloc [OF pre1 x1(2) k conjunct1 [OF True] found(2-4)] by auto
        have "bmap_post doalloc ?n x1 w1 (Inr b) x1 w3" using w3(3) True found(2) p1(4) by (auto simp: bmap_post_def)
        then show ?thesis using comb [OF w3(2)] w3(1,4) found(1) rw(1) x1(3) f k True by (simp add: bmap_indirect_def)
      qed
    qed
  qed
qed

lemma bmap_step_no_alloc: "sfi_indirect (sv_i x) = 0 \<Longrightarrow> 15 \<le> n \<Longrightarrow> bmap_post False n x w (Inr 0) x w"
  by (simp add: bmap_post_def fblk_def)

lemma sfs_bmap_spec:
  assumes pre: "bmap_pre sv x w"
  shows "returns (sfs_bmap sv fb doalloc w) (\<lambda>(r, w').
    if unat fb < 143 then \<exists>x'. bmap_step sv x w x' w' \<and> bmap_post doalloc (unat fb) x w r x' w'
    else r = Inl EFBIG \<and> w' = w)"
proof -
  have h: "vfs_biglock_do_i_hold (w_bl w)" using bmap_preD(1) [OF pre] by (simp add: blk_ok_def io_ok_def)
  show ?thesis
  proof (cases "unat fb < 15")
    case True
    then show ?thesis using bmap_direct_spec [OF pre True] h by (simp add: sfs_bmap_def SFS_NDIRECT_def word_less_nat_alt)
  next
    case False
    then have s: "unat (fb - 15) = unat fb - 15" by (simp add: unat_sub word_le_nat_alt)
    have d: "unat ((fb - 15) div 128) = (unat fb - 15) div 128" "unat ((fb - 15) mod 128) = (unat fb - 15) mod 128"
      by (simp_all add: unat_div unat_mod s)
    let ?o = "(fb - 15) mod 128"
    show ?thesis
    proof (cases "unat fb < 143")
      case True
      then have "(unat fb - 15) div 128 = 0" and o: "unat ?o = unat fb - 15" using d(2) by simp_all
      then have n: "\<not> 1 \<le> (fb - 15) div 128" using d(1) by (simp add: word_le_nat_alt)
      have e: "15 + unat ?o = unat fb" using o False by simp
      show ?thesis
      proof (cases "sfi_indirect (sv_i x) = 0 \<and> \<not> doalloc")
        case True
        then show ?thesis
          using h n False \<open>unat fb < 143\<close> bmap_preD(2,6) [OF pre] bmap_step_no_alloc [of x "unat fb" w]
          by (auto simp: sfs_bmap_def sfs_consts word_less_nat_alt Let_def)
      next
        case no: False
        then show ?thesis
          using bmap_indirect_spec [OF pre, of ?o doalloc] h n False \<open>unat fb < 143\<close> bmap_preD(2) [OF pre] o
          unfolding e by (auto simp: sfs_bmap_def sfs_consts word_less_nat_alt Let_def)
      qed
    next
      case big: False
      then have "1 \<le> (unat fb - 15) div 128" by (simp add: div_greater_zero_iff Suc_le_eq)
      then have "1 \<le> (fb - 15) div 128" using d(1) by (simp add: word_le_nat_alt)
      then show ?thesis using h False big by (simp add: sfs_bmap_def sfs_consts word_less_nat_alt Let_def)
    qed
  qed
qed

subsection \<open>The effect of truncation\<close>

text \<open>The blocks \<open>R\<close> have been freed; of the inode at \<open>sv\<close> only the block numbers may have changed.\<close>

definition drop_step :: "nat \<Rightarrow> sfs_vnode \<Rightarrow> world \<Rightarrow> u32 set \<Rightarrow> sfs_vnode \<Rightarrow> world \<Rightarrow> bool" where
  "drop_step sv x w R x' w' \<longleftrightarrow> w_vn w' = (w_vn w)(sv \<mapsto> x') \<and> same_fs w w' \<and> blk_ok w' \<and> dk w' = dk w \<and> same_vnode x x' \<and>
     (sv_dirty x' \<or> sv_i x' = sv_i x \<and> sv_dirty x' = sv_dirty x) \<and> in_use w' = in_use w - R"

lemma drop_step_refl: "blk_ok w \<Longrightarrow> w_vn w sv = Some x \<Longrightarrow> drop_step sv x w {} x w"
  by (auto simp: drop_step_def same_vnode_def)

lemma drop_step_trans: "drop_step sv x w R x1 w1 \<Longrightarrow> drop_step sv x1 w1 S x2 w2 \<Longrightarrow> drop_step sv x w (R \<union> S) x2 w2"
  using same_fs_trans [of w w1 w2] by (auto simp: drop_step_def same_vnode_def)

text \<open>Freeing a block and updating the inode.\<close>

lemma itrunc_free:
  assumes "blk_ok w" "w_vn w sv = Some x" "b \<in> in_use w" "b < nblocks w"
  shows "\<exists>w1 w2. sfs_bfree b w = Some w1 \<and> put_inode sv f w1 = Some w2 \<and> drop_step sv x w {b} (x\<lparr>sv_i := f (sv_i x), sv_dirty := True\<rparr>) w2"
proof -
  obtain w1 where w1: "sfs_bfree b w = Some w1" "alloc_step w (dk w) (in_use w - {b}) w1"
    using sfs_bfree_spec [OF assms(1,3,4)] by auto
  note s = alloc_step_facts [OF w1(2)]
  then show ?thesis using w1(1) assms(2) by (auto simp: put_inode_eq drop_step_def same_vnode_def)
qed

text \<open>What the loops do to a list of block numbers, and which blocks they free.\<close>

definition cut_list :: "(nat \<Rightarrow> bool) \<Rightarrow> nat list \<Rightarrow> u32 list \<Rightarrow> u32 list" where
  "cut_list P is ds = fold (\<lambda>i ds. if P i then ds[i := 0] else ds) is ds"

definition cut_blocks :: "(nat \<Rightarrow> bool) \<Rightarrow> nat list \<Rightarrow> u32 list \<Rightarrow> u32 set" where
  "cut_blocks P is ds = (\<lambda>i. ds ! i) ` {i \<in> set is. P i} - {0}"

lemma length_cut_list [simp]: "length (cut_list P is ds) = length ds"
  by (induction "is" arbitrary: ds) (simp_all add: cut_list_def)

lemma cut_list_nth: "k < length ds \<Longrightarrow> cut_list P is ds ! k = (if k \<in> set is \<and> P k then 0 else ds ! k)"
proof (induction "is" arbitrary: ds)
  case (Cons i "is")
  then show ?case
    using Cons.IH [of "ds[i := 0]"] Cons.IH [of ds] by (cases "k = i") (auto simp: cut_list_def)
qed (simp add: cut_list_def)

lemma cut_blocks_Cons:
  "i \<notin> set is \<Longrightarrow> cut_blocks P (i # is) ds = (if P i then {ds ! i} - {0} else {}) \<union> cut_blocks P is (ds[i := c])"
proof -
  assume i: "i \<notin> set is"
  have "(\<lambda>j. ds[i := c] ! j) ` {j \<in> set is. P j} = (\<lambda>j. ds ! j) ` {j \<in> set is. P j}"
    using i by (intro image_cong) (auto intro!: nth_list_update_neq)
  then show ?thesis by (auto simp: cut_blocks_def)
qed

text \<open>The numbers at the given positions are distinct blocks in use.\<close>

definition live_blocks :: "world \<Rightarrow> nat list \<Rightarrow> u32 list \<Rightarrow> bool" where
  "live_blocks w is ds \<longleftrightarrow> distinct is \<and> set is \<subseteq> {..<length ds} \<and>
     (\<forall>i \<in> set is. ds ! i \<noteq> 0 \<longrightarrow> ds ! i \<in> in_use w \<and> ds ! i < nblocks w) \<and>
     (\<forall>i \<in> set is. \<forall>j \<in> set is. ds ! i = ds ! j \<longrightarrow> ds ! i \<noteq> 0 \<longrightarrow> i = j)"

lemma live_blocks_Cons:
  assumes "live_blocks w (i # is) ds"
  shows "i < length ds" "i \<notin> set is" "ds ! i \<noteq> 0 \<Longrightarrow> ds ! i \<in> in_use w \<and> ds ! i < nblocks w" "live_blocks w is ds"
    "ds ! i \<noteq> 0 \<Longrightarrow> in_use w' = in_use w - {ds ! i} \<Longrightarrow> nblocks w' = nblocks w \<Longrightarrow> live_blocks w' is (ds[i := c])"
proof -
  show a: "i < length ds" "i \<notin> set is" "ds ! i \<noteq> 0 \<Longrightarrow> ds ! i \<in> in_use w \<and> ds ! i < nblocks w" "live_blocks w is ds"
    using assms by (auto simp: live_blocks_def)
  assume *: "ds ! i \<noteq> 0" "in_use w' = in_use w - {ds ! i}" "nblocks w' = nblocks w"
  have n: "ds[i := c] ! j = ds ! j" if "j \<in> set is" for j using that a(2) by (intro nth_list_update_neq) auto
  show "live_blocks w' is (ds[i := c])"
    using assms * a(2) n unfolding live_blocks_def by (simp add: n) metis
qed

lemma itrunc_direct_spec:
  assumes "blk_ok w" "w_vn w sv = Some x" "live_blocks w is (sfi_direct (sv_i x))"
  shows "\<exists>x' w'. itrunc_direct sv L is w = Some w' \<and> drop_step sv x w (cut_blocks (\<lambda>i. L \<le> of_nat i) is (sfi_direct (sv_i x))) x' w' \<and>
    sv_i x' = (sv_i x)\<lparr>sfi_direct := cut_list (\<lambda>i. L \<le> of_nat i) is (sfi_direct (sv_i x))\<rparr>"
  using assms
proof (induction "is" arbitrary: w x)
  case Nil
  then show ?case using drop_step_refl by (auto simp: cut_list_def cut_blocks_def)
next
  case (Cons i "is")
  let ?d = "sfi_direct (sv_i x)" and ?P = "\<lambda>i. L \<le> of_nat i"
  note l = live_blocks_Cons [OF Cons.prems(3)]
  show ?case
  proof (cases "?P i \<and> ?d ! i \<noteq> 0")
    case False
    have "?d[i := 0] = ?d" if "?d ! i = 0" using that list_update_id [of ?d i] by simp
    then have "cut_list ?P (i # is) ?d = cut_list ?P is ?d" using False by (auto simp: cut_list_def)
    moreover have "cut_blocks ?P (i # is) ?d = cut_blocks ?P is ?d"
      using cut_blocks_Cons [OF l(2), of ?P ?d "?d ! i"] False by (auto split: if_splits)
    moreover have "itrunc_direct sv L (i # is) w = itrunc_direct sv L is w" using False Cons.prems(2) l(1) by auto
    ultimately show ?thesis using Cons.IH [OF Cons.prems(1,2) l(4)] by (simp only:)
  next
    case True
    let ?x = "x\<lparr>sv_i := (sv_i x)\<lparr>sfi_direct := ?d[i := 0]\<rparr>, sv_dirty := True\<rparr>"
    obtain w1 w2 where w2: "sfs_bfree (?d ! i) w = Some w1" "put_inode sv (\<lambda>n. n\<lparr>sfi_direct := (sfi_direct n)[i := 0]\<rparr>) w1 = Some w2"
      "drop_step sv x w {?d ! i} ?x w2"
      using itrunc_free [OF Cons.prems(1,2), of "?d ! i" "\<lambda>n. n\<lparr>sfi_direct := (sfi_direct n)[i := 0]\<rparr>"] l(3) True by auto
    have s: "blk_ok w2" "w_vn w2 sv = Some ?x" "live_blocks w2 is (sfi_direct (sv_i ?x))"
      using w2(3) True l(5) same_fs_nblocks [of w w2] by (simp_all add: drop_step_def)
    obtain x' w' where *: "itrunc_direct sv L is w2 = Some w'" "drop_step sv ?x w2 (cut_blocks ?P is (?d[i := 0])) x' w'"
      "sv_i x' = (sv_i x)\<lparr>sfi_direct := cut_list ?P is (?d[i := 0])\<rparr>"
      using Cons.IH [OF s] by auto
    have "itrunc_direct sv L (i # is) w = Some w'" using w2(1,2) *(1) Cons.prems(2) l(1) True by simp
    moreover have "drop_step sv x w (cut_blocks ?P (i # is) ?d) x' w'"
      using drop_step_trans [OF w2(3) *(2)] True by (simp add: cut_blocks_Cons [OF l(2), of ?P ?d 0])
    moreover have "cut_list ?P (i # is) ?d = cut_list ?P is (?d[i := 0])" using True by (simp add: cut_list_def)
    ultimately show ?thesis using *(3) by auto
  qed
qed

lemma cut_list_Cons: "cut_list P (i # is) ds = cut_list P is (if P i then ds[i := 0] else ds)"
  by (simp add: cut_list_def)

lemma drop_step_free:
  assumes "blk_ok w" "w_vn w sv = Some x" "b \<in> in_use w" "b < nblocks w"
  shows "\<exists>w1. sfs_bfree b w = Some w1 \<and> drop_step sv x w {b} x w1"
proof -
  obtain w1 where w1: "sfs_bfree b w = Some w1" "alloc_step w (dk w) (in_use w - {b}) w1"
    using sfs_bfree_spec [OF assms(1,3,4)] by auto
  then show ?thesis
    using alloc_step_facts [OF w1(2)] assms(2) by (auto simp: drop_step_def same_vnode_def fun_upd_idem)
qed

text \<open>The loop over the indirect block.\<close>

lemma itrunc_indirect_spec:
  assumes "blk_ok w" "w_vn w sv = Some x" "live_blocks w js ds" and P_def: "P = (\<lambda>j. L < B + of_nat j)"
  shows "\<exists>w'. itrunc_indirect L B js ds h d w =
      Some (cut_list P js ds, h \<or> (\<exists>j \<in> set js. \<not> P j \<and> ds ! j \<noteq> 0), d \<or> (\<exists>j \<in> set js. P j \<and> ds ! j \<noteq> 0), w') \<and>
    drop_step sv x w (cut_blocks P js ds) x w'"
  using assms(1-3)
proof (induction js arbitrary: w ds h d)
  case Nil
  then show ?case using drop_step_refl by (auto simp: cut_list_def cut_blocks_def)
next
  case (Cons j js)
  note l = live_blocks_Cons [OF Cons.prems(3)]
  show ?case
  proof (cases "P j \<and> ds ! j \<noteq> 0")
    case False
    have u: "ds[j := 0] = ds" if "ds ! j = 0" using that list_update_id [of ds j] by simp
    then have "cut_list P (j # js) ds = cut_list P js ds" using False by (auto simp: cut_list_Cons)
    moreover have "cut_blocks P (j # js) ds = cut_blocks P js ds"
      using cut_blocks_Cons [OF l(2), of P ds "ds ! j"] False by (auto split: if_splits)
    moreover have "itrunc_indirect L B (j # js) ds h d w = itrunc_indirect L B js ds (h \<or> ds ! j \<noteq> 0) d w"
      using False l(1) by (auto simp: P_def)
    ultimately show ?thesis
      using Cons.IH [OF Cons.prems(1,2) l(4), of "h \<or> ds ! j \<noteq> 0" d] False by auto
  next
    case True
    obtain w1 where w1: "sfs_bfree (ds ! j) w = Some w1" "drop_step sv x w {ds ! j} x w1"
      using drop_step_free [OF Cons.prems(1,2)] l(3) True by blast
    have s: "blk_ok w1" "w_vn w1 sv = Some x" "live_blocks w1 js (ds[j := 0])"
      using w1(2) True l(5) same_fs_nblocks [of w w1] by (simp_all add: drop_step_def)
    obtain w' where w': "itrunc_indirect L B js (ds[j := 0]) h True w1 =
        Some (cut_list P js (ds[j := 0]), h \<or> (\<exists>k \<in> set js. \<not> P k \<and> ds[j := 0] ! k \<noteq> 0), True, w')"
      "drop_step sv x w1 (cut_blocks P js (ds[j := 0])) x w'"
      using Cons.IH [OF s, of h True] by auto
    have n: "ds[j := 0] ! k = ds ! k" if "k \<in> set js" for k using that l(2) by (intro nth_list_update_neq) auto
    have "itrunc_indirect L B (j # js) ds h d w = itrunc_indirect L B js (ds[j := 0]) h True w1"
      using True l(1) w1(1) by (simp add: P_def)
    moreover have "(\<exists>k \<in> set js. \<not> P k \<and> ds[j := 0] ! k \<noteq> 0) \<longleftrightarrow> (\<exists>k \<in> set (j # js). \<not> P k \<and> ds ! k \<noteq> 0)"
      using True n by auto
    moreover have "drop_step sv x w (cut_blocks P (j # js) ds) x w'"
      using drop_step_trans [OF w1(2) w'(2)] True by (simp add: cut_blocks_Cons [OF l(2), of P ds 0])
    ultimately show ?thesis using w'(1) True by (simp only: cut_list_Cons) auto
  qed
qed

text \<open>An inode that keeps some of its blocks, and possibly drops its indirect block.\<close>

lemma inode_shrink:
  assumes ok: "inode_ok D U N di" and di': "dinode_ok di'"
    and f: "\<And>n. n < 143 \<Longrightarrow> fblk D' di' n = (if K n then fblk D di n else 0)"
    and i: "sfi_indirect di' = sfi_indirect di \<or> sfi_indirect di' = 0"
  shows "owned D' di' \<subseteq> owned D di"
    "owned D di - owned D' di' = fblk D di ` {n. n < 143 \<and> \<not> K n} \<union> (if sfi_indirect di' = 0 then {sfi_indirect di} else {}) - {0}"
    "inode_ok D' (U - (owned D di - owned D' di')) N di'"
proof -
  have inj: "inj_on (fblk D di) {n. n < 143 \<and> fblk D di n \<noteq> 0}"
    and ind: "sfi_indirect di \<noteq> 0 \<longrightarrow> sfi_indirect di \<notin> fblk D di ` {..<143}" using ok by (simp_all add: inode_ok_def)
  have o': "owned D' di' = fblk D di ` {n. n < 143 \<and> K n} \<union> {sfi_indirect di'} - {0}"
    using f by (auto simp: owned_def image_iff split: if_splits)
  show sub: "owned D' di' \<subseteq> owned D di" unfolding o' using i by (auto simp: owned_def)
  define A B where "A = fblk D di ` {n. n < 143 \<and> K n}" and "B = fblk D di ` {n. n < 143 \<and> \<not> K n}"
  have AB: "A \<inter> B \<subseteq> {0}" using inj unfolding A_def B_def inj_on_def by clarsimp metis
  have img: "fblk D di ` {..<143} = A \<union> B" by (auto simp: A_def B_def)
  have "owned D di - owned D' di' = B \<union> (if sfi_indirect di' = 0 then {sfi_indirect di} else {}) - {0}"
  proof -
    have "owned D di = insert (sfi_indirect di) (A \<union> B) - {0}" by (simp add: owned_def img)
    moreover have "owned D' di' = A \<union> {sfi_indirect di'} - {0}" by (simp add: o' A_def)
    moreover have "sfi_indirect di = 0 \<or> sfi_indirect di \<notin> A \<union> B" using ind img by auto
    ultimately show ?thesis using i AB by (cases "sfi_indirect di' = 0") auto
  qed
  then show "owned D di - owned D' di' = fblk D di ` {n. n < 143 \<and> \<not> K n} \<union> (if sfi_indirect di' = 0 then {sfi_indirect di} else {}) - {0}"
    by (simp add: B_def)
  have "inj_on (fblk D' di') {n. n < 143 \<and> fblk D' di' n \<noteq> 0}"
    using inj f by (auto simp: inj_on_def split: if_splits)
  moreover have "sfi_indirect di' \<notin> fblk D' di' ` {..<143}" if "sfi_indirect di' \<noteq> 0"
    using that i ind f by (auto simp: image_iff split: if_splits)
  ultimately show "inode_ok D' (U - (owned D di - owned D' di')) N di'"
    using ok sub di' unfolding inode_ok_def by blast
qed

text \<open>What \<^verbatim>\<open>sfs_itrunc\<close> keeps of a file cut to \<open>L\<close> blocks: the test for the blocks behind the indirect block is off by one.\<close>

definition trunc_keeps :: "nat \<Rightarrow> nat \<Rightarrow> bool" where
  "trunc_keeps L n \<longleftrightarrow> (if n < 15 then n < L else n \<le> L)"

definition trunc_step :: "nat \<Rightarrow> sfs_vnode \<Rightarrow> world \<Rightarrow> (nat \<Rightarrow> bool) \<Rightarrow> sfs_vnode \<Rightarrow> world \<Rightarrow> bool" where
  "trunc_step sv x w K x' w' \<longleftrightarrow>
     same_fs w w' \<and> blk_ok w' \<and> w_vn w' = (w_vn w)(sv \<mapsto> x') \<and> same_vnode x x' \<and>
     (sv_dirty x' \<or> sv_i x' = sv_i x \<and> sv_dirty x' = sv_dirty x) \<and> same_meta (sv_i x) (sv_i x') \<and>
     dinode_ok (sv_i x') \<and> (sfi_indirect (sv_i x') = sfi_indirect (sv_i x) \<or> sfi_indirect (sv_i x') = 0) \<and>
     in_use w' = in_use w - (owned (dk w) (sv_i x) - owned (dk w') (sv_i x')) \<and>
     (\<forall>b. b = 0 \<or> b \<noteq> sfi_indirect (sv_i x) \<longrightarrow> dk w' b = dk w b) \<and>
     (\<forall>n. n < 143 \<longrightarrow> fblk (dk w') (sv_i x') n = (if K n then fblk (dk w) (sv_i x) n else 0))"

lemma trunc_step_inode_ok:
  assumes "trunc_step sv x w K x' w'" "inode_ok (dk w) (in_use w) (nblocks w) (sv_i x)"
  shows "inode_ok (dk w') (in_use w') (nblocks w') (sv_i x')" "owned (dk w') (sv_i x') \<subseteq> owned (dk w) (sv_i x)"
  using inode_shrink [OF assms(2), of "sv_i x'" "dk w'" K] assms(1) same_fs_nblocks [of w w'] by (simp_all add: trunc_step_def)

lemma trunc_step_fdata:
  assumes "trunc_step sv x w K x' w'" "inode_ok (dk w) (in_use w) (nblocks w) (sv_i x)" "n < 143"
  shows "fdata (dk w') (sv_i x') n = (if K n then fdata (dk w) (sv_i x) n else zblock)"
proof -
  have f: "fblk (dk w') (sv_i x') n = (if K n then fblk (dk w) (sv_i x) n else 0)"
    and d: "\<And>b. b \<noteq> sfi_indirect (sv_i x) \<Longrightarrow> dk w' b = dk w b" using assms(1,3) by (simp_all add: trunc_step_def)
  have "fblk (dk w) (sv_i x) n \<in> fblk (dk w) (sv_i x) ` {..<143}" using assms(3) by simp
  then have "fblk (dk w) (sv_i x) n \<noteq> sfi_indirect (sv_i x)" if "fblk (dk w) (sv_i x) n \<noteq> 0"
    using that assms(2) unfolding inode_ok_def by metis
  then show ?thesis using f d by (auto simp: fdata_def)
qed

lemma disk_step_refl: "blk_ok w \<Longrightarrow> disk_step w (dk w) w"
  by (simp add: disk_step_def blk_ok_def io_ok_def)

text \<open>Freeing the dropped blocks and then perhaps writing back the indirect block.\<close>

lemma trunc_stepI:
  assumes ok: "inode_ok (dk w) (in_use w) (nblocks w) (sv_i x)"
    and d: "drop_step sv x w R x' w1" and w': "disk_step w1 D w'" "\<And>b. b = 0 \<or> b \<noteq> sfi_indirect (sv_i x) \<Longrightarrow> D b = dk w b"
    and x': "same_meta (sv_i x) (sv_i x')" "dinode_ok (sv_i x')" "sfi_indirect (sv_i x') = sfi_indirect (sv_i x) \<or> sfi_indirect (sv_i x') = 0"
    and f: "\<And>n. n < 143 \<Longrightarrow> fblk D (sv_i x') n = (if K n then fblk (dk w) (sv_i x) n else 0)"
    and R: "R = fblk (dk w) (sv_i x) ` {n. n < 143 \<and> \<not> K n} \<union> (if sfi_indirect (sv_i x') = 0 then {sfi_indirect (sv_i x)} else {}) - {0}"
  shows "trunc_step sv x w K x' w'"
proof -
  have "owned (dk w) (sv_i x) - owned D (sv_i x') = R"
    unfolding R by (rule inode_shrink(2) [OF ok x'(2) f x'(3)])
  moreover have "blk_ok w1" using d by (simp add: drop_step_def)
  note s = alloc_step_facts [OF disk_step_alloc_step [OF w'(1) this]]
  have "same_fs w w'" using d s(1) same_fs_trans [of w w1 w'] by (simp add: drop_step_def)
  ultimately show ?thesis using d s w' x' f by (simp add: trunc_step_def drop_step_def)
qed

lemma trunc_step_refl:
  assumes "bmap_pre sv x w" "\<And>n. n < 143 \<Longrightarrow> \<not> K n \<Longrightarrow> fblk (dk w) (sv_i x) n = 0"
  shows "trunc_step sv x w K x w"
  using bmap_preD [OF assms(1)] assms(2) by (auto simp: trunc_step_def same_meta_def same_vnode_def)

lemma trunc_stepD:
  assumes "trunc_step sv x w K x' w'"
  shows "same_fs w w'" "blk_ok w'" "w_vn w' = (w_vn w)(sv \<mapsto> x')" "same_vnode x x'"
    "sv_dirty x' \<or> sv_i x' = sv_i x \<and> sv_dirty x' = sv_dirty x" "same_meta (sv_i x) (sv_i x')" "dinode_ok (sv_i x')"
    "sfi_indirect (sv_i x') = sfi_indirect (sv_i x) \<or> sfi_indirect (sv_i x') = 0"
    "in_use w' = in_use w - (owned (dk w) (sv_i x) - owned (dk w') (sv_i x'))"
    "\<And>b. b = 0 \<or> b \<noteq> sfi_indirect (sv_i x) \<Longrightarrow> dk w' b = dk w b"
    "\<And>n. n < 143 \<Longrightarrow> fblk (dk w') (sv_i x') n = (if K n then fblk (dk w) (sv_i x) n else 0)"
  using assms by (simp_all only: trunc_step_def simp_thms)

lemma trunc_step_trans:
  assumes "trunc_step sv x w K x1 w1" "trunc_step sv x1 w1 J x2 w2" "inode_ok (dk w) (in_use w) (nblocks w) (sv_i x)"
  shows "trunc_step sv x w (\<lambda>n. K n \<and> J n) x2 w2"
proof -
  note 1 = trunc_stepD [OF assms(1)] and 2 = trunc_stepD [OF assms(2)]
  note o1 = trunc_step_inode_ok [OF assms(1,3)]
  note o2 = trunc_step_inode_ok [OF assms(2) o1(1)]
  have "in_use w2 = in_use w - (owned (dk w) (sv_i x) - owned (dk w2) (sv_i x2))" using 1(9) 2(9) o1(2) o2(2) by blast
  moreover have "dk w2 b = dk w b" if "b = 0 \<or> b \<noteq> sfi_indirect (sv_i x)" for b
    using 1(8) 1(10) [OF that] 2(10) [of b] that by auto
  moreover have "same_fs w w2" by (rule same_fs_trans [OF 1(1) 2(1)])
  moreover have "same_vnode x x2" "same_meta (sv_i x) (sv_i x2)"
    using 1(4,6) 2(4,6) by (simp_all add: same_vnode_def same_meta_def)
  moreover have "sv_dirty x2 \<or> sv_i x2 = sv_i x \<and> sv_dirty x2 = sv_dirty x"
    "sfi_indirect (sv_i x2) = sfi_indirect (sv_i x) \<or> sfi_indirect (sv_i x2) = 0" using 1(5,8) 2(5,8) by auto
  moreover have "w_vn w2 = (w_vn w)(sv \<mapsto> x2)" using 1(3) 2(3) by simp
  moreover have "fblk (dk w2) (sv_i x2) n = (if K n \<and> J n then fblk (dk w) (sv_i x) n else 0)" if "n < 143" for n
    using 1(11) [OF that] 2(11) [OF that] by simp
  ultimately show ?thesis using 2(2,7) unfolding trunc_step_def by simp
qed

lemma word_le_of_nat: "k < 2 ^ 32 \<Longrightarrow> L \<le> of_nat k \<longleftrightarrow> unat L \<le> k" "k < 2 ^ 32 \<Longrightarrow> L < of_nat k \<longleftrightarrow> unat L < k" for L :: u32
  by (simp_all add: word_le_nat_alt word_less_nat_alt unat_of_nat_id)

lemma live_blocks_fblk:
  assumes "bmap_pre sv x w" "\<And>i. i < length ds \<Longrightarrow> ds ! i = fblk (dk w) (sv_i x) (k + i)" "k + length ds \<le> 143"
  shows "live_blocks w [0..<length ds] ds"
proof -
  note ok = bmap_preD(3) [OF assms(1)]
  have "fblk (dk w) (sv_i x) (k + i) \<in> in_use w \<and> fblk (dk w) (sv_i x) (k + i) < nblocks w"
    if "i < length ds" "fblk (dk w) (sv_i x) (k + i) \<noteq> 0" for i
    using fblk_owned [of "k + i" "dk w" "sv_i x"] ok that assms(3) by (auto simp: inode_ok_def)
  moreover have "i = j" if "i < length ds" "j < length ds" "fblk (dk w) (sv_i x) (k + i) = fblk (dk w) (sv_i x) (k + j)"
      "fblk (dk w) (sv_i x) (k + i) \<noteq> 0" for i j
    using ok that assms(3) inj_onD [of "fblk (dk w) (sv_i x)" "{n. n < 143 \<and> fblk (dk w) (sv_i x) n \<noteq> 0}" "k + i" "k + j"]
    by (simp add: inode_ok_def)
  ultimately show ?thesis using assms(2) by (simp add: live_blocks_def lessThan_atLeast0)
qed

lemma itrunc_direct_trunc:
  assumes pre: "bmap_pre sv x w"
  shows "\<exists>x' w'. itrunc_direct sv L [0..<15] w = Some w' \<and> trunc_step sv x w (\<lambda>n. n < 15 \<longrightarrow> n < unat L) x' w'"
proof -
  note p = bmap_preD [OF pre]
  let ?d = "sfi_direct (sv_i x)" and ?P = "\<lambda>i. L \<le> of_nat i"
  have l: "length ?d = 15" using p(5) by (simp add: dinode_ok_def)
  have f: "?d ! i = fblk (dk w) (sv_i x) i" if "i < 15" for i using that by (simp add: fblk_def)
  have "live_blocks w [0..<15] ?d" using live_blocks_fblk [OF pre, of ?d 0] f l by simp
  from itrunc_direct_spec [OF p(1,2) this, of L] obtain x' w' where *: "itrunc_direct sv L [0..<15] w = Some w'"
    "drop_step sv x w (cut_blocks ?P [0..<15] ?d) x' w'" "sv_i x' = (sv_i x)\<lparr>sfi_direct := cut_list ?P [0..<15] ?d\<rparr>" by blast
  have "trunc_step sv x w (\<lambda>n. n < 15 \<longrightarrow> n < unat L) x' w'"
  proof (rule trunc_stepI [OF p(3) *(2) disk_step_refl])
    show "blk_ok w'" using *(2) by (simp add: drop_step_def)
    show "dk w' b = dk w b" for b using *(2) by (simp add: drop_step_def)
    show "same_meta (sv_i x) (sv_i x')" "dinode_ok (sv_i x')" "sfi_indirect (sv_i x') = sfi_indirect (sv_i x) \<or> sfi_indirect (sv_i x') = 0"
      using p(5) by (simp_all add: *(3) same_meta_def dinode_ok_def)
    show "fblk (dk w') (sv_i x') n = (if n < 15 \<longrightarrow> n < unat L then fblk (dk w) (sv_i x) n else 0)" for n
      using *(2) l by (auto simp: *(3) fblk_def cut_list_nth drop_step_def word_le_of_nat)
    have "{i \<in> set [0..<15]. ?P i} = {n. n < 143 \<and> \<not> (n < 15 \<longrightarrow> n < unat L)}" by (auto simp: word_le_of_nat)
    moreover have "(\<lambda>i. ?d ! i) ` {i \<in> set [0..<15]. ?P i} = fblk (dk w) (sv_i x) ` {i \<in> set [0..<15]. ?P i}"
      using f by (intro image_cong) auto
    ultimately show "cut_blocks ?P [0..<15] ?d = fblk (dk w) (sv_i x) ` {n. n < 143 \<and> \<not> (n < 15 \<longrightarrow> n < unat L)} \<union>
        (if sfi_indirect (sv_i x') = 0 then {sfi_indirect (sv_i x)} else {}) - {0}"
      by (auto simp: cut_blocks_def *(3))
  qed
  then show ?thesis using *(1) by blast
qed

text \<open>The indirect block numbers after the loop, for an inode that has an indirect block.\<close>

lemma itrunc_loop_trunc:
  assumes pre: "bmap_pre sv x w" and i: "sfi_indirect (sv_i x) \<noteq> 0"
  defines "ds \<equiv> of_be_words 128 (dk w (sfi_indirect (sv_i x)))"
  shows "\<exists>w'. itrunc_indirect L 15 [0..<128] ds False False w =
      Some (cut_list (\<lambda>j. unat L < 15 + j) [0..<128] ds, \<exists>n. 15 \<le> n \<and> n < 143 \<and> n \<le> unat L \<and> fblk (dk w) (sv_i x) n \<noteq> 0,
        \<exists>n. 15 \<le> n \<and> n < 143 \<and> unat L < n \<and> fblk (dk w) (sv_i x) n \<noteq> 0, w') \<and>
    drop_step sv x w (fblk (dk w) (sv_i x) ` {n. n < 143 \<and> \<not> (15 \<le> n \<longrightarrow> n \<le> unat L)} - {0}) x w'"
proof -
  note p = bmap_preD [OF pre]
  let ?P = "\<lambda>j. L < 15 + of_nat j" and ?Q = "\<lambda>j. unat L < 15 + j"
  have f: "ds ! j = fblk (dk w) (sv_i x) (15 + j)" if "j < 128" for j using that i by (simp add: ds_def fblk_def)
  have l: "length ds = 128" by (simp add: ds_def)
  have PQ: "?P j \<longleftrightarrow> ?Q j" if "j < 128" for j using that word_le_of_nat(2) [of "15 + j" L] by simp
  have sh: "(\<exists>j \<in> set [0..<128]. C (15 + j)) \<longleftrightarrow> (\<exists>n. 15 \<le> n \<and> n < 143 \<and> C n)" for C
  proof
    assume "\<exists>n. 15 \<le> n \<and> n < 143 \<and> C n"
    then obtain n where "15 \<le> n" "n < 143" "C n" by blast
    then show "\<exists>j \<in> set [0..<128]. C (15 + j)" by (intro bexI [of _ "n - 15"]) auto
  next
    assume "\<exists>j \<in> set [0..<128]. C (15 + j)"
    then obtain j where "j < 128" "C (15 + j)" by auto
    then show "\<exists>n. 15 \<le> n \<and> n < 143 \<and> C n" by (intro exI [of _ "15 + j"]) simp
  qed
  have "live_blocks w [0..<128] ds" using live_blocks_fblk [OF pre, of ds 15] f l by simp
  from itrunc_indirect_spec [OF p(1,2) this refl, of L 15 False False]
  obtain w' where w': "itrunc_indirect L 15 [0..<128] ds False False w =
      Some (cut_list ?P [0..<128] ds, \<exists>j \<in> set [0..<128]. \<not> ?P j \<and> ds ! j \<noteq> 0, \<exists>j \<in> set [0..<128]. ?P j \<and> ds ! j \<noteq> 0, w')"
    "drop_step sv x w (cut_blocks ?P [0..<128] ds) x w'" by auto
  have "cut_list ?P [0..<128] ds = cut_list ?Q [0..<128] ds"
    by (rule nth_equalityI) (use PQ in \<open>simp_all add: cut_list_nth l\<close>)
  moreover have "(\<exists>j \<in> set [0..<128]. \<not> ?P j \<and> ds ! j \<noteq> 0) \<longleftrightarrow> (\<exists>n. 15 \<le> n \<and> n < 143 \<and> n \<le> unat L \<and> fblk (dk w) (sv_i x) n \<noteq> 0)"
    unfolding sh [symmetric] using PQ f by (auto simp: not_less)
  moreover have "(\<exists>j \<in> set [0..<128]. ?P j \<and> ds ! j \<noteq> 0) \<longleftrightarrow> (\<exists>n. 15 \<le> n \<and> n < 143 \<and> unat L < n \<and> fblk (dk w) (sv_i x) n \<noteq> 0)"
    unfolding sh [symmetric] using PQ f by auto
  moreover have "cut_blocks ?P [0..<128] ds = fblk (dk w) (sv_i x) ` {n. n < 143 \<and> \<not> (15 \<le> n \<longrightarrow> n \<le> unat L)} - {0}"
  proof -
    have "(\<lambda>j. ds ! j) ` {j \<in> set [0..<128]. ?P j} = fblk (dk w) (sv_i x) ` (\<lambda>j. 15 + j) ` {j \<in> set [0..<128]. ?P j}"
      unfolding image_image using f by (intro image_cong) auto
    moreover have "{j \<in> set [0..<128]. ?P j} = {j. j < 128 \<and> ?Q j}" using PQ by (intro Collect_cong) auto
    moreover have "(\<lambda>j. 15 + j) ` {j. j < 128 \<and> ?Q j} = {n. n < 143 \<and> \<not> (15 \<le> n \<longrightarrow> n \<le> unat L)}"
    proof (rule set_eqI)
      fix n show "n \<in> (\<lambda>j. 15 + j) ` {j. j < 128 \<and> ?Q j} \<longleftrightarrow> n \<in> {n. n < 143 \<and> \<not> (15 \<le> n \<longrightarrow> n \<le> unat L)}"
        by (cases "15 \<le> n") (auto simp: image_iff intro!: exI [of _ "n - 15"])
    qed
    ultimately show ?thesis unfolding cut_blocks_def by (simp only:)
  qed
  ultimately show ?thesis using w' by simp
qed

text \<open>The second part of \<^verbatim>\<open>sfs_itrunc\<close>. What it writes back, when it writes.\<close>

lemma fblk_write_indirect:
  assumes "sfi_indirect di \<noteq> 0" "length ds = 128" "n < 143"
  shows "fblk (D(sfi_indirect di := be_words ds)) di n = (if n < 15 then fblk D di n else ds ! (n - 15))"
  using assms be_words_inverse [of 128 ds "[]"] by (auto simp: fblk_def)

lemma itrunc_idblock_loaded:
  fixes L :: u32
  assumes pre: "bmap_pre sv x w" and i: "sfi_indirect (sv_i x) \<noteq> 0"
  defines "ds \<equiv> of_be_words 128 (dk w (sfi_indirect (sv_i x)))" and "K \<equiv> \<lambda>n. 15 \<le> n \<longrightarrow> n \<le> unat L"
  shows "\<exists>x' w'. do {
      (idbuf, hasnonzero, iddirty, w2) \<leftarrow> itrunc_indirect L 15 [0..<128] ds False False w;
      if \<not> hasnonzero then do {
        w3 \<leftarrow> sfs_bfree (sfi_indirect (sv_i x)) w2;
        w4 \<leftarrow> put_inode sv (\<lambda>n. n\<lparr>sfi_indirect := 0\<rparr>) w3;
        Some (Inr (), w4)
      }
      else if iddirty then sfs_writeblock (sfi_indirect (sv_i x)) (be_words idbuf) w2
      else Some (Inr (), w2)
    } = Some (Inr (), w') \<and> trunc_step sv x w K x' w'"
proof -
  note p = bmap_preD [OF pre]
  let ?i = "sfi_indirect (sv_i x)" and ?f = "fblk (dk w) (sv_i x)"
  let ?ds = "cut_list (\<lambda>j. unat L < 15 + j) [0..<128] ds"
  let ?h = "\<exists>n. 15 \<le> n \<and> n < 143 \<and> n \<le> unat L \<and> ?f n \<noteq> 0" and ?d = "\<exists>n. 15 \<le> n \<and> n < 143 \<and> unat L < n \<and> ?f n \<noteq> 0"
  let ?R = "?f ` {n. n < 143 \<and> \<not> K n} - {0}"
  obtain w2 where w2: "itrunc_indirect L 15 [0..<128] ds False False w = Some (?ds, ?h, ?d, w2)" "drop_step sv x w ?R x w2"
    using itrunc_loop_trunc [OF pre i, of L] unfolding ds_def K_def by blast
  have s: "blk_ok w2" "w_vn w2 sv = Some x" "dk w2 = dk w" "nblocks w2 = nblocks w" "in_use w2 = in_use w - ?R"
    using w2(2) same_fs_nblocks [of w w2] by (simp_all add: drop_step_def)
  have o: "?i \<in> in_use w" "?i < nblocks w" "?i \<notin> ?f ` {..<143}" using p(3) i indirect_owned [OF i] by (auto simp: inode_ok_def)
  then have iu: "?i \<in> in_use w2" "?i < nblocks w2" "?i < d_blocks (w_dev w2)" "io_ok w2"
    using s by (auto simp: blk_ok_def)
  have f: "?f n = ds ! (n - 15)" if "\<not> n < 15" "n < 143" for n using that i by (simp add: ds_def fblk_def)
  have length_ds: "length ds = 128" by (simp add: ds_def)
  show ?thesis
  proof (cases "\<not> ?h")
    case True
    obtain w3 w4 where w4: "sfs_bfree ?i w2 = Some w3" "put_inode sv (\<lambda>n. n\<lparr>sfi_indirect := 0\<rparr>) w3 = Some w4"
        "drop_step sv x w2 {?i} (x\<lparr>sv_i := (sv_i x)\<lparr>sfi_indirect := 0\<rparr>, sv_dirty := True\<rparr>) w4"
      using itrunc_free [OF s(1,2) iu(1,2), of "\<lambda>n. n\<lparr>sfi_indirect := 0\<rparr>"] by auto
    have "?f n = 0" if "15 \<le> n" "n \<le> unat L" "n < 143" for n using True that by auto
    then have "trunc_step sv x w K (x\<lparr>sv_i := (sv_i x)\<lparr>sfi_indirect := 0\<rparr>, sv_dirty := True\<rparr>) w4"
      by (intro trunc_stepI [OF p(3) drop_step_trans [OF w2(2) w4(3)] disk_step_refl])
        (use w4(3) s(3) i p(5) in \<open>auto simp: drop_step_def same_meta_def dinode_ok_def fblk_def K_def\<close>)
    then show ?thesis using w2(1) w4(1,2) True by auto
  next
    case False
    show ?thesis
    proof (cases ?d)
      case True
      obtain w3 where w3: "sfs_writeblock ?i (be_words ?ds) w2 = Some (Inr (), w3)" "disk_step w2 ((dk w2)(?i := be_words ?ds)) w3"
        using sfs_writeblock_spec [OF iu(4,3), of "be_words ?ds"] unfolding returns_def by (auto simp: ds_def)
      have "trunc_step sv x w K x w3"
        by (rule trunc_stepI [OF p(3) w2(2) w3(2)])
          (use i p(5) s(3) f in \<open>auto simp: same_meta_def fblk_write_indirect cut_list_nth length_ds K_def\<close>)
      then show ?thesis using w2(1) w3(1) True False by auto
    next
      case nd: False
      have "?f n = 0" if "15 \<le> n" "\<not> n \<le> unat L" "n < 143" for n using nd that by auto
      then have "trunc_step sv x w K x w2"
        by (intro trunc_stepI [OF p(3) w2(2) disk_step_refl [OF s(1)]])
          (use i p(5) s(3) in \<open>auto simp: same_meta_def K_def\<close>)
      then show ?thesis using w2(1) nd False by auto
    qed
  qed
qed

lemma itrunc_idblock_trunc:
  assumes pre: "bmap_pre sv x w"
  shows "\<exists>x' w'. itrunc_idblock sv L w = Some (Inr (), w') \<and> trunc_step sv x w (\<lambda>n. 15 \<le> n \<longrightarrow> n \<le> unat L) x' w'"
proof (cases "L < 142 \<and> sfi_indirect (sv_i x) \<noteq> 0")
  case True
  note p = bmap_preD [OF pre]
  let ?i = "sfi_indirect (sv_i x)"
  have o: "?i < d_blocks (w_dev w)" "io_ok w"
    using True p(1,3) indirect_owned [of "sv_i x" "dk w"] by (auto simp: inode_ok_def blk_ok_def)
  obtain w1 where w1: "sfs_readblock ?i w = Some (Inr (dk w ?i), w1)" "disk_step w (dk w) w1"
    using sfs_readblock_spec [OF o(2,1)] by (auto simp: returns_def)
  have s: "bmap_step sv x w x w1" by (rule bmap_step_disk [OF pre w1(2)])
  have d: "dk w1 = dk w" "in_use w1 = in_use w" "same_fs w w1" "w_vn w1 = w_vn w"
    using alloc_step_facts [OF disk_step_alloc_step [OF w1(2) p(1)]] by simp_all
  have pre1: "bmap_pre sv x w1" by (rule bmap_pre_step [OF s pre])
  have t: "trunc_step sv x w (\<lambda>_. True) x w1"
    using bmap_preD [OF pre1] p(2) d by (auto simp: trunc_step_def same_meta_def same_vnode_def)
  obtain x' w' where w': "do {
      (idbuf, hasnonzero, iddirty, w2) \<leftarrow> itrunc_indirect L 15 [0..<128] (of_be_words 128 (dk w ?i)) False False w1;
      if \<not> hasnonzero then do {
        w3 \<leftarrow> sfs_bfree ?i w2;
        w4 \<leftarrow> put_inode sv (\<lambda>n. n\<lparr>sfi_indirect := 0\<rparr>) w3;
        Some (Inr (), w4)
      }
      else if iddirty then sfs_writeblock ?i (be_words idbuf) w2
      else Some (Inr (), w2)
    } = Some (Inr (), w')" "trunc_step sv x w1 (\<lambda>n. 15 \<le> n \<longrightarrow> n \<le> unat L) x' w'"
    using itrunc_idblock_loaded [OF pre1, of L] True unfolding d(1) by blast
  have "itrunc_idblock sv L w = Some (Inr (), w')"
    using w'(1) w1(1) True p(2) by (simp add: itrunc_idblock_def sfs_consts)
  then show ?thesis using trunc_step_trans [OF t w'(2) p(3)] by auto
next
  case False
  then have "itrunc_idblock sv L w = Some (Inr (), w)"
    using bmap_preD(2) [OF pre] by (auto simp: itrunc_idblock_def sfs_consts)
  moreover have "fblk (dk w) (sv_i x) n = 0" if "n < 143" "\<not> (15 \<le> n \<longrightarrow> n \<le> unat L)" for n
    using False that by (auto simp: fblk_def word_less_nat_alt)
  ultimately show ?thesis using trunc_step_refl [OF pre, of "\<lambda>n. 15 \<le> n \<longrightarrow> n \<le> unat L"] by auto
qed

subsection \<open>Files outside the big lock\<close>

text \<open>A file whose inode is in memory at \<open>sv\<close>, on a healthy file system, while this thread has the big lock \<open>n\<close> times.\<close>

definition file_ok :: "nat \<Rightarrow> nat \<Rightarrow> sfs_vnode \<Rightarrow> world \<Rightarrow> bool" where
  "file_ok n sv x w \<longleftrightarrow> w_bl w = bl_set n \<and> Suc n < 2 ^ 32 \<and> bmap_pre sv x (w\<lparr>w_bl := bl_set (Suc n)\<rparr>)"

lemma trunc_keeps_eq: "trunc_keeps (unat L) n \<longleftrightarrow> (n < 15 \<longrightarrow> n < unat L) \<and> (15 \<le> n \<longrightarrow> n \<le> unat L)"
  by (auto simp: trunc_keeps_def)

lemma sfs_itrunc_locked:
  fixes len :: int
  assumes ok: "file_ok n sv x w"
  defines "L \<equiv> of_int (tdiv (len + 512 - 1) 512) :: u32"
  obtains x1 w1 where "trunc_step sv x (w\<lparr>w_bl := bl_set (Suc n)\<rparr>) (trunc_keeps (unat L)) x1 w1"
    "sfs_itrunc sv len w = Some (Inr (), (put_vn sv (x1\<lparr>sv_i := (sv_i x1)\<lparr>sfi_size := of_int len\<rparr>, sv_dirty := True\<rparr>) w1)\<lparr>w_bl := bl_set n\<rparr>)"
proof -
  let ?w = "w\<lparr>w_bl := bl_set (Suc n)\<rparr>"
  have a: "biglock_acquire w = Some ?w" and n: "Suc n < 2 ^ 32" and pre: "bmap_pre sv x ?w"
    using ok biglock_enter [of w n] by (simp_all add: file_ok_def)
  obtain x1 w1 where w1: "itrunc_direct sv L [0..<15] ?w = Some w1" "trunc_step sv x ?w (\<lambda>n. n < 15 \<longrightarrow> n < unat L) x1 w1"
    using itrunc_direct_trunc [OF pre] by blast
  note t = trunc_stepD [OF w1(2)] and k = trunc_step_inode_ok [OF w1(2) bmap_preD(3) [OF pre]]
  have "0 \<notin> owned (dk ?w) (sv_i x)" by (simp add: owned_def)
  then have "bmap_pre sv x1 w1" using t(2,3,9) k(1) bmap_preD(4) [OF pre] by (simp add: bmap_pre_def)
  then obtain x2 w2 where w2: "itrunc_idblock sv L w1 = Some (Inr (), w2)" "trunc_step sv x1 w1 (\<lambda>n. 15 \<le> n \<longrightarrow> n \<le> unat L) x2 w2"
    using itrunc_idblock_trunc by blast
  have T: "trunc_step sv x ?w (trunc_keeps (unat L)) x2 w2"
    unfolding trunc_keeps_eq [abs_def] by (rule trunc_step_trans [OF w1(2) w2(2) bmap_preD(3) [OF pre]])
  let ?x = "x2\<lparr>sv_i := (sv_i x2)\<lparr>sfi_size := of_int len\<rparr>, sv_dirty := True\<rparr>"
  have "put_inode sv (\<lambda>n. n\<lparr>sfi_size := of_int len\<rparr>) w2 = Some (put_vn sv ?x w2)"
    using trunc_stepD(3) [OF T] by (simp add: put_inode_eq)
  moreover have "w_bl w2 = bl_set (Suc n)" using trunc_stepD(1) [OF T] by (simp add: same_fs_def)
  then have "biglock_release (put_vn sv ?x w2) = Some ((put_vn sv ?x w2)\<lparr>w_bl := bl_set n\<rparr>)"
    using n by (intro biglock_leave) (simp_all add: put_vn_def)
  ultimately have "sfs_itrunc sv len w = Some (Inr (), (put_vn sv ?x w2)\<lparr>w_bl := bl_set n\<rparr>)"
    using a w1(1) w2(1) by (simp add: sfs_itrunc_def L_def sfs_consts)
  then show thesis using that T by blast
qed

subsection \<open>The files of the small volume\<close>

lemma small_file_fblk:
  "n < 143 \<Longrightarrow> fblk (dk small_world) small_file n = (if n = 0 then 4 else if n = 15 then 6 else if n = 16 then 7 else 0)"
proof -
  assume n: "n < 143"
  have "of_be_words 128 (dk small_world 5) = [6, 7] @ replicate 126 0"
    using be_words_inverse [of 128 "[6, 7] @ replicate 126 0" "[]"] by (simp add: dk_small_world small_disk_def)
  then show ?thesis using n by (auto simp: fblk_def small_file_def nth_Cons')
qed

lemma small_root_fblk: "n < 143 \<Longrightarrow> fblk (dk small_world) small_root n = (if n = 0 then 8 else 0)"
  by (simp add: fblk_def small_root_def nth_Cons')

lemma small_file_ok: "file_ok n 1 small_file_vn (small_world\<lparr>w_bl := bl_set n\<rparr>)" if "Suc n < 2 ^ 32"
proof -
  have f: "fblk (dk small_world) small_file ` {..<143} \<subseteq> {0, 4, 6, 7}" by (auto simp: small_file_fblk split: if_splits)
  have "inj_on (fblk (dk small_world) small_file) {n. n < 143 \<and> fblk (dk small_world) small_file n \<noteq> 0}"
    by (rule inj_onI) (auto simp: small_file_fblk split: if_splits)
  moreover have i: "sfi_indirect small_file = 5" by (simp add: small_file_def)
  moreover have "owned (dk small_world) small_file \<subseteq> {4, 5, 6, 7}" using f i by (auto simp: owned_def)
  then have "owned (dk small_world) small_file \<subseteq> in_use small_world" "\<forall>b \<in> owned (dk small_world) small_file. b < 16"
    by (auto simp: in_use_small_world)
  moreover have "5 \<notin> fblk (dk small_world) small_file ` {..<143}" using f by auto
  ultimately have "inode_ok (dk small_world) (in_use small_world) 16 small_file" by (simp add: inode_ok_def)
  then show ?thesis
    using that small_world_blk_ok [of n] small_vnodes by (simp add: file_ok_def bmap_pre_def in_use_small_world small_file_vn_def)
qed

lemma small_root_ok: "file_ok n 0 small_root_vn (small_world\<lparr>w_bl := bl_set n\<rparr>)" if "Suc n < 2 ^ 32"
proof -
  have f: "fblk (dk small_world) small_root ` {..<143} \<subseteq> {0, 8}" by (auto simp: small_root_fblk split: if_splits)
  have "inj_on (fblk (dk small_world) small_root) {n. n < 143 \<and> fblk (dk small_world) small_root n \<noteq> 0}"
    by (rule inj_onI) (auto simp: small_root_fblk split: if_splits)
  moreover have i: "sfi_indirect small_root = 0" by (simp add: small_root_def)
  moreover have "owned (dk small_world) small_root \<subseteq> {8}" using f i by (auto simp: owned_def)
  then have "owned (dk small_world) small_root \<subseteq> in_use small_world" "\<forall>b \<in> owned (dk small_world) small_root. b < 16"
    by (auto simp: in_use_small_world)
  ultimately have "inode_ok (dk small_world) (in_use small_world) 16 small_root" by (simp add: inode_ok_def)
  then show ?thesis
    using that small_world_blk_ok [of n] small_vnodes by (simp add: file_ok_def bmap_pre_def in_use_small_world small_root_vn_def)
qed

subsection \<open>The block map and truncation\<close>

text \<open>C5: \<^verbatim>\<open>sfs_bmap\<close> on a sound file. A block past the last one an inode can address gives \<^verbatim>\<open>EFBIG\<close> and changes nothing. Otherwise
  the block number returned is where the file has that block afterwards, and it is not 0 when the caller asked for
  allocation; the only error is \<^verbatim>\<open>ENOSPC\<close>, for a hole on a full volume. Whatever happens, every block of the file
  reads as before, the file stays sound, the blocks newly in use are exactly those the file has gained, and no block
  in use before changes on disk except the indirect block of this file.\<close>

theorem sfs_bmap_correct:
  assumes "bmap_pre sv x w"
  shows "if unat fileblock < 143 then
      (\<exists>r x' w'. sfs_bmap sv fileblock doalloc w = Some (r, w') \<and> w_vn w' = (w_vn w)(sv \<mapsto> x') \<and> bmap_pre sv x' w' \<and>
        (case r of
           Inl e \<Rightarrow> e = ENOSPC \<and> doalloc \<and> fblk (dk w) (sv_i x) (unat fileblock) = 0 \<and> (\<forall>b. b < nblocks w \<longrightarrow> b \<in> in_use w')
         | Inr b \<Rightarrow> b = fblk (dk w') (sv_i x') (unat fileblock) \<and> (doalloc \<longrightarrow> b \<noteq> 0)) \<and>
        (\<forall>k. k < 143 \<longrightarrow> fdata (dk w') (sv_i x') k = fdata (dk w) (sv_i x) k) \<and>
        in_use w \<subseteq> in_use w' \<and> owned (dk w') (sv_i x') = owned (dk w) (sv_i x) \<union> (in_use w' - in_use w) \<and>
        (\<forall>b. b \<in> in_use w \<longrightarrow> b = 0 \<or> b \<noteq> sfi_indirect (sv_i x) \<longrightarrow> dk w' b = dk w b))
    else sfs_bmap sv fileblock doalloc w = Some (Inl EFBIG, w)"
proof (cases "unat fileblock < 143")
  case True
  obtain r x' w' where w': "sfs_bmap sv fileblock doalloc w = Some (r, w')" "bmap_step sv x w x' w'"
      "bmap_post doalloc (unat fileblock) x w r x' w'"
    using sfs_bmap_spec [OF assms, of fileblock doalloc] True by (auto simp: returns_def)
  note b = bmap_stepD [OF w'(2)]
  show ?thesis using True w' b bmap_pre_step [OF w'(2) assms] unfolding bmap_post_def by (simp only: if_True) blast
next
  case False
  then show ?thesis using sfs_bmap_spec [OF assms, of fileblock doalloc] by (auto simp: returns_def)
qed

theorem sfs_bmap_correct_witness:
  "\<exists>b x' w'. sfs_bmap 1 0 True (small_world\<lparr>w_bl := bl_set 1\<rparr>) = Some (Inr b, w') \<and> w_vn w' 1 = Some x' \<and> b \<noteq> 0 \<and>
     b = fblk (dk w') (sv_i x') 0 \<and> fdata (dk w') (sv_i x') 0 = replicate 512 104"
proof -
  let ?w = "small_world\<lparr>w_bl := bl_set 1\<rparr>"
  have pre: "bmap_pre 1 small_file_vn ?w" using small_file_ok [of 0] by (simp add: file_ok_def)
  have f: "fblk (dk small_world) (sv_i small_file_vn) 0 = 4" "fdata (dk small_world) (sv_i small_file_vn) 0 = replicate 512 104"
    using small_file_fblk [of 0] dk_small_world [of 4] by (simp_all add: small_file_vn_def fdata_def small_disk_def)
  show ?thesis using sfs_bmap_correct [OF pre, of 0 True] f by (simp add: split_sum_ex) auto
qed

text \<open>Changing what is not a block number in an inode.\<close>

lemma meta_update:
  assumes "sfi_direct di' = sfi_direct di" "sfi_indirect di' = sfi_indirect di" "sfi_waste di' = sfi_waste di"
  shows "fblk D di' = fblk D di" "fdata D di' = fdata D di" "owned D di' = owned D di" "inode_ok D U N di' = inode_ok D U N di"
proof -
  show f: "fblk D di' = fblk D di" using assms by (simp add: fun_eq_iff fblk_def)
  then show "fdata D di' = fdata D di" and o: "owned D di' = owned D di" using assms by (simp_all add: fun_eq_iff fdata_def owned_def)
  show "inode_ok D U N di' = inode_ok D U N di" unfolding inode_ok_def f o using assms by (simp add: dinode_ok_def)
qed

lemma bmap_pre_put:
  assumes "blk_ok w" "0 \<in> in_use w" "inode_ok (dk w) (in_use w) (nblocks w) (sv_i x)"
    and "sfi_direct (sv_i x') = sfi_direct (sv_i x)" "sfi_indirect (sv_i x') = sfi_indirect (sv_i x)" "sfi_waste (sv_i x') = sfi_waste (sv_i x)"
  shows "bmap_pre sv x' (put_vn sv x' w)"
  using assms(1-3) meta_update(4) [OF assms(4-6)] by (simp add: bmap_pre_def)

lemma file_okI: "bmap_pre sv x w \<Longrightarrow> w_bl w = bl_set (Suc n) \<Longrightarrow> Suc n < 2 ^ 32 \<Longrightarrow> file_ok n sv x (w\<lparr>w_bl := bl_set n\<rparr>)"
proof -
  assume "w_bl w = bl_set (Suc n)"
  then have "w\<lparr>w_bl := bl_set n, w_bl := bl_set (Suc n)\<rparr> = w" by (cases w) simp
  then show "bmap_pre sv x w \<Longrightarrow> Suc n < 2 ^ 32 \<Longrightarrow> file_ok n sv x (w\<lparr>w_bl := bl_set n\<rparr>)" by (simp add: file_ok_def)
qed

text \<open>C7: \<^verbatim>\<open>sfs_itrunc\<close> on a sound file succeeds, sets the size, and leaves a sound file whose blocks are either kept with their
  contents or have become holes; exactly the blocks the file no longer owns are free again; nothing else on disk
  changes except the indirect block; the big lock is as before. Which blocks are kept is \<open>trunc_keeps\<close>: of the direct blocks
  those below the new end, but of the blocks behind the indirect block also the first one past the end.\<close>

theorem sfs_itrunc_effect:
  assumes "file_ok n sv x w"
  shows "\<exists>x' w'. sfs_itrunc sv len w = Some (Inr (), w') \<and> w_vn w' = (w_vn w)(sv \<mapsto> x') \<and> file_ok n sv x' w' \<and>
    sfi_size (sv_i x') = of_int len \<and> sfi_type (sv_i x') = sfi_type (sv_i x) \<and> sfi_linkcount (sv_i x') = sfi_linkcount (sv_i x) \<and>
    (\<forall>k. k < 143 \<longrightarrow> fdata (dk w') (sv_i x') k =
       (if trunc_keeps (unat (of_int (tdiv (len + 512 - 1) 512) :: u32)) k then fdata (dk w) (sv_i x) k else zblock)) \<and>
    in_use w' = in_use w - (owned (dk w) (sv_i x) - owned (dk w') (sv_i x')) \<and>
    (\<forall>b. b = 0 \<or> b \<noteq> sfi_indirect (sv_i x) \<longrightarrow> dk w' b = dk w b)"
proof -
  let ?w = "w\<lparr>w_bl := bl_set (Suc n)\<rparr>" and ?K = "trunc_keeps (unat (of_int (tdiv (len + 512 - 1) 512) :: u32))"
  obtain x1 w1 where t: "trunc_step sv x ?w ?K x1 w1" and
    e: "sfs_itrunc sv len w = Some (Inr (), (put_vn sv (x1\<lparr>sv_i := (sv_i x1)\<lparr>sfi_size := of_int len\<rparr>, sv_dirty := True\<rparr>) w1)\<lparr>w_bl := bl_set n\<rparr>)"
    by (rule sfs_itrunc_locked [OF assms])
  let ?x = "x1\<lparr>sv_i := (sv_i x1)\<lparr>sfi_size := of_int len\<rparr>, sv_dirty := True\<rparr>"
  let ?w' = "(put_vn sv ?x w1)\<lparr>w_bl := bl_set n\<rparr>"
  note T = trunc_stepD [OF t]
  have pre: "bmap_pre sv x ?w" and n: "Suc n < 2 ^ 32" using assms by (simp_all add: file_ok_def)
  note k = trunc_step_inode_ok [OF t bmap_preD(3) [OF pre]]
  note sz = meta_update [of "sv_i ?x" "sv_i x1", simplified]
  have "0 \<notin> owned (dk w) (sv_i x)" by (simp add: owned_def)
  then have u0: "0 \<in> in_use w1" using T(9) bmap_preD(4) [OF pre] by simp
  have bl: "w_bl (put_vn sv ?x w1) = bl_set (Suc n)" using T(1) by (simp add: same_fs_def)
  have "bmap_pre sv ?x (put_vn sv ?x w1)" by (rule bmap_pre_put [OF T(2) u0 k(1)]) simp_all
  then have "file_ok n sv ?x ?w'" by (rule file_okI [OF _ bl n])
  moreover have "w_vn ?w' = (w_vn w)(sv \<mapsto> ?x)" using T(3) by (simp add: put_vn_def)
  moreover have "sfi_type (sv_i ?x) = sfi_type (sv_i x)" "sfi_linkcount (sv_i ?x) = sfi_linkcount (sv_i x)"
    using T(6) by (simp_all add: same_meta_def)
  moreover have "fdata (dk ?w') (sv_i ?x) k = (if ?K k then fdata (dk w) (sv_i x) k else zblock)" if "k < 143" for k
    using trunc_step_fdata [OF t bmap_preD(3) [OF pre] that] sz(2) by simp
  moreover have "in_use ?w' = in_use w - (owned (dk w) (sv_i x) - owned (dk ?w') (sv_i ?x))"
    using T(9) sz(3) by simp
  moreover have "dk ?w' b = dk w b" if "b = 0 \<or> b \<noteq> sfi_indirect (sv_i x)" for b
    using T(10) [of b] that by simp
  ultimately show ?thesis using e by (intro exI [of _ ?x] exI [of _ ?w']) simp
qed

theorem sfs_itrunc_effect_witness:
  "\<exists>x' w'. sfs_itrunc 1 7680 small_world = Some (Inr (), w') \<and> sfi_size (sv_i x') = 7680 \<and> w_vn w' 1 = Some x' \<and>
     fdata (dk w') (sv_i x') 15 = replicate 512 105 \<and> fdata (dk w') (sv_i x') 16 = zblock"
proof -
  have ok: "file_ok 0 1 small_file_vn small_world"
    using small_file_ok [of 0] by (simp add: small_world_def)
  have f: "fdata (dk small_world) (sv_i small_file_vn) 15 = replicate 512 105"
    using small_file_fblk [of 15] dk_small_world [of 6] by (simp add: small_file_vn_def fdata_def small_disk_def)
  obtain x' w' where "sfs_itrunc 1 7680 small_world = Some (Inr (), w')" "w_vn w' = (w_vn small_world)(1 \<mapsto> x')" "sfi_size (sv_i x') = 7680"
    "\<forall>k. k < 143 \<longrightarrow> fdata (dk w') (sv_i x') k =
       (if trunc_keeps (unat (of_int (tdiv (7680 + 512 - 1) 512) :: u32)) k then fdata (dk small_world) (sv_i small_file_vn) k else zblock)"
    using sfs_itrunc_effect [OF ok, of 7680] by auto
  then show ?thesis using f by (intro exI [of _ x'] exI [of _ w']) (simp add: trunc_keeps_def tdiv_def)
qed

end
