(* ===== verification/Sfsfile.thy ===== *)
theory Sfsfile
  imports Sfsbmap
begin

text \<open>
  File and metadata transfers of SFS, \<^verbatim>\<open>kern/fs/sfs/sfs_io.c\<close>, second part. User transfers take the user's \<open>uio\<close> and
  memory and hand back both.
\<close>

definition sfs_partialio :: "(u32 \<Rightarrow> bool) \<Rightarrow> nat option \<Rightarrow> nat \<Rightarrow> u32 \<Rightarrow> u32 \<Rightarrow> uio \<Rightarrow> mem \<Rightarrow> world \<Rightarrow>
    ((errno + unit) \<times> uio \<times> mem \<times> world) kp" where
  "sfs_partialio fault curas sv skipstart len u mem w = do {
     let doalloc = (uio_rw u = UIO_WRITE);
     kassert (skipstart + len \<le> SFS_BLOCKSIZE);
     kassert (vfs_biglock_do_i_hold (w_bl w));
     let fileblock = of_int (tdiv (uio_offset u) 512);
     (result, w1) \<leftarrow> sfs_bmap sv fileblock doalloc w;
     (case result of
        Inl e \<Rightarrow> Some (Inl e, u, mem, w1)
      | Inr diskblock \<Rightarrow> do {
          (result, w2) \<leftarrow>
            (if diskblock = 0 then do { kassert (uio_rw u = UIO_READ); Some (Inr (replicate 512 0), w1) }
             else sfs_readblock diskblock w1);
          (case result of
             Inl e \<Rightarrow> Some (Inl e, u, mem, w2)
           | Inr iobuf \<Rightarrow> do {
               (result, buf, u1, mem1) \<leftarrow> uiomove fault curas (drop (unat skipstart) iobuf) len u mem;
               (case result of
                  Inl e \<Rightarrow> Some (Inl e, u1, mem1, w2)
                | Inr _ \<Rightarrow>
                    if uio_rw u1 = UIO_WRITE then do {
                      (result, w3) \<leftarrow> sfs_writeblock diskblock (take (unat skipstart) iobuf @ buf) w2;
                      Some (result, u1, mem1, w3)
                    }
                    else Some (Inr (), u1, mem1, w2))
             })
        })
   }"

definition sfs_blockio :: "(u32 \<Rightarrow> bool) \<Rightarrow> nat option \<Rightarrow> nat \<Rightarrow> uio \<Rightarrow> mem \<Rightarrow> world \<Rightarrow> ((errno + unit) \<times> uio \<times> mem \<times> world) kp" where
  "sfs_blockio fault curas sv u mem w = do {
     let doalloc = (uio_rw u = UIO_WRITE);
     let fileblock = of_int (tdiv (uio_offset u) 512);
     (result, w1) \<leftarrow> sfs_bmap sv fileblock doalloc w;
     (case result of
        Inl e \<Rightarrow> Some (Inl e, u, mem, w1)
      | Inr diskblock \<Rightarrow>
          if diskblock = 0 then do {
            kassert (uio_rw u = UIO_READ);
            (result, u1, mem1) \<leftarrow> uiomovezeros fault curas SFS_BLOCKSIZE u mem;
            Some (result, u1, mem1, w1)
          }
          else do {
            let saveoff = uio_offset u;
            let diskoff = uint (diskblock * SFS_BLOCKSIZE);
            kassert (uio_resid u \<ge> SFS_BLOCKSIZE);
            let saveres = uio_resid u;
            let diskres = SFS_BLOCKSIZE;
            (result, u1, mem1, w2) \<leftarrow>
              sfs_rwblock fault curas (u\<lparr>uio_offset := diskoff, uio_resid := diskres\<rparr>) mem w1;
            let u2 = u1\<lparr>uio_offset := (uio_offset u1 - diskoff) + saveoff, uio_resid := (uio_resid u1 - diskres) + saveres\<rparr>;
            Some (result, u2, mem1, w2)
          })
   }"

fun sfs_io_blocks :: "(u32 \<Rightarrow> bool) \<Rightarrow> nat option \<Rightarrow> nat \<Rightarrow> nat \<Rightarrow> uio \<Rightarrow> mem \<Rightarrow> world \<Rightarrow> ((errno + unit) \<times> uio \<times> mem \<times> world) kp" where
  "sfs_io_blocks fault curas sv 0 u mem w = Some (Inr (), u, mem, w)"
| "sfs_io_blocks fault curas sv (Suc n) u mem w = do {
     (result, u1, mem1, w1) \<leftarrow> sfs_blockio fault curas sv u mem w;
     (case result of
        Inl e \<Rightarrow> Some (Inl e, u1, mem1, w1)
      | Inr _ \<Rightarrow> sfs_io_blocks fault curas sv n u1 mem1 w1)
   }"

text \<open>The whole blocks and the trailing partial block, once the leading partial block is done.\<close>

definition sfs_io_aligned :: "(u32 \<Rightarrow> bool) \<Rightarrow> nat option \<Rightarrow> nat \<Rightarrow> uio \<Rightarrow> mem \<Rightarrow> world \<Rightarrow> ((errno + unit) \<times> uio \<times> mem \<times> world) kp" where
  "sfs_io_aligned fault curas sv u mem w =
     (if uio_resid u = 0 then Some (Inr (), u, mem, w)
      else do {
        kassert (tmod (uio_offset u) 512 = 0);
        let nblocks = uio_resid u div SFS_BLOCKSIZE;
        (result, u1, mem1, w1) \<leftarrow> sfs_io_blocks fault curas sv (unat nblocks) u mem w;
        (case result of
           Inl e \<Rightarrow> Some (Inl e, u1, mem1, w1)
         | Inr _ \<Rightarrow> do {
             kassert (uio_resid u1 < SFS_BLOCKSIZE);
             if uio_resid u1 > 0 then sfs_partialio fault curas sv 0 (uio_resid u1) u1 mem1 w1
             else Some (Inr (), u1, mem1, w1)
           })
      })"

definition sfs_io_transfer :: "(u32 \<Rightarrow> bool) \<Rightarrow> nat option \<Rightarrow> nat \<Rightarrow> uio \<Rightarrow> mem \<Rightarrow> world \<Rightarrow> ((errno + unit) \<times> uio \<times> mem \<times> world) kp" where
  "sfs_io_transfer fault curas sv u mem w = do {
     let blkoff = of_int (tmod (uio_offset u) 512);
     (result, u1, mem1, w1) \<leftarrow>
       (if blkoff \<noteq> 0 then do {
          let skip = blkoff;
          let len = SFS_BLOCKSIZE - blkoff;
          sfs_partialio fault curas sv skip (if len > uio_resid u then uio_resid u else len) u mem w
        }
        else Some (Inr (), u, mem, w));
     (case result of
        Inl e \<Rightarrow> Some (Inl e, u1, mem1, w1)
      | Inr _ \<Rightarrow> sfs_io_aligned fault curas sv u1 mem1 w1)
   }"

definition sfs_io :: "(u32 \<Rightarrow> bool) \<Rightarrow> nat option \<Rightarrow> nat \<Rightarrow> uio \<Rightarrow> mem \<Rightarrow> world \<Rightarrow> ((errno + unit) \<times> uio \<times> mem \<times> world) kp" where
  "sfs_io fault curas sv u mem w = do {
     let origresid = uio_resid u;
     x \<leftarrow> w_vn w sv;
     let size = uint (sfi_size (sv_i x));
     let endpos = uio_offset u + uint (uio_resid u);
     if uio_rw u = UIO_READ \<and> uio_offset u \<ge> size then Some (Inr (), u, mem, w)
     else do {
       let extraresid = (if uio_rw u = UIO_READ \<and> endpos > size then of_int (endpos - size) else 0);
       (if uio_rw u = UIO_READ \<and> endpos > size then kassert (uio_resid u > extraresid) else Some ());
       (result, u1, mem1, w1) \<leftarrow> sfs_io_transfer fault curas sv (u\<lparr>uio_resid := uio_resid u - extraresid\<rparr>) mem w;
       x1 \<leftarrow> w_vn w1 sv;
       w2 \<leftarrow> (if uio_resid u1 \<noteq> origresid \<and> uio_rw u1 = UIO_WRITE \<and> uio_offset u1 > uint (sfi_size (sv_i x1))
             then put_inode sv (\<lambda>i. i\<lparr>sfi_size := of_int (uio_offset u1)\<rparr>) w1
             else Some w1);
       Some (result, u1\<lparr>uio_resid := uio_resid u1 + extraresid\<rparr>, mem1, w2)
     }
   }"

subsection \<open>Metadata\<close>

text \<open>\<open>data\<close> is the caller's buffer; it is handed back as it is afterwards.\<close>

definition sfs_metaio :: "nat \<Rightarrow> int \<Rightarrow> u8 list \<Rightarrow> uio_rw \<Rightarrow> world \<Rightarrow> ((errno + u8 list) \<times> world) kp" where
  "sfs_metaio sv actualpos data rw w = do {
     kassert (vfs_biglock_do_i_hold (w_bl w));
     let vnblock = of_int (tdiv actualpos 512);
     let blockoffset = unat (of_int (tmod actualpos 512) :: u32);
     let doalloc = (rw = UIO_WRITE);
     (result, w1) \<leftarrow> sfs_bmap sv vnblock doalloc w;
     (case result of
        Inl e \<Rightarrow> Some (Inl e, w1)
      | Inr diskblock \<Rightarrow>
          if diskblock = 0 then do {
            kassert (rw = UIO_READ);
            Some (Inr (replicate (length data) 0), w1)
          }
          else do {
            (result, w2) \<leftarrow> sfs_readblock diskblock w1;
            (case result of
               Inl e \<Rightarrow> Some (Inl e, w2)
             | Inr metaiobuf \<Rightarrow> do {
                 kassert (blockoffset + length data \<le> length metaiobuf);
                 if rw = UIO_READ then Some (Inr (take (length data) (drop blockoffset metaiobuf)), w2)
                 else do {
                   (result, w3) \<leftarrow>
                     sfs_writeblock diskblock
                       (take blockoffset metaiobuf @ data @ drop (blockoffset + length data) metaiobuf) w2;
                   (case result of
                      Inl e \<Rightarrow> Some (Inl e, w3)
                    | Inr _ \<Rightarrow> do {
                        let endpos = actualpos + int (length data);
                        x \<leftarrow> w_vn w3 sv;
                        w4 \<leftarrow> (if endpos > uint (sfi_size (sv_i x))
                              then put_inode sv (\<lambda>i. i\<lparr>sfi_size := of_int endpos\<rparr>) w3
                              else Some w3);
                        Some (Inr data, w4)
                      })
                 }
               })
          })
   }"

subsection \<open>Progress of a transfer\<close>

text \<open>A transfer request whose buffers are accessible and have room for the bytes still to come; \<open>u'\<close> is \<open>u\<close> after \<open>n\<close> bytes.\<close>

definition uio_rdy :: "(u32 \<Rightarrow> bool) \<Rightarrow> nat option \<Rightarrow> uio \<Rightarrow> bool" where
  "uio_rdy fault curas u \<longleftrightarrow> unat (uio_resid u) \<le> length (uio_addrs u) \<and> uio_ok fault u \<and>
     uio_space u = (if uio_segflg u = UIO_SYSSPACE then None else curas)"

definition uio_adv :: "(u32 \<Rightarrow> bool) \<Rightarrow> nat option \<Rightarrow> uio \<Rightarrow> nat \<Rightarrow> uio \<Rightarrow> bool" where
  "uio_adv fault curas u n u' \<longleftrightarrow> n \<le> unat (uio_resid u) \<and> uio_addrs u' = drop n (uio_addrs u) \<and>
     unat (uio_resid u') = unat (uio_resid u) - n \<and> uio_offset u' = uio_offset u + int n \<and> uio_rw u' = uio_rw u \<and>
     uio_rdy fault curas u'"

lemma uio_adv_0: "uio_rdy fault curas u \<Longrightarrow> uio_adv fault curas u 0 u"
  by (simp add: uio_adv_def)

lemma uio_adv_trans: "uio_adv fault curas u m u1 \<Longrightarrow> uio_adv fault curas u1 n u2 \<Longrightarrow> uio_adv fault curas u (m + n) u2"
  by (auto simp: uio_adv_def add.commute)

lemma mem_put_append: "length as = length bs \<Longrightarrow> mem_put mem (as @ as') (bs @ bs') = mem_put (mem_put mem as bs) as' bs'"
  by (simp add: mem_put_def)

text \<open>Reading \<open>bs\<close> into the buffers of \<open>u\<close>, and what a write takes from them.\<close>

definition uio_fill :: "uio \<Rightarrow> u8 list \<Rightarrow> mem \<Rightarrow> mem" where
  "uio_fill u bs mem = mem_put mem (take (length bs) (uio_addrs u)) bs"

definition uio_data :: "uio \<Rightarrow> mem \<Rightarrow> nat \<Rightarrow> u8 list" where
  "uio_data u mem n = map mem (take n (uio_addrs u))"

lemma uio_fill_append:
  assumes "uio_adv fault curas u (length bs) u'" "uio_rdy fault curas u" "length cs \<le> unat (uio_resid u')"
  shows "uio_fill u' cs (uio_fill u bs mem) = uio_fill u (bs @ cs) mem"
proof -
  have "length bs \<le> length (uio_addrs u)" "uio_addrs u' = drop (length bs) (uio_addrs u)"
    using assms(1,2) by (auto simp: uio_adv_def uio_rdy_def)
  moreover then have "take (length (bs @ cs)) (uio_addrs u) = take (length bs) (uio_addrs u) @ take (length cs) (uio_addrs u')"
    by (simp add: take_add)
  ultimately show ?thesis by (simp add: uio_fill_def mem_put_append)
qed

lemma uio_data_append:
  "uio_adv fault curas u m u' \<Longrightarrow> uio_data u mem (m + n) = uio_data u mem m @ uio_data u' mem n"
  by (simp add: uio_adv_def uio_data_def take_add)

lemma length_uio_data: "uio_rdy fault curas u \<Longrightarrow> n \<le> unat (uio_resid u) \<Longrightarrow> length (uio_data u mem n) = n"
  by (auto simp: uio_rdy_def uio_data_def)

lemma uiomove_adv:
  assumes "uio_rdy fault curas u" "n \<le> uio_resid u" "unat n \<le> length buf"
  shows "\<exists>u'. uiomove fault curas buf n u mem =
      Some (Inr (), (if uio_rw u = UIO_READ then buf else uio_data u mem (unat n) @ drop (unat n) buf), u',
        (if uio_rw u = UIO_READ then uio_fill u (take (unat n) buf) mem else mem)) \<and> uio_adv fault curas u (unat n) u'"
proof -
  have n: "unat n \<le> unat (uio_resid u)" "unat n \<le> length (uio_addrs u)" using assms(1,2) by (auto simp: uio_rdy_def word_le_nat_alt)
  have ok: "uio_ok fault u" "uio_space u = (if uio_segflg u = UIO_SYSSPACE then None else curas)"
    using assms(1) by (simp_all add: uio_rdy_def)
  obtain u' buf' mem' where x: "uiomove_loop fault buf 0 n u mem = Some (Inr (), buf', u', mem')"
    "(buf', mem') = put_result (uio_rw u) buf 0 (take (unat n) (uio_addrs u)) mem"
    "uio_addrs u' = drop (unat n) (uio_addrs u)" "uio_resid u' = uio_resid u - n" "uio_offset u' = uio_offset u + uint n"
    "uio_segflg u' = uio_segflg u" "uio_rw u' = uio_rw u" "uio_space u' = uio_space u" "uio_ok fault u'"
    using uiomove_loop_spec [OF n(2) assms(2) ok(1), of 0 buf mem] assms(3) by auto
  have "length (take (unat n) (uio_addrs u)) = unat n" using n by simp
  then have "buf' = (if uio_rw u = UIO_READ then buf else uio_data u mem (unat n) @ drop (unat n) buf)"
    "mem' = (if uio_rw u = UIO_READ then uio_fill u (take (unat n) buf) mem else mem)"
    using x(2) assms(3) by (cases "uio_rw u"; simp add: put_result_def uio_data_def uio_fill_def min_def)+
  moreover have "uio_adv fault curas u (unat n) u'"
    using x(3-9) n ok assms(1,2) by (simp add: uio_adv_def uio_rdy_def unat_sub)
  ultimately show ?thesis using x(1) ok(2) by (auto simp: uiomove_def)
qed

declare uiomovezeros_loop.simps [simp del]

lemma uiomovezeros_loop_adv:
  "uio_rdy fault curas u \<Longrightarrow> uio_rw u = UIO_READ \<Longrightarrow> n \<le> uio_resid u \<Longrightarrow>
   \<exists>u'. uiomovezeros_loop fault curas n u mem = Some (Inr (), u', uio_fill u (replicate (unat n) 0) mem) \<and> uio_adv fault curas u (unat n) u'"
proof (induction fault curas n u mem rule: uiomovezeros_loop.induct)
  case (1 fault curas n u mem)
  show ?case
  proof (cases "n > 0")
    case True
    define amt where "amt = (if 16 > n then n else 16)"
    have amt: "amt \<le> n" "amt \<le> uio_resid u" "unat amt \<le> length (replicate 16 (0 :: u8))"
      using 1(4) by (auto simp: amt_def word_less_nat_alt word_le_nat_alt)
    obtain u1 where u1: "uiomove fault curas (replicate 16 0) amt u mem =
        Some (Inr (), replicate 16 0, u1, uio_fill u (replicate (unat amt) 0) mem)" "uio_adv fault curas u (unat amt) u1"
      using uiomove_adv [OF 1(2) amt(2,3), of mem] 1(3) amt(3) by (auto simp: min_def)
    have r: "uio_rdy fault curas u1" "uio_rw u1 = UIO_READ" "n - amt \<le> uio_resid u1" "unat (n - amt) = unat n - unat amt" "unat amt \<le> unat n"
      using u1(2) 1(3,4) amt(1) by (auto simp: uio_adv_def word_le_nat_alt unat_sub)
    obtain u' where u': "uiomovezeros_loop fault curas (n - amt) u1 (uio_fill u (replicate (unat amt) 0) mem) =
        Some (Inr (), u', uio_fill u1 (replicate (unat (n - amt)) 0) (uio_fill u (replicate (unat amt) 0) mem))"
        "uio_adv fault curas u1 (unat (n - amt)) u'"
      using 1(1) [OF True amt_def u1(1) refl refl refl refl r(1-3)] by blast
    have "uio_fill u1 (replicate (unat (n - amt)) 0) (uio_fill u (replicate (unat amt) 0) mem) =
        uio_fill u (replicate (unat amt) 0 @ replicate (unat (n - amt)) 0) mem"
      using u1(2) 1(2) r(3) by (intro uio_fill_append) (auto simp: word_le_nat_alt)
    also have "replicate (unat amt) 0 @ replicate (unat (n - amt)) 0 = replicate (unat n) (0 :: u8)"
      using r(4,5) by (simp flip: replicate_add)
    finally have f: "uio_fill u1 (replicate (unat (n - amt)) 0) (uio_fill u (replicate (unat amt) 0) mem) = uio_fill u (replicate (unat n) 0) mem" .
    have "uiomovezeros_loop fault curas n u mem = Some (Inr (), u', uio_fill u (replicate (unat n) 0) mem)"
      using True u1(1) u'(1) unfolding f by (subst uiomovezeros_loop.simps) (simp add: amt_def [symmetric])
    moreover have "uio_adv fault curas u (unat n) u'" using uio_adv_trans [OF u1(2) u'(2)] r(4,5) by simp
    ultimately show ?thesis by blast
  next
    case False
    then have "n = 0" by (simp add: word_gt_0)
    then show ?thesis using 1(2) by (subst uiomovezeros_loop.simps) (simp add: uio_adv_0 uio_fill_def mem_put_def)
  qed
qed

subsection \<open>The bytes of a file\<close>

definition fbyte :: "(u32 \<Rightarrow> u8 list) \<Rightarrow> sfs_dinode \<Rightarrow> nat \<Rightarrow> u8" where
  "fbyte D di p = fdata D di (p div 512) ! (p mod 512)"

definition fbytes :: "(u32 \<Rightarrow> u8 list) \<Rightarrow> sfs_dinode \<Rightarrow> nat \<Rightarrow> nat \<Rightarrow> u8 list" where
  "fbytes D di p n = map (fbyte D di) [p..<p + n]"

lemma length_fbytes [simp]: "length (fbytes D di p n) = n"
  by (simp add: fbytes_def)

lemma fbytes_0 [simp]: "fbytes D di p 0 = []"
  by (simp add: fbytes_def)

lemma fbytes_add: "fbytes D di p (m + n) = fbytes D di p m @ fbytes D di (p + m) n"
  using upt_add_eq_append [of p "p + m" n] by (simp only: fbytes_def add.assoc [symmetric] map_append le_add1)

lemma length_fdata: "bmap_pre sv x w \<Longrightarrow> k < 143 \<Longrightarrow> length (fdata (dk w) (sv_i x) k) = 512"
proof -
  assume pre: "bmap_pre sv x w" and k: "k < 143"
  note p = bmap_preD [OF pre]
  have "fblk (dk w) (sv_i x) k < d_blocks (w_dev w)" if "fblk (dk w) (sv_i x) k \<noteq> 0"
    using fblk_owned [OF k that] p(1,3) by (auto simp: inode_ok_def blk_ok_def)
  then show ?thesis using p(1) by (auto simp: fdata_def zblock_def dk_def blk_ok_def io_ok_def intro: length_dsk)
qed

lemma mod_add_lt: "p mod 512 + i < 512 \<Longrightarrow> (p + i) div 512 = p div 512 \<and> (p + i) mod 512 = p mod 512 + i" for p i :: nat
proof -
  assume i: "p mod 512 + i < 512"
  have e: "p + i = p div 512 * 512 + (p mod 512 + i)" using div_mult_mod_eq [of p 512] by linarith
  have "(q * 512 + r) div 512 = q \<and> (q * 512 + r) mod 512 = r" if "r < 512" for q r :: nat using that by simp
  from this [OF i, of "p div 512"] show ?thesis unfolding e [symmetric] .
qed

lemma fbytes_block:
  assumes "p mod 512 + n \<le> 512" "length (fdata D di (p div 512)) = 512"
  shows "fbytes D di p n = take n (drop (p mod 512) (fdata D di (p div 512)))"
proof (rule nth_equalityI)
  fix i assume "i < length (fbytes D di p n)"
  then have i: "i < n" by simp
  then have "p mod 512 + i < 512" using assms(1) by simp
  then show "fbytes D di p n ! i = take n (drop (p mod 512) (fdata D di (p div 512))) ! i"
    using i assms mod_add_lt [of p i] by (simp add: fbytes_def fbyte_def)
qed (use assms in simp)

text \<open>Nothing has changed but the state of the device.\<close>

definition read_step :: "world \<Rightarrow> world \<Rightarrow> bool" where
  "read_step w w' \<longleftrightarrow> same_fs w w' \<and> blk_ok w' \<and> w_vn w' = w_vn w \<and> dk w' = dk w \<and> in_use w' = in_use w"

lemma read_step_refl: "blk_ok w \<Longrightarrow> read_step w w"
  by (simp add: read_step_def)

lemma read_step_trans: "read_step w w1 \<Longrightarrow> read_step w1 w2 \<Longrightarrow> read_step w w2"
  using same_fs_trans [of w w1 w2] by (simp add: read_step_def)

lemma read_step_disk: "blk_ok w \<Longrightarrow> disk_step w (dk w) w' \<Longrightarrow> read_step w w'"
  using alloc_step_facts [OF disk_step_alloc_step, of w "dk w" w'] by (simp add: read_step_def)

lemma read_step_pre: "read_step w w' \<Longrightarrow> bmap_pre sv x w \<Longrightarrow> bmap_pre sv x w'"
  using same_fs_nblocks [of w w'] by (simp add: read_step_def bmap_pre_def)

lemma sfs_bmap_read:
  assumes pre: "bmap_pre sv x w" and k: "unat fb < 143"
  shows "\<exists>w'. sfs_bmap sv fb False w = Some (Inr (fblk (dk w) (sv_i x) (unat fb)), w') \<and> read_step w w'"
proof -
  obtain r x' w' where b: "sfs_bmap sv fb False w = Some (r, w')" "bmap_step sv x w x' w'" "bmap_post False (unat fb) x w r x' w'"
    using sfs_bmap_spec [OF pre, of fb False] k by (auto simp: returns_def)
  then have r: "r = Inr (fblk (dk w) (sv_i x) (unat fb))" "x' = x" "in_use w' = in_use w" "dk w' = dk w"
    by (auto simp: bmap_post_def split: sum.splits)
  have "w_vn w' = w_vn w" using bmap_stepD(3) [OF b(2)] r(2) bmap_preD(2) [OF pre] by (simp add: fun_upd_idem)
  then have "read_step w w'" using bmap_stepD(1,2) [OF b(2)] r(3,4) by (simp add: read_step_def)
  then show ?thesis using b(1) r(1) by blast
qed

definition read_post :: "(u32 \<Rightarrow> bool) \<Rightarrow> nat option \<Rightarrow> sfs_vnode \<Rightarrow> world \<Rightarrow> uio \<Rightarrow> mem \<Rightarrow> nat \<Rightarrow> ((errno + unit) \<times> uio \<times> mem \<times> world) kp \<Rightarrow> bool" where
  "read_post fault curas x w u mem n res \<longleftrightarrow> (\<exists>u' w'. res = Some (Inr (), u', uio_fill u (fbytes (dk w) (sv_i x) (nat (uio_offset u)) n) mem, w') \<and>
     uio_adv fault curas u n u' \<and> read_step w w')"

subsection \<open>Reading\<close>

lemma tdiv_nat: "tdiv (int p) 512 = int (p div 512)" "tmod (int p) 512 = int (p mod 512)"
  by (simp_all add: tdiv_def tmod_def zdiv_int zmod_int minus_div_mult_eq_mod)

lemma fileblock_nat: "p div 512 < 143 \<Longrightarrow> unat (of_int (tdiv (int p) 512) :: u32) = p div 512"
  by (simp add: tdiv_nat unat_of_nat_id)

lemma word_add_le: "unat a + unat b \<le> 512 \<Longrightarrow> a + b \<le> 512" for a b :: u32
proof -
  assume "unat a + unat b \<le> 512"
  moreover have "unat (a + b) \<le> unat a + unat b" by (simp add: unat_plus_if')
  ultimately show ?thesis by (simp add: word_le_nat_alt)
qed

lemma sfs_partialio_read:
  assumes pre: "bmap_pre sv x w" and p: "uio_offset u = int p" "p div 512 < 143" and u: "uio_rw u = UIO_READ" "uio_rdy fault curas u"
    and len: "unat skip = p mod 512" "unat skip + unat len \<le> 512" "len \<le> uio_resid u"
  shows "read_post fault curas x w u mem (unat len) (sfs_partialio fault curas sv skip len u mem w)"
proof -
  let ?k = "p div 512" and ?fb = "of_int (tdiv (int p) 512) :: u32"
  let ?b = "fblk (dk w) (sv_i x) ?k" and ?f = "fdata (dk w) (sv_i x) ?k"
  note q = bmap_preD [OF pre]
  have k: "unat ?fb = ?k" by (rule fileblock_nat [OF p(2)])
  obtain w1 where w1: "sfs_bmap sv ?fb False w = Some (Inr ?b, w1)" "read_step w w1"
    using sfs_bmap_read [OF pre, of ?fb] k p(2) by auto
  note pre1 = read_step_pre [OF w1(2) pre]
  obtain w2 where w2: "(if ?b = 0 then do { kassert (uio_rw u = UIO_READ); Some (Inr (replicate 512 0), w1) }
      else sfs_readblock ?b w1) = Some (Inr ?f, w2)" "read_step w w2"
  proof (cases "?b = 0")
    case True
    then show thesis using that [of w1] u(1) w1(2) by (simp add: fdata_def zblock_def)
  next
    case False
    have "?b < d_blocks (w_dev w1)" "io_ok w1" "blk_ok w1" "dk w1 = dk w"
      using fblk_owned [OF p(2), of "dk w" "sv_i x"] False q(1,3) bmap_preD(1) [OF pre1] w1(2)
      by (auto simp: inode_ok_def blk_ok_def read_step_def same_fs_def)
    then obtain w2 where "sfs_readblock ?b w1 = Some (Inr (dk w ?b), w2)" "disk_step w1 (dk w1) w2"
      using sfs_readblock_spec [of w1 ?b] by (auto simp: returns_def)
    then show thesis using that [of w2] False read_step_trans [OF w1(2) read_step_disk] \<open>blk_ok w1\<close> by (simp add: fdata_def)
  qed
  have l: "length ?f = 512" by (rule length_fdata [OF pre p(2)])
  then have "unat len \<le> length (drop (unat skip) ?f)" using len(2) by simp
  then obtain u' where u': "uiomove fault curas (drop (unat skip) ?f) len u mem =
      Some (Inr (), drop (unat skip) ?f, u', uio_fill u (take (unat len) (drop (unat skip) ?f)) mem)" "uio_adv fault curas u (unat len) u'"
    using uiomove_adv [OF u(2) len(3), of "drop (unat skip) ?f" mem] u(1) by auto
  have f: "fbytes (dk w) (sv_i x) p (unat len) = take (unat len) (drop (unat skip) ?f)"
    using fbytes_block [of p "unat len"] len(1,2) l by simp
  have h: "vfs_biglock_do_i_hold (w_bl w)" "uio_rw u' = UIO_READ"
    using q(1) u'(2) u(1) by (simp_all add: blk_ok_def io_ok_def uio_adv_def)
  have "sfs_partialio fault curas sv skip len u mem w =
      Some (Inr (), u', uio_fill u (take (unat len) (drop (unat skip) ?f)) mem, w2)"
    unfolding sfs_partialio_def p(1) u(1) Let_def
    using word_add_le [OF len(2)] h w1(1) w2(1) u'(1) u(1)
    by (cases "?b = 0") (simp_all add: SFS_BLOCKSIZE_def fdata_def zblock_def)
  then show ?thesis using u'(2) w2(2) f p(1) by (auto simp: read_post_def)
qed

text \<open>The 32-bit product \<^verbatim>\<open>diskblock * SFS_BLOCKSIZE\<close> is right below block \<open>2\<^sup>2\<^sup>3\<close>.\<close>

lemma diskoff_eq: "b < 2 ^ 23 \<Longrightarrow> uint (b * SFS_BLOCKSIZE) = 512 * uint b" for b :: u32
proof -
  assume "b < 2 ^ 23"
  then have "unat b * 512 < 2 ^ 32" by (simp add: word_less_nat_alt)
  then have "unat (b * 512) = unat b * 512" by (simp add: unat_mult_lem [THEN iffD1])
  then have "int (unat (b * 512)) = int (unat b * 512)" by (simp only:)
  then show ?thesis by (simp add: SFS_BLOCKSIZE_def)
qed

text \<open>The detour of \<^verbatim>\<open>sfs_blockio\<close>: the request is turned into one for the disk block and back.\<close>

lemma uio_block_view:
  assumes "uio_rdy fault curas u" "512 \<le> unat (uio_resid u)"
  shows "uio_block fault curas (u\<lparr>uio_offset := off, uio_resid := 512\<rparr>)" "uio_addrs (u\<lparr>uio_offset := off, uio_resid := 512\<rparr>) = uio_addrs u"
  using assms by (auto simp: uio_block_def uio_rdy_def uio_addrs_def uio_ok_def)

lemma uio_block_back:
  assumes "uio_rdy fault curas u" "512 \<le> unat (uio_resid u)" "uio_done fault (u\<lparr>uio_offset := off, uio_resid := 512\<rparr>) u1"
  shows "uio_adv fault curas u 512 (u1\<lparr>uio_offset := (uio_offset u1 - off) + uio_offset u, uio_resid := (uio_resid u1 - 512) + uio_resid u\<rparr>)"
proof -
  have "(512 :: u32) \<le> uio_resid u" using assms(2) by (simp add: word_le_nat_alt)
  then have "unat (uio_resid u - 512) = unat (uio_resid u) - 512" by (simp add: unat_sub)
  moreover have "uio_addrs (u\<lparr>uio_offset := off, uio_resid := 512\<rparr>) = uio_addrs u"
    "uio_addrs (u1\<lparr>uio_offset := a, uio_resid := b\<rparr>) = uio_addrs u1" for a b by (simp_all add: uio_addrs_def)
  ultimately show ?thesis using assms by (auto simp: uio_adv_def uio_done_def uio_rdy_def uio_ok_def)
qed

lemma sfs_blockio_read:
  assumes pre: "bmap_pre sv x w" and nb: "nblocks w \<le> 2 ^ 23" and p: "uio_offset u = int p" "p div 512 < 143" "p mod 512 = 0"
    and u: "uio_rw u = UIO_READ" "uio_rdy fault curas u" "512 \<le> unat (uio_resid u)"
  shows "read_post fault curas x w u mem 512 (sfs_blockio fault curas sv u mem w)"
proof -
  let ?k = "p div 512" and ?fb = "of_int (tdiv (int p) 512) :: u32"
  let ?b = "fblk (dk w) (sv_i x) ?k" and ?f = "fdata (dk w) (sv_i x) ?k"
  note q = bmap_preD [OF pre]
  have k: "unat ?fb = ?k" by (rule fileblock_nat [OF p(2)])
  obtain w1 where w1: "sfs_bmap sv ?fb False w = Some (Inr ?b, w1)" "read_step w w1"
    using sfs_bmap_read [OF pre, of ?fb] k p(2) by auto
  note pre1 = read_step_pre [OF w1(2) pre]
  have l: "length ?f = 512" by (rule length_fdata [OF pre p(2)])
  then have f: "fbytes (dk w) (sv_i x) p 512 = ?f" using fbytes_block [of p 512 "dk w" "sv_i x"] p(3) by simp
  have r: "512 \<le> uio_resid u" using u(3) by (simp add: word_le_nat_alt)
  show ?thesis
  proof (cases "?b = 0")
    case True
    have "512 \<le> uio_resid u" using u(3) by (simp add: word_le_nat_alt)
    then obtain u' where u': "uiomovezeros_loop fault curas 512 u mem = Some (Inr (), u', uio_fill u (replicate 512 0) mem)"
        "uio_adv fault curas u 512 u'"
      using uiomovezeros_loop_adv [OF u(2,1), of 512 mem] by auto
    have "sfs_blockio fault curas sv u mem w = Some (Inr (), u', uio_fill u (replicate 512 0) mem, w1)"
      unfolding sfs_blockio_def p(1) u(1) Let_def
      using w1(1) True u(1) u'(1) by (simp add: SFS_BLOCKSIZE_def uiomovezeros_def)
    then show ?thesis using u'(2) w1(2) f True p(1) by (auto simp: read_post_def fdata_def zblock_def)
  next
    case False
    have b: "?b < d_blocks (w_dev w1)" "io_ok w1" "blk_ok w1" "dk w1 = dk w" "?b < 2 ^ 23"
      using fblk_owned [OF p(2), of "dk w" "sv_i x"] False q(1,3) bmap_preD(1) [OF pre1] w1(2) nb
      by (auto simp: inode_ok_def blk_ok_def read_step_def same_fs_def)
    note off = diskoff_eq [OF b(5)]
    let ?v = "u\<lparr>uio_offset := uint (?b * SFS_BLOCKSIZE), uio_resid := 512\<rparr>"
    note v = uio_block_view [OF u(2,3), of "uint (?b * SFS_BLOCKSIZE)"]
    obtain u1 w2 where w2: "sfs_rwblock fault curas ?v mem w1 = Some (Inr (), u1, mem_put mem (take 512 (uio_addrs u)) (dk w ?b), w2)"
      "uio_done fault ?v u1" "disk_step w1 (dk w1) w2"
      using sfs_rwblock_read [OF b(2) _ b(1) v(1), of mem] v(2) u(1) off b(4) by auto
    have "sfs_blockio fault curas sv u mem w = Some (Inr (), u1\<lparr>uio_offset := (uio_offset u1 - uint (?b * SFS_BLOCKSIZE)) + uio_offset u,
        uio_resid := (uio_resid u1 - 512) + uio_resid u\<rparr>, mem_put mem (take 512 (uio_addrs u)) (dk w ?b), w2)"
      unfolding sfs_blockio_def p(1) u(1) Let_def
      using w1(1) False u(1) w2(1) r p(1) by (simp add: SFS_BLOCKSIZE_def)
    moreover have "read_step w w2" by (rule read_step_trans [OF w1(2) read_step_disk [OF b(3) w2(3)]])
    moreover have "mem_put mem (take 512 (uio_addrs u)) (dk w ?b) = uio_fill u ?f mem"
      using l False by (simp add: uio_fill_def fdata_def)
    ultimately show ?thesis
      using uio_block_back [OF u(2,3) w2(2)] f p(1) by (auto simp: read_post_def)
  qed
qed

text \<open>Reads one after the other.\<close>

lemma read_postE:
  assumes "read_post fault curas x w u mem n res"
  obtains u' w' where "res = Some (Inr (), u', uio_fill u (fbytes (dk w) (sv_i x) (nat (uio_offset u)) n) mem, w')"
    "uio_adv fault curas u n u'" "read_step w w'"
  using assms by (auto simp: read_post_def)

lemma read_post_then:
  assumes "uio_rdy fault curas u" "uio_offset u = int p" "uio_adv fault curas u m u1" "read_step w w1"
    and "read_post fault curas x w1 u1 (uio_fill u (fbytes (dk w) (sv_i x) (nat (uio_offset u)) m) mem) n res"
  shows "read_post fault curas x w u mem (m + n) res"
proof -
  have u1: "nat (uio_offset u1) = p + m" "dk w1 = dk w" using assms(2-4) by (simp_all add: uio_adv_def read_step_def flip: of_nat_add)
  obtain u' w' where r: "res = Some (Inr (), u', uio_fill u1 (fbytes (dk w) (sv_i x) (p + m) n) (uio_fill u (fbytes (dk w) (sv_i x) p m) mem), w')"
    "uio_adv fault curas u1 n u'" "read_step w1 w'" using assms(2,5) u1 by (auto simp: read_post_def)
  have "uio_fill u1 (fbytes (dk w) (sv_i x) (p + m) n) (uio_fill u (fbytes (dk w) (sv_i x) p m) mem) =
      uio_fill u (fbytes (dk w) (sv_i x) p (m + n)) mem"
    using assms(1,3) r(2) unfolding fbytes_add by (intro uio_fill_append [where fault = fault and curas = curas]) (auto simp: uio_adv_def)
  then show ?thesis
    using r uio_adv_trans [OF assms(3) r(2)] read_step_trans [OF assms(4) r(3)] assms(2) by (auto simp: read_post_def)
qed

lemma read_post_0: "uio_rdy fault curas u \<Longrightarrow> blk_ok w \<Longrightarrow> read_post fault curas x w u mem 0 (Some (Inr (), u, mem, w))"
  by (simp add: read_post_def uio_adv_0 read_step_refl uio_fill_def mem_put_def)

lemma uio_adv_facts:
  assumes "uio_adv fault curas u n u'"
  shows "uio_rdy fault curas u'" "uio_rw u' = uio_rw u" "uio_offset u' = uio_offset u + int n"
    "unat (uio_resid u') = unat (uio_resid u) - n" "n \<le> unat (uio_resid u)"
  using assms by (simp_all add: uio_adv_def)

lemma sfs_io_blocks_read:
  assumes "bmap_pre sv x w" "nblocks w \<le> 2 ^ 23" "uio_offset u = int p" "p mod 512 = 0" "p div 512 + n \<le> 143"
    and "uio_rw u = UIO_READ" "uio_rdy fault curas u" "512 * n \<le> unat (uio_resid u)"
  shows "read_post fault curas x w u mem (512 * n) (sfs_io_blocks fault curas sv n u mem w)"
  using assms
proof (induction n arbitrary: u p mem w)
  case 0
  then show ?case using read_post_0 bmap_preD(1) by simp
next
  case (Suc n)
  obtain u1 w1 where 1: "sfs_blockio fault curas sv u mem w = Some (Inr (), u1, uio_fill u (fbytes (dk w) (sv_i x) (nat (uio_offset u)) 512) mem, w1)"
    "uio_adv fault curas u 512 u1" "read_step w w1"
    by (rule read_postE [OF sfs_blockio_read [OF Suc.prems(1-3) _ Suc.prems(4,6,7)]]) (use Suc.prems(5,8) in simp_all)
  note a = uio_adv_facts [OF 1(2)]
  have n1: "nblocks w1 = nblocks w" using 1(3) same_fs_nblocks by (simp add: read_step_def)
  have "read_post fault curas x w1 u1 (uio_fill u (fbytes (dk w) (sv_i x) (nat (uio_offset u)) 512) mem) (512 * n)
      (sfs_io_blocks fault curas sv n u1 (uio_fill u (fbytes (dk w) (sv_i x) (nat (uio_offset u)) 512) mem) w1)"
    by (rule Suc.IH [OF read_step_pre [OF 1(3) Suc.prems(1)], of _ "p + 512"])
      (use Suc.prems n1 a in \<open>simp_all add: div_add_self2\<close>)
  from read_post_then [OF Suc.prems(7,3) 1(2,3) this] show ?case using 1(1) by simp
qed

lemma blocks_within:
  "p = 512 * k \<Longrightarrow> R = 512 * n + r \<Longrightarrow> p + R \<le> 73216 \<Longrightarrow> k + n \<le> 143 \<and> 512 * n \<le> R \<and> (k + n < 143 \<or> r = 0)" for p k R n r :: nat
  by auto

lemma sfs_io_aligned_read:
  assumes "bmap_pre sv x w" "nblocks w \<le> 2 ^ 23" "uio_offset u = int p" "unat (uio_resid u) \<noteq> 0 \<Longrightarrow> p mod 512 = 0" "p + unat (uio_resid u) \<le> 73216"
    and "uio_rw u = UIO_READ" "uio_rdy fault curas u"
  shows "read_post fault curas x w u mem (unat (uio_resid u)) (sfs_io_aligned fault curas sv u mem w)"
proof (cases "uio_resid u = 0")
  case True
  then show ?thesis using read_post_0 [OF assms(7)] bmap_preD(1) [OF assms(1)] by (simp add: sfs_io_aligned_def)
next
  case False
  let ?R = "unat (uio_resid u)" and ?n = "unat (uio_resid u) div 512"
  have p: "p mod 512 = 0" using False assms(4) by (simp add: unat_eq_zero)
  have n: "unat (uio_resid u div SFS_BLOCKSIZE) = ?n" by (simp add: SFS_BLOCKSIZE_def unat_div)
  have pk: "p = 512 * (p div 512)" using p mult_div_mod_eq [of 512 p] by simp
  have "?R = 512 * ?n + ?R mod 512" by simp
  from blocks_within [OF pk this assms(5)]
  have k: "p div 512 + ?n \<le> 143" "512 * ?n \<le> ?R" "p div 512 + ?n < 143 \<or> ?R mod 512 = 0" by (simp_all only: simp_thms)
  obtain u1 w1 where 1: "sfs_io_blocks fault curas sv ?n u mem w =
      Some (Inr (), u1, uio_fill u (fbytes (dk w) (sv_i x) (nat (uio_offset u)) (512 * ?n)) mem, w1)"
    "uio_adv fault curas u (512 * ?n) u1" "read_step w w1"
    by (rule read_postE [OF sfs_io_blocks_read [OF assms(1-3) p k(1) assms(6,7) k(2)]])
  note a = uio_adv_facts [OF 1(2)]
  have pre1: "bmap_pre sv x w1" by (rule read_step_pre [OF 1(3) assms(1)])
  have r: "unat (uio_resid u1) = ?R mod 512" using a(4) by (simp add: minus_mult_div_eq_mod)
  have o: "uio_offset u1 = int (p + 512 * ?n)" using a(3) assms(3) by simp
  let ?mem = "uio_fill u (fbytes (dk w) (sv_i x) (nat (uio_offset u)) (512 * ?n)) mem"
  have "read_post fault curas x w1 u1 ?mem (?R mod 512)
     (if uio_resid u1 > 0 then sfs_partialio fault curas sv 0 (uio_resid u1) u1 ?mem w1 else Some (Inr (), u1, ?mem, w1))"
  proof (cases "uio_resid u1 > 0")
    case True
    then have "?R mod 512 \<noteq> 0" using r by (simp add: word_gt_0 flip: unat_eq_zero)
    then have "(p + 512 * ?n) div 512 < 143" using k(3) by simp
    then show ?thesis
      using True sfs_partialio_read [OF pre1 o _ _ a(1), of 0 "uio_resid u1" ?mem] a(2) assms(6) r p by simp
  next
    case False
    then have "?R mod 512 = 0" using r by (simp add: word_gt_0)
    then show ?thesis using False read_post_0 [OF a(1)] bmap_preD(1) [OF pre1] by simp
  qed
  from read_post_then [OF assms(7,3) 1(2,3) this]
  have "read_post fault curas x w u mem ?R
     (if uio_resid u1 > 0 then sfs_partialio fault curas sv 0 (uio_resid u1) u1 ?mem w1 else Some (Inr (), u1, ?mem, w1))" by simp
  moreover have "sfs_io_aligned fault curas sv u mem w =
     (if uio_resid u1 > 0 then sfs_partialio fault curas sv 0 (uio_resid u1) u1 ?mem w1 else Some (Inr (), u1, ?mem, w1))"
  proof -
    have "uio_resid u1 < SFS_BLOCKSIZE" using r by (simp add: word_less_nat_alt SFS_BLOCKSIZE_def)
    moreover have "tmod (uio_offset u) 512 = 0" using p by (simp add: assms(3) tdiv_nat)
    ultimately show ?thesis using False 1(1) n by (simp add: sfs_io_aligned_def Let_def)
  qed
  ultimately show ?thesis by simp
qed

text \<open>The length of the leading partial block.\<close>

definition lead_len :: "nat \<Rightarrow> u32 \<Rightarrow> u32" where
  "lead_len p R = (let len = SFS_BLOCKSIZE - of_nat (p mod 512) in if len > R then R else len)"

lemma unat_skip: "unat (of_nat (p mod 512) :: u32) = p mod 512"
  by (intro unat_of_nat_id) (simp add: less_trans [OF mod_less_divisor])

lemma lead_len_facts:
  assumes "p mod 512 \<noteq> 0"
  shows "p mod 512 + unat (lead_len p R) \<le> 512" "lead_len p R \<le> R"
    "unat R - unat (lead_len p R) \<noteq> 0 \<Longrightarrow> (p + unat (lead_len p R)) mod 512 = 0"
    "unat R \<noteq> 0 \<Longrightarrow> unat (lead_len p R) \<noteq> 0"
proof -
  have m: "p mod 512 < 512" by simp
  note unat_skip
  moreover then have u: "unat (512 - of_nat (p mod 512) :: u32) = 512 - p mod 512"
    using m unat_sub [of "of_nat (p mod 512) :: u32" 512] by (simp add: word_le_nat_alt)
  ultimately show "p mod 512 + unat (lead_len p R) \<le> 512" "lead_len p R \<le> R" "unat R \<noteq> 0 \<Longrightarrow> unat (lead_len p R) \<noteq> 0"
    using m by (auto simp: lead_len_def Let_def SFS_BLOCKSIZE_def word_less_nat_alt word_le_nat_alt)
  assume "unat R - unat (lead_len p R) \<noteq> 0"
  then have "unat (lead_len p R) = 512 - p mod 512"
    using u by (auto simp: lead_len_def Let_def SFS_BLOCKSIZE_def split: if_splits)
  moreover have "p + (512 - r) = 512 * (q + 1)" if "q * 512 + r = p" "r < 512" for q r :: nat using that by auto
  from this [OF div_mult_mod_eq m] have "p + (512 - p mod 512) = 512 * (p div 512 + 1)" .
  ultimately show "(p + unat (lead_len p R)) mod 512 = 0" by simp
qed

lemma sfs_io_transfer_unfold:
  assumes "uio_offset u = int p"
  shows "sfs_io_transfer fault curas sv u mem w = do {
     (result, u1, mem1, w1) \<leftarrow>
       (if p mod 512 \<noteq> 0 then sfs_partialio fault curas sv (of_nat (p mod 512)) (lead_len p (uio_resid u)) u mem w
        else Some (Inr (), u, mem, w));
     (case result of
        Inl e \<Rightarrow> Some (Inl e, u1, mem1, w1)
      | Inr _ \<Rightarrow> sfs_io_aligned fault curas sv u1 mem1 w1)
   }"
proof -
  have "(of_nat (p mod 512) :: u32) = 0 \<longleftrightarrow> p mod 512 = 0" using unat_skip [of p] by (simp flip: unat_eq_zero)
  then show ?thesis by (simp add: sfs_io_transfer_def assms tdiv_nat lead_len_def Let_def)
qed

lemma sfs_io_transfer_read:
  assumes "bmap_pre sv x w" "nblocks w \<le> 2 ^ 23" "uio_offset u = int p" "p + unat (uio_resid u) \<le> 73216" "p < 73216"
    and "uio_rw u = UIO_READ" "uio_rdy fault curas u"
  shows "read_post fault curas x w u mem (unat (uio_resid u)) (sfs_io_transfer fault curas sv u mem w)"
proof (cases "p mod 512 = 0")
  case True
  then show ?thesis
    using sfs_io_aligned_read [OF assms(1-3) _ assms(4,6,7)] by (simp add: sfs_io_transfer_unfold [OF assms(3)])
next
  case False
  let ?R = "unat (uio_resid u)" and ?L = "lead_len p (uio_resid u)"
  note l = lead_len_facts [OF False, of "uio_resid u"]
  have "p div 512 < 143" using assms(5) by (simp add: div_less_iff_less_mult)
  then obtain u1 w1 where 1: "sfs_partialio fault curas sv (of_nat (p mod 512)) ?L u mem w =
      Some (Inr (), u1, uio_fill u (fbytes (dk w) (sv_i x) (nat (uio_offset u)) (unat ?L)) mem, w1)"
    "uio_adv fault curas u (unat ?L) u1" "read_step w w1"
    using read_postE [OF sfs_partialio_read [OF assms(1,3) _ assms(6,7) unat_skip _ l(2)]] l(1) unat_skip by metis
  note a = uio_adv_facts [OF 1(2)]
  let ?mem = "uio_fill u (fbytes (dk w) (sv_i x) (nat (uio_offset u)) (unat ?L)) mem"
  have n1: "nblocks w1 \<le> 2 ^ 23" using 1(3) same_fs_nblocks [of w w1] assms(2) by (simp add: read_step_def)
  have "read_post fault curas x w1 u1 ?mem (unat (uio_resid u1)) (sfs_io_aligned fault curas sv u1 ?mem w1)"
    by (rule sfs_io_aligned_read [OF read_step_pre [OF 1(3) assms(1)] n1, of _ "p + unat ?L"])
      (use a assms(3,4,6) l(3) in simp_all)
  from read_post_then [OF assms(7,3) 1(2,3) this] show ?thesis
    using 1(1) False a(4,5) by (simp add: sfs_io_transfer_unfold [OF assms(3)])
qed

lemma unat_u32_less: "unat a < 2 ^ 32" for a :: u32
proof -
  have "unat a < 2 ^ LENGTH(32)" by (rule unsigned_less)
  then show ?thesis by simp
qed

lemma uint_compare:
  "uint a \<le> int p \<longleftrightarrow> unat a \<le> p" "uint a < int p + uint b \<longleftrightarrow> unat a < p + unat b" for a b :: u32
  using of_nat_le_iff [of "unat a" p, where 'a = int] of_nat_less_iff [of "unat a" "p + unat b", where 'a = int] by simp_all

lemma uio_resid_views [simp]:
  "uio_addrs (u\<lparr>uio_resid := r\<rparr>) = uio_addrs u" "uio_fill (u\<lparr>uio_resid := r\<rparr>) = uio_fill u" "uio_data (u\<lparr>uio_resid := r\<rparr>) = uio_data u"
  "uio_ok fault (u\<lparr>uio_resid := r\<rparr>) = uio_ok fault u"
  by (simp_all add: uio_addrs_def uio_fill_def uio_data_def uio_ok_def fun_eq_iff)

text \<open>A request cut short by \<open>extra\<close> bytes, which are put back afterwards.\<close>

lemma uio_cut:
  assumes "uio_rdy fault curas u" "extra \<le> uio_resid u"
  shows "uio_rdy fault curas (u\<lparr>uio_resid := uio_resid u - extra\<rparr>)"
    "uio_adv fault curas (u\<lparr>uio_resid := uio_resid u - extra\<rparr>) n u1 \<Longrightarrow>
      uio_adv fault curas u n (u1\<lparr>uio_resid := uio_resid u1 + extra\<rparr>)"
proof -
  have e: "unat (uio_resid u - extra) = unat (uio_resid u) - unat extra" "unat extra \<le> unat (uio_resid u)"
    using assms(2) by (simp_all add: unat_sub word_le_nat_alt)
  show "uio_rdy fault curas (u\<lparr>uio_resid := uio_resid u - extra\<rparr>)" using assms(1) e by (auto simp: uio_rdy_def)
  assume a: "uio_adv fault curas (u\<lparr>uio_resid := uio_resid u - extra\<rparr>) n u1"
  have r: "unat (uio_resid u1) = unat (uio_resid u) - unat extra - n" "n \<le> unat (uio_resid u) - unat extra"
    using a e by (simp_all add: uio_adv_def)
  then have "unat (uio_resid u1) + unat extra < 2 ^ 32" using e(2) unat_u32_less [of "uio_resid u"] by simp
  then have "unat (uio_resid u1 + extra) = unat (uio_resid u) - n" using r e(2) by (simp add: unat_add_lem [THEN iffD1])
  then show "uio_adv fault curas u n (u1\<lparr>uio_resid := uio_resid u1 + extra\<rparr>)"
    using a assms(1) r by (auto simp: uio_adv_def uio_rdy_def)
qed

text \<open>\<^verbatim>\<open>sfs_io\<close> once the length beyond the end of the file has been worked out.\<close>

definition io_extra :: "sfs_vnode \<Rightarrow> uio \<Rightarrow> u32" where
  "io_extra x u = (if uio_rw u = UIO_READ \<and> uio_offset u + uint (uio_resid u) > uint (sfi_size (sv_i x))
     then of_int (uio_offset u + uint (uio_resid u) - uint (sfi_size (sv_i x))) else 0)"

lemma sfs_io_unfold:
  assumes "w_vn w sv = Some x" "\<not> (uio_rw u = UIO_READ \<and> uio_offset u \<ge> uint (sfi_size (sv_i x)))"
    and "uio_rw u = UIO_READ \<Longrightarrow> uio_offset u + uint (uio_resid u) > uint (sfi_size (sv_i x)) \<Longrightarrow> io_extra x u < uio_resid u"
  shows "sfs_io fault curas sv u mem w = do {
       (result, u1, mem1, w1) \<leftarrow> sfs_io_transfer fault curas sv (u\<lparr>uio_resid := uio_resid u - io_extra x u\<rparr>) mem w;
       x1 \<leftarrow> w_vn w1 sv;
       w2 \<leftarrow> (if uio_resid u1 \<noteq> uio_resid u \<and> uio_rw u1 = UIO_WRITE \<and> uio_offset u1 > uint (sfi_size (sv_i x1))
             then put_inode sv (\<lambda>i. i\<lparr>sfi_size := of_int (uio_offset u1)\<rparr>) w1
             else Some w1);
       Some (result, u1\<lparr>uio_resid := uio_resid u1 + io_extra x u\<rparr>, mem1, w2)
     }"
proof -
  have "(if uio_rw u = UIO_READ \<and> uio_offset u + uint (uio_resid u) > uint (sfi_size (sv_i x)) then kassert (uio_resid u > io_extra x u) else Some ()) = Some ()"
    using assms(3) by auto
  then show ?thesis
    unfolding sfs_io_def Let_def assms(1) Option.bind_lunit io_extra_def [symmetric] if_not_P [OF assms(2)] by (simp only: Option.bind_lunit)
qed

lemma sfs_io_read_spec:
  assumes pre: "bmap_pre sv x w" and nb: "nblocks w \<le> 2 ^ 23" and p: "uio_offset u = int p"
    and u: "uio_rw u = UIO_READ" "uio_rdy fault curas u" and S: "unat (sfi_size (sv_i x)) \<le> 73216"
  shows "read_post fault curas x w u mem (min (unat (uio_resid u)) (unat (sfi_size (sv_i x)) - p)) (sfs_io fault curas sv u mem w)"
proof (cases "unat (sfi_size (sv_i x)) \<le> p")
  case True
  then have "sfs_io fault curas sv u mem w = Some (Inr (), u, mem, w)"
    using bmap_preD(2) [OF pre] u(1) p by (simp add: sfs_io_def Let_def uint_compare)
  then show ?thesis using True read_post_0 [OF u(2)] bmap_preD(1) [OF pre] by simp
next
  case False
  let ?R = "unat (uio_resid u)" and ?S = "unat (sfi_size (sv_i x))"
  define extra where "extra = io_extra x u"
  have c: "int p + uint (uio_resid u) > uint (sfi_size (sv_i x)) \<longleftrightarrow> ?S < p + ?R" by (simp add: uint_compare)
  have e: "unat extra = p + ?R - ?S"
  proof (cases "?S < p + ?R")
    case True
    then have "int p + uint (uio_resid u) - uint (sfi_size (sv_i x)) = int (p + ?R - ?S)" by (simp add: of_nat_diff)
    then have "extra = of_nat (p + ?R - ?S)" using True u(1) unfolding extra_def io_extra_def p c by (simp only: if_True of_int_of_nat_eq simp_thms)
    moreover have "p + ?R - ?S < 2 ^ 32" using False unat_u32_less [of "uio_resid u"] by simp
    moreover have "unat (of_nat k :: u32) = k" if "k < 2 ^ 32" for k using that by (simp add: unat_of_nat_id)
    ultimately show ?thesis by (simp only:)
  qed (use c p in \<open>simp add: extra_def io_extra_def\<close>)
  have k: "extra < uio_resid u" if "?S < p + ?R" using e False that by (simp add: word_less_nat_alt)
  have le: "extra \<le> uio_resid u" using e False by (simp add: word_le_nat_alt)
  let ?u = "u\<lparr>uio_resid := uio_resid u - extra\<rparr>" and ?n = "min ?R (?S - p)"
  have n: "unat (uio_resid ?u) = ?n" using e le False by (simp add: unat_sub min_def)
  note cut = uio_cut [OF u(2) le]
  have "read_post fault curas x w ?u mem (unat (uio_resid ?u)) (sfs_io_transfer fault curas sv ?u mem w)"
    by (rule sfs_io_transfer_read [OF pre nb, of _ p]) (use n p u(1) cut(1) S False in auto)
  then obtain u1 w1 where 1: "sfs_io_transfer fault curas sv ?u mem w = Some (Inr (), u1, uio_fill u (fbytes (dk w) (sv_i x) p ?n) mem, w1)"
    "uio_adv fault curas ?u ?n u1" "read_step w w1"
    using n p by (auto simp: read_post_def)
  have s: "\<not> uint (sfi_size (sv_i x)) \<le> int p" using False by (simp add: uint_compare)
  have "sfs_io fault curas sv u mem w =
      Some (Inr (), u1\<lparr>uio_resid := uio_resid u1 + extra\<rparr>, uio_fill u (fbytes (dk w) (sv_i x) p ?n) mem, w1)"
    using bmap_preD(2) [OF pre] 1 u(1) p s uio_adv_facts(2) [OF 1(2)] k c
    by (subst sfs_io_unfold [where x = x]) (simp_all add: read_step_def extra_def)
  then show ?thesis using 1(3) cut(2) [OF 1(2)] p by (auto simp: read_post_def)
qed

subsection \<open>Writing\<close>

text \<open>The file at \<open>sv\<close> may have gained blocks and its own blocks may have changed; nothing else has.\<close>

definition file_step :: "nat \<Rightarrow> sfs_vnode \<Rightarrow> world \<Rightarrow> sfs_vnode \<Rightarrow> world \<Rightarrow> bool" where
  "file_step sv x w x' w' \<longleftrightarrow>
     same_fs w w' \<and> blk_ok w' \<and> w_vn w' = (w_vn w)(sv \<mapsto> x') \<and> same_vnode x x' \<and>
     (sv_dirty x' \<or> sv_i x' = sv_i x \<and> sv_dirty x' = sv_dirty x) \<and>
     sfi_type (sv_i x') = sfi_type (sv_i x) \<and> sfi_linkcount (sv_i x') = sfi_linkcount (sv_i x) \<and>
     inode_ok (dk w') (in_use w') (nblocks w') (sv_i x') \<and>
     in_use w \<subseteq> in_use w' \<and> owned (dk w') (sv_i x') = owned (dk w) (sv_i x) \<union> (in_use w' - in_use w) \<and>
     (\<forall>b. b \<in> in_use w \<longrightarrow> b \<notin> owned (dk w) (sv_i x) \<longrightarrow> dk w' b = dk w b)"

lemma file_stepD:
  assumes "file_step sv x w x' w'"
  shows "same_fs w w'" "blk_ok w'" "w_vn w' = (w_vn w)(sv \<mapsto> x')" "same_vnode x x'"
    "sv_dirty x' \<or> sv_i x' = sv_i x \<and> sv_dirty x' = sv_dirty x"
    "sfi_type (sv_i x') = sfi_type (sv_i x)" "sfi_linkcount (sv_i x') = sfi_linkcount (sv_i x)"
    "inode_ok (dk w') (in_use w') (nblocks w') (sv_i x')" "in_use w \<subseteq> in_use w'"
    "owned (dk w') (sv_i x') = owned (dk w) (sv_i x) \<union> (in_use w' - in_use w)"
    "\<And>b. b \<in> in_use w \<Longrightarrow> b \<notin> owned (dk w) (sv_i x) \<Longrightarrow> dk w' b = dk w b"
  using assms by (simp_all only: file_step_def simp_thms)

lemma file_step_refl: "bmap_pre sv x w \<Longrightarrow> file_step sv x w x w"
  by (auto simp: file_step_def bmap_pre_def same_vnode_def)

lemma file_step_trans:
  assumes "file_step sv x w x1 w1" "file_step sv x1 w1 x2 w2"
  shows "file_step sv x w x2 w2"
proof -
  note 1 = file_stepD [OF assms(1)] and 2 = file_stepD [OF assms(2)]
  have "dk w2 b = dk w b" if "b \<in> in_use w" "b \<notin> owned (dk w) (sv_i x)" for b
    using 1(9,10) 1(11) [OF that] 2(11) [of b] that by auto
  moreover have "owned (dk w2) (sv_i x2) = owned (dk w) (sv_i x) \<union> (in_use w2 - in_use w)" using 1(9,10) 2(9,10) by blast
  moreover have "same_vnode x x2" using 1(4) 2(4) by (simp add: same_vnode_def)
  moreover have "sv_dirty x2 \<or> sv_i x2 = sv_i x \<and> sv_dirty x2 = sv_dirty x" using 1(5) 2(5) by auto
  moreover have "w_vn w2 = (w_vn w)(sv \<mapsto> x2)" using 1(3) 2(3) by simp
  moreover have "in_use w \<subseteq> in_use w2" using 1(9) 2(9) by blast
  ultimately show ?thesis
    using same_fs_trans [OF 1(1) 2(1)] 1(6,7) 2(2,6,7,8) unfolding file_step_def by simp
qed

lemma file_step_pre: "file_step sv x w x' w' \<Longrightarrow> bmap_pre sv x w \<Longrightarrow> bmap_pre sv x' w'"
  using file_stepD [of sv x w x' w'] by (auto simp: bmap_pre_def)

lemma file_step_bmap: "bmap_step sv x w x' w' \<Longrightarrow> file_step sv x w x' w'"
proof -
  assume st: "bmap_step sv x w x' w'"
  note b = bmap_stepD [OF st]
  have "dk w' c = dk w c" if "c \<in> in_use w" "c \<notin> owned (dk w) (sv_i x)" for c
    using b(11) [OF that(1)] that(2) indirect_owned [of "sv_i x" "dk w"] by auto
  then show ?thesis using b(1-10) by (simp add: file_step_def same_meta_def)
qed

lemma data_write:
  assumes pre: "bmap_pre sv x w" and k: "k < 143" "fblk (dk w) (sv_i x) k = b" "b \<noteq> 0" and d: "disk_step w ((dk w)(b := bs)) w'"
  shows "file_step sv x w x w'"
    "j < 143 \<Longrightarrow> fdata (dk w') (sv_i x) j = (if j = k then bs else fdata (dk w) (sv_i x) j)"
proof -
  note p = bmap_preD [OF pre]
  note s = alloc_step_facts [OF disk_step_alloc_step [OF d p(1)]]
  have bo: "b \<in> owned (dk w) (sv_i x)" using fblk_owned [OF k(1)] k(2,3) by auto
  have "b \<in> fblk (dk w) (sv_i x) ` {..<143}" using k(1,2) by auto
  then have ib: "b \<noteq> sfi_indirect (sv_i x)" using p(3) k(3) unfolding inode_ok_def by metis
  have f: "fblk (dk w') (sv_i x) j = fblk (dk w) (sv_i x) j" for j using ib s(4) by (intro fblk_cong) simp
  have o: "owned (dk w') (sv_i x) = owned (dk w) (sv_i x)" using ib s(4) by (intro owned_cong) simp
  have "fblk (dk w') (sv_i x) = fblk (dk w) (sv_i x)" using f by (rule ext)
  then have "inode_ok (dk w') (in_use w') (nblocks w') (sv_i x)" using p(3) s(5,6) by (simp add: inode_ok_def o)
  then show "file_step sv x w x w'"
    using s(1-5) p(2) o bo by (auto simp: file_step_def same_vnode_def fun_upd_idem)
  assume j: "j < 143"
  have "j = k" if "fblk (dk w) (sv_i x) j = b"
    using p(3) that j k inj_onD [of "fblk (dk w) (sv_i x)" "{n. n < 143 \<and> fblk (dk w) (sv_i x) n \<noteq> 0}" j k] by (simp add: inode_ok_def)
  moreover have "fdata (dk w') (sv_i x) j = (if fblk (dk w) (sv_i x) j = b then bs else fdata (dk w) (sv_i x) j)"
    unfolding fdata_def f using k(3) by (simp add: s(4))
  ultimately show "fdata (dk w') (sv_i x) j = (if j = k then bs else fdata (dk w) (sv_i x) j)" using k(2) by metis
qed

text \<open>The bytes \<open>bs\<close> have been written at position \<open>p\<close> of the file; the size is not yet adjusted.\<close>

definition data_post :: "nat \<Rightarrow> sfs_vnode \<Rightarrow> world \<Rightarrow> nat \<Rightarrow> u8 list \<Rightarrow> sfs_vnode \<Rightarrow> world \<Rightarrow> bool" where
  "data_post sv x w p bs x' w' \<longleftrightarrow> file_step sv x w x' w' \<and> sfi_size (sv_i x') = sfi_size (sv_i x) \<and> (bs \<noteq> [] \<longrightarrow> p + length bs \<le> 73216) \<and>
     (\<forall>q. q < 73216 \<longrightarrow> fbyte (dk w') (sv_i x') q = (if p \<le> q \<and> q < p + length bs then bs ! (q - p) else fbyte (dk w) (sv_i x) q))"

lemma data_post_nil:
  assumes "file_step sv x w x' w'" "sfi_size (sv_i x') = sfi_size (sv_i x)" "\<And>k. k < 143 \<Longrightarrow> fdata (dk w') (sv_i x') k = fdata (dk w) (sv_i x) k"
  shows "data_post sv x w p [] x' w'"
proof -
  have "q div 512 < 143" if "q < 73216" for q :: nat using that by (simp add: div_less_iff_less_mult)
  then have "fbyte (dk w') (sv_i x') q = fbyte (dk w) (sv_i x) q" if "q < 73216" for q using that assms(3) by (simp add: fbyte_def)
  then show ?thesis using assms(1,2) by (auto simp: data_post_def)
qed

lemma data_post_trans:
  assumes "data_post sv x w p bs x1 w1" "data_post sv x1 w1 (p + length bs) cs x2 w2"
  shows "data_post sv x w p (bs @ cs) x2 w2"
proof -
  have "fbyte (dk w2) (sv_i x2) q = (if p \<le> q \<and> q < p + length (bs @ cs) then (bs @ cs) ! (q - p) else fbyte (dk w) (sv_i x) q)" if "q < 73216" for q
    using assms that by (auto simp: data_post_def nth_append less_diff_conv2 diff_diff_left)
  then show ?thesis
    using assms file_step_trans [of sv x w x1 w1 x2 w2] unfolding data_post_def by (cases "cs = []") auto
qed

text \<open>A change inside one block, byte by byte.\<close>

lemma data_post_block:
  assumes f: "file_step sv x w x' w'" "sfi_size (sv_i x') = sfi_size (sv_i x)" and k: "p div 512 < 143"
    and d: "\<And>j. j < 143 \<Longrightarrow> fdata (dk w') (sv_i x') j =
      (if j = p div 512 then take (p mod 512) (fdata (dk w) (sv_i x) j) @ bs @ drop (p mod 512 + length bs) (fdata (dk w) (sv_i x) j)
       else fdata (dk w) (sv_i x) j)"
    and l: "length (fdata (dk w) (sv_i x) (p div 512)) = 512" "p mod 512 + length bs \<le> 512"
  shows "data_post sv x w p bs x' w'"
proof -
  let ?f = "fdata (dk w) (sv_i x) (p div 512)" and ?s = "p mod 512"
  have p: "p = 512 * (p div 512) + ?s" by simp
  have "fbyte (dk w') (sv_i x') q = (if p \<le> q \<and> q < p + length bs then bs ! (q - p) else fbyte (dk w) (sv_i x) q)" if q: "q < 73216" for q
  proof (cases "q div 512 = p div 512")
    case True
    have e: "q = 512 * (p div 512) + q mod 512" using True by (metis mult_div_mod_eq)
    have "(p \<le> q \<longleftrightarrow> s \<le> m) \<and> (q < p + length bs \<longleftrightarrow> m < s + length bs) \<and> q - p = m - s" if "p = a + s" "q = a + m" for a s m
      using that by auto
    from this [OF p e] have c: "p \<le> q \<longleftrightarrow> ?s \<le> q mod 512" "q < p + length bs \<longleftrightarrow> q mod 512 < ?s + length bs" "q - p = q mod 512 - ?s"
      by simp_all
    have "fbyte (dk w') (sv_i x') q = (take ?s ?f @ bs @ drop (?s + length bs) ?f) ! (q mod 512)"
      using d [OF k] True by (simp add: fbyte_def)
    also have "\<dots> = (if ?s \<le> q mod 512 \<and> q mod 512 < ?s + length bs then bs ! (q mod 512 - ?s) else ?f ! (q mod 512))"
      using l by (auto simp: nth_append)
    finally show ?thesis using True c by (simp add: fbyte_def)
  next
    case False
    have "\<not> (p \<le> q \<and> q < p + length bs)"
    proof
      assume "p \<le> q \<and> q < p + length bs"
      then have "?s + (q - p) < 512" "q = p + (q - p)" using l(2) by auto
      then show False using mod_add_lt [of p "q - p"] False by metis
    qed
    moreover have "q div 512 < 143" using q by (simp add: div_less_iff_less_mult)
    ultimately show ?thesis using d [of "q div 512"] False by (auto simp: fbyte_def)
  qed
  moreover have "p + length bs \<le> 73216"
  proof -
    have "p + n \<le> a + 512" if "p = a + s" "s + n \<le> 512" for a s n using that by simp
    from this [OF p l(2)] have "p + length bs \<le> 512 * (p div 512) + 512" .
    also have "\<dots> \<le> 73216" using k by simp
    finally show ?thesis .
  qed
  ultimately show ?thesis using f by (simp add: data_post_def)
qed

lemma sfs_bmap_write:
  assumes pre: "bmap_pre sv x w" and k: "unat fb < 143"
  obtains (full) x' w' where "sfs_bmap sv fb True w = Some (Inl ENOSPC, w')" "data_post sv x w p [] x' w'" "\<forall>b. b < nblocks w \<longrightarrow> b \<in> in_use w'"
  | (ok) x' w' where "sfs_bmap sv fb True w = Some (Inr (fblk (dk w') (sv_i x') (unat fb)), w')" "fblk (dk w') (sv_i x') (unat fb) \<noteq> 0"
      "bmap_step sv x w x' w'"
proof -
  obtain r x' w' where b: "sfs_bmap sv fb True w = Some (r, w')" "bmap_step sv x w x' w'" "bmap_post True (unat fb) x w r x' w'"
    using sfs_bmap_spec [OF pre, of fb True] k by (auto simp: returns_def)
  have "data_post sv x w p [] x' w'"
    using bmap_stepD(6,12) [OF b(2)] by (intro data_post_nil file_step_bmap [OF b(2)]) (simp_all add: same_meta_def)
  then show thesis using b full ok by (cases r) (auto simp: bmap_post_def)
qed

text \<open>A write of \<open>n\<close> bytes: all of them, or a prefix when the volume is full or the file would get too long.\<close>

definition write_post :: "(u32 \<Rightarrow> bool) \<Rightarrow> nat option \<Rightarrow> nat \<Rightarrow> sfs_vnode \<Rightarrow> world \<Rightarrow> uio \<Rightarrow> mem \<Rightarrow> nat \<Rightarrow> ((errno + unit) \<times> uio \<times> mem \<times> world) kp \<Rightarrow> bool" where
  "write_post fault curas sv x w u mem n res \<longleftrightarrow> (\<exists>r m u' x' w'. res = Some (r, u', mem, w') \<and> m \<le> n \<and>
     (r = Inr () \<and> m = n \<or> r = Inl ENOSPC \<and> (\<forall>b. b < nblocks w \<longrightarrow> b \<in> in_use w') \<or> r = Inl EFBIG \<and> 73216 < nat (uio_offset u) + n) \<and>
     uio_adv fault curas u m u' \<and> data_post sv x w (nat (uio_offset u)) (uio_data u mem m) x' w')"

lemma write_post_error:
  assumes "data_post sv x w (nat (uio_offset u)) [] x' w'" "uio_rdy fault curas u"
    and "e = ENOSPC \<and> (\<forall>b. b < nblocks w \<longrightarrow> b \<in> in_use w') \<or> e = EFBIG \<and> 73216 < nat (uio_offset u) + n"
  shows "write_post fault curas sv x w u mem n (Some (Inl e, u, mem, w'))"
  unfolding write_post_def
  by (rule exI [of _ "Inl e"], rule exI [of _ 0], rule exI [of _ u], rule exI [of _ x'], rule exI [of _ w'])
    (use assms in \<open>auto simp: uio_adv_0 uio_data_def\<close>)

lemma write_post_ok:
  assumes "uio_adv fault curas u n u'" "data_post sv x w (nat (uio_offset u)) (uio_data u mem n) x' w'"
  shows "write_post fault curas sv x w u mem n (Some (Inr (), u', mem, w'))"
  unfolding write_post_def
  by (rule exI [of _ "Inr ()"], rule exI [of _ n], rule exI [of _ u'], rule exI [of _ x'], rule exI [of _ w']) (use assms in auto)

lemma fileblock_nat32: "p div 512 < 2 ^ 32 \<Longrightarrow> unat (of_int (tdiv (int p) 512) :: u32) = p div 512"
  by (simp add: tdiv_nat unat_of_nat_id)

lemma sfs_bmap_toobig:
  assumes "bmap_pre sv x w" "\<not> unat fb < 143"
  shows "sfs_bmap sv fb doalloc w = Some (Inl EFBIG, w)"
  using sfs_bmap_spec [OF assms(1), of fb doalloc] assms(2) by (auto simp: returns_def)

lemma data_post_refl: "bmap_pre sv x w \<Longrightarrow> data_post sv x w p [] x w"
  by (intro data_post_nil file_step_refl) simp_all

lemma data_post_step:
  assumes "bmap_step sv x w x1 w1" "data_post sv x1 w1 p bs x' w'"
  shows "data_post sv x w p bs x' w'"
proof -
  have "data_post sv x w p [] x1 w1"
    using bmap_stepD(6,12) [OF assms(1)] by (intro data_post_nil file_step_bmap [OF assms(1)]) (simp_all add: same_meta_def)
  then show ?thesis using data_post_trans [of sv x w p "[]" x1 w1 bs x' w'] assms(2) by simp
qed

lemma sfs_partialio_write:
  assumes pre: "bmap_pre sv x w" and p: "uio_offset u = int p" "p div 512 < 2 ^ 32" and u: "uio_rw u = UIO_WRITE" "uio_rdy fault curas u"
    and len: "unat skip = p mod 512" "unat skip + unat len \<le> 512" "len \<le> uio_resid u" "unat len \<noteq> 0"
  shows "write_post fault curas sv x w u mem (unat len) (sfs_partialio fault curas sv skip len u mem w)"
proof -
  let ?k = "p div 512" and ?fb = "of_int (tdiv (int p) 512) :: u32"
  have k: "unat ?fb = ?k" by (rule fileblock_nat32 [OF p(2)])
  have h: "vfs_biglock_do_i_hold (w_bl w)" using bmap_preD(1) [OF pre] by (simp add: blk_ok_def io_ok_def)
  have part: "sfs_partialio fault curas sv skip len u mem w = Some (Inl e, u, mem, w1)" if "sfs_bmap sv ?fb True w = Some (Inl e, w1)" for e w1
    unfolding sfs_partialio_def p(1) u(1) Let_def using word_add_le [OF len(2)] h that by (simp add: SFS_BLOCKSIZE_def)
  show ?thesis
  proof (cases "?k < 143")
    case False
    then have "73216 < p + unat len" using len(4) by (simp add: div_less_iff_less_mult)
    then show ?thesis
      using part [OF sfs_bmap_toobig [OF pre]] write_post_error [OF data_post_refl [OF pre] u(2)] False k p(1) by simp
  next
    case True
    then have kb: "unat ?fb < 143" using k by simp
    from pre kb show ?thesis
    proof (cases rule: sfs_bmap_write [where p = p])
      case (full x' w')
      then show ?thesis using part [OF full(1)] write_post_error [OF _ u(2)] p(1) by simp
    next
      case (ok x1 w1)
      let ?b = "fblk (dk w1) (sv_i x1) ?k" and ?f = "fdata (dk w1) (sv_i x1) ?k"
      have pre1: "bmap_pre sv x1 w1" by (rule bmap_pre_step [OF ok(3) pre])
      note q = bmap_preD [OF pre1]
      have b: "?b \<noteq> 0" "?b < d_blocks (w_dev w1)" "io_ok w1" "?f = dk w1 ?b"
        using ok(2) fblk_owned [OF True, of "dk w1" "sv_i x1"] q(1,3) by (auto simp: k inode_ok_def blk_ok_def fdata_def)
      obtain w2 where w2: "sfs_readblock ?b w1 = Some (Inr ?f, w2)" "disk_step w1 (dk w1) w2"
        using sfs_readblock_spec [OF b(3,2)] b(4) by (auto simp: returns_def)
      have st2: "bmap_step sv x1 w1 x1 w2" by (rule bmap_step_disk [OF pre1 w2(2)])
      have pre2: "bmap_pre sv x1 w2" by (rule bmap_pre_step [OF st2 pre1])
      have l: "length ?f = 512" by (rule length_fdata [OF pre1 True])
      then have "unat len \<le> length (drop (unat skip) ?f)" using len(2) by simp
      then obtain u' where u': "uiomove fault curas (drop (unat skip) ?f) len u mem =
          Some (Inr (), uio_data u mem (unat len) @ drop (unat len) (drop (unat skip) ?f), u', mem)" "uio_adv fault curas u (unat len) u'"
        using uiomove_adv [OF u(2) len(3), of "drop (unat skip) ?f" mem] u(1) by auto
      let ?bs = "uio_data u mem (unat len)"
      let ?new = "take (unat skip) ?f @ ?bs @ drop (unat len) (drop (unat skip) ?f)"
      have lb: "length ?bs = unat len" using u(2) len(3) by (intro length_uio_data) (simp_all add: word_le_nat_alt)
      have "length ?new = 512" using lb l len(2) by simp
      moreover have d2: "dk w2 = dk w1" "io_ok w2" "?b < d_blocks (w_dev w2)"
        using w2(2) b(2,3) by (simp_all add: disk_step_def io_ok_def)
      ultimately obtain w3 where w3: "sfs_writeblock ?b ?new w2 = Some (Inr (), w3)" "disk_step w2 ((dk w2)(?b := ?new)) w3"
        using sfs_writeblock_spec [OF d2(2,3), of ?new] by (auto simp: returns_def)
      have "fblk (dk w2) (sv_i x1) ?k = ?b" using d2(1) by simp
      note dw = data_write [OF pre2 True this b(1) w3(2)]
      have "data_post sv x1 w2 p ?bs x1 w3"
        by (rule data_post_block [OF dw(1) refl True]) (use dw(2) len(1,2) lb l d2(1) in \<open>simp_all add: add.commute\<close>)
      then have "data_post sv x w p ?bs x1 w3" using data_post_step [OF ok(3) data_post_step [OF st2]] by simp
      moreover have "sfs_partialio fault curas sv skip len u mem w = Some (Inr (), u', mem, w3)"
        unfolding sfs_partialio_def p(1) u(1) Let_def
        using word_add_le [OF len(2)] h ok(1) w2(1) u'(1) w3(1) b(1) k uio_adv_facts(2) [OF u'(2)] u(1) by (simp add: SFS_BLOCKSIZE_def)
      ultimately show ?thesis using write_post_ok [OF u'(2)] p(1) by simp
    qed
  qed
qed

lemma sfs_blockio_write:
  assumes pre: "bmap_pre sv x w" and nb: "nblocks w \<le> 2 ^ 23" and p: "uio_offset u = int p" "p div 512 < 2 ^ 32" "p mod 512 = 0"
    and u: "uio_rw u = UIO_WRITE" "uio_rdy fault curas u" "512 \<le> unat (uio_resid u)"
  shows "write_post fault curas sv x w u mem 512 (sfs_blockio fault curas sv u mem w)"
proof -
  let ?k = "p div 512" and ?fb = "of_int (tdiv (int p) 512) :: u32"
  have k: "unat ?fb = ?k" by (rule fileblock_nat32 [OF p(2)])
  have part: "sfs_blockio fault curas sv u mem w = Some (Inl e, u, mem, w1)" if "sfs_bmap sv ?fb True w = Some (Inl e, w1)" for e w1
    unfolding sfs_blockio_def p(1) u(1) Let_def using that by simp
  show ?thesis
  proof (cases "?k < 143")
    case False
    then have "73216 < p + 512" by (simp add: div_less_iff_less_mult)
    then show ?thesis
      using part [OF sfs_bmap_toobig [OF pre]] write_post_error [OF data_post_refl [OF pre] u(2)] False k p(1) by simp
  next
    case True
    then have kb: "unat ?fb < 143" using k by simp
    from pre kb show ?thesis
    proof (cases rule: sfs_bmap_write [where p = p])
      case (full x' w')
      then show ?thesis using part [OF full(1)] write_post_error [OF _ u(2)] p(1) by simp
    next
      case (ok x1 w1)
      let ?b = "fblk (dk w1) (sv_i x1) ?k" and ?bs = "uio_data u mem 512"
      have pre1: "bmap_pre sv x1 w1" by (rule bmap_pre_step [OF ok(3) pre])
      have b: "?b \<noteq> 0" "?b < d_blocks (w_dev w1)" "io_ok w1" "?b < 2 ^ 23"
        using ok(2) fblk_owned [OF True, of "dk w1" "sv_i x1"] bmap_preD(1,3) [OF pre1] nb same_fs_nblocks [OF bmap_stepD(1) [OF ok(3)]]
        by (auto simp: k inode_ok_def blk_ok_def)
      note off = diskoff_eq [OF b(4)]
      let ?v = "u\<lparr>uio_offset := uint (?b * SFS_BLOCKSIZE), uio_resid := 512\<rparr>"
      note v = uio_block_view [OF u(2,3), of "uint (?b * SFS_BLOCKSIZE)"]
      obtain u1 w2 where w2: "sfs_rwblock fault curas ?v mem w1 = Some (Inr (), u1, mem, w2)"
        "uio_done fault ?v u1" "disk_step w1 ((dk w1)(?b := ?bs)) w2"
        using sfs_rwblock_write [OF b(3) _ b(2) v(1), of mem] v(2) u(1) off by (auto simp: uio_data_def)
      let ?u = "u1\<lparr>uio_offset := (uio_offset u1 - uint (?b * SFS_BLOCKSIZE)) + uio_offset u, uio_resid := (uio_resid u1 - 512) + uio_resid u\<rparr>"
      have "512 \<le> uio_resid u" using u(3) by (simp add: word_le_nat_alt)
      then have "sfs_blockio fault curas sv u mem w = Some (Inr (), ?u, mem, w2)"
        unfolding sfs_blockio_def p(1) u(1) Let_def using ok(1) b(1) k w2(1) p(1) by (simp add: SFS_BLOCKSIZE_def)
      moreover have "length ?bs = 512" by (rule length_uio_data [OF u(2,3)])
      moreover note dw = data_write [OF pre1 True refl b(1) w2(3)]
      then have "data_post sv x1 w1 p ?bs x1 w2"
        by (intro data_post_block [OF dw(1) refl True]) (use dw(2) p(3) \<open>length ?bs = 512\<close> length_fdata [OF pre1] True in simp_all)
      from data_post_step [OF ok(3) this]
      have "write_post fault curas sv x w u mem 512 (Some (Inr (), ?u, mem, w2))"
        using p(1) by (intro write_post_ok [where x' = x1] uio_block_back [OF u(2,3) w2(2)]) simp
      ultimately show ?thesis by simp
    qed
  qed
qed

text \<open>Writes one after the other.\<close>

lemma write_post_then:
  assumes a: "uio_adv fault curas u m u1" "data_post sv x w (nat (uio_offset u)) (uio_data u mem m) x1 w1"
    and u: "uio_rdy fault curas u" "uio_offset u = int p"
    and "write_post fault curas sv x1 w1 u1 mem n res"
  shows "write_post fault curas sv x w u mem (m + n) res"
proof -
  obtain r l u' x' w' where r: "res = Some (r, u', mem, w')" "l \<le> n"
    "r = Inr () \<and> l = n \<or> r = Inl ENOSPC \<and> (\<forall>b. b < nblocks w1 \<longrightarrow> b \<in> in_use w') \<or> r = Inl EFBIG \<and> 73216 < nat (uio_offset u1) + n"
    "uio_adv fault curas u1 l u'" "data_post sv x1 w1 (nat (uio_offset u1)) (uio_data u1 mem l) x' w'"
    using assms(5) unfolding write_post_def by blast
  have nb: "nblocks w1 = nblocks w"
    using a(2) file_stepD(1) [of sv x w x1 w1] same_fs_nblocks [of w w1] by (simp add: data_post_def)
  have o: "nat (uio_offset u1) = p + m" using a(1) u(2) by (simp add: uio_adv_def flip: of_nat_add)
  have "length (uio_data u mem m) = m" using a(1) u(1) by (intro length_uio_data) (auto simp: uio_adv_def)
  then have "data_post sv x w (nat (uio_offset u)) (uio_data u mem (m + l)) x' w'"
    using data_post_trans [OF a(2), of "uio_data u1 mem l" x' w'] r(5) u(2) o uio_data_append [OF a(1)] by simp
  moreover have "uio_adv fault curas u (m + l) u'" by (rule uio_adv_trans [OF a(1) r(4)])
  ultimately show ?thesis unfolding write_post_def
    by (intro exI [of _ r] exI [of _ "m + l"] exI [of _ u'] exI [of _ x'] exI [of _ w']) (use r(1-3) o u(2) nb in \<open>auto simp: add.assoc\<close>)
qed

lemma write_post_cases:
  assumes "write_post fault curas sv x w u mem n res"
  obtains (error) e u' w' where "res = Some (Inl e, u', mem, w')"
    "\<And>k. write_post fault curas sv x w u mem (n + k) res"
  | (ok) u' x' w' where "res = Some (Inr (), u', mem, w')" "uio_adv fault curas u n u'"
      "data_post sv x w (nat (uio_offset u)) (uio_data u mem n) x' w'"
proof -
  obtain r m u' x' w' where r: "res = Some (r, u', mem, w')" "m \<le> n"
    "r = Inr () \<and> m = n \<or> r = Inl ENOSPC \<and> (\<forall>b. b < nblocks w \<longrightarrow> b \<in> in_use w') \<or> r = Inl EFBIG \<and> 73216 < nat (uio_offset u) + n"
    "uio_adv fault curas u m u'" "data_post sv x w (nat (uio_offset u)) (uio_data u mem m) x' w'"
    using assms unfolding write_post_def by blast
  show thesis
  proof (cases r)
    case (Inl e)
    have "write_post fault curas sv x w u mem (n + k) res" for k unfolding write_post_def
      by (rule exI [of _ r], rule exI [of _ m], rule exI [of _ u'], rule exI [of _ x'], rule exI [of _ w']) (use r Inl in auto)
    then show ?thesis using error r(1) Inl by blast
  next
    case (Inr z)
    then show ?thesis using ok r by auto
  qed
qed

lemma div_less_32: "p < 2 ^ 41 \<Longrightarrow> p div 512 < 2 ^ 32" for p :: nat
  by (simp add: div_less_iff_less_mult)

lemma data_post_pre:
  assumes "data_post sv x w p bs x' w'" "bmap_pre sv x w"
  shows "bmap_pre sv x' w'" "nblocks w' = nblocks w"
  using assms file_step_pre [of sv x w x' w'] file_stepD(1) [of sv x w x' w'] same_fs_nblocks [of w w'] by (simp_all add: data_post_def)

lemma write_post_0: "uio_rdy fault curas u \<Longrightarrow> bmap_pre sv x w \<Longrightarrow> write_post fault curas sv x w u mem 0 (Some (Inr (), u, mem, w))"
  using write_post_ok [OF uio_adv_0, of fault curas u sv x w mem x w] data_post_refl [of sv x w] by (simp add: uio_data_def)

lemma sfs_io_blocks_write:
  assumes "bmap_pre sv x w" "nblocks w \<le> 2 ^ 23" "uio_offset u = int p" "p mod 512 = 0" "p + 512 * n \<le> 2 ^ 41"
    and "uio_rw u = UIO_WRITE" "uio_rdy fault curas u" "512 * n \<le> unat (uio_resid u)"
  shows "write_post fault curas sv x w u mem (512 * n) (sfs_io_blocks fault curas sv n u mem w)"
  using assms
proof (induction n arbitrary: u p x w)
  case 0
  then show ?case using write_post_0 by simp
next
  case (Suc n)
  have r: "p div 512 < 2 ^ 32" "512 \<le> unat (uio_resid u)" using Suc.prems(5,8) by (simp_all add: div_less_32)
  from sfs_blockio_write [OF Suc.prems(1-3) r(1) Suc.prems(4,6,7) r(2), of mem] show ?case
  proof (cases rule: write_post_cases)
    case (error e u' w')
    then show ?thesis using error(2) [of "512 * n"] by simp
  next
    case (ok u1 x1 w1)
    note a = uio_adv_facts [OF ok(2)] and d = data_post_pre [OF ok(3) Suc.prems(1)]
    have "write_post fault curas sv x1 w1 u1 mem (512 * n) (sfs_io_blocks fault curas sv n u1 mem w1)"
      by (rule Suc.IH [OF d(1), of _ "p + 512"]) (use Suc.prems d(2) a in simp_all)
    from write_post_then [OF ok(2,3) Suc.prems(7,3) this] show ?thesis using ok(1) by simp
  qed
qed

lemma sfs_io_aligned_write:
  assumes "bmap_pre sv x w" "nblocks w \<le> 2 ^ 23" "uio_offset u = int p" "unat (uio_resid u) \<noteq> 0 \<Longrightarrow> p mod 512 = 0" "p + unat (uio_resid u) \<le> 2 ^ 41"
    and "uio_rw u = UIO_WRITE" "uio_rdy fault curas u"
  shows "write_post fault curas sv x w u mem (unat (uio_resid u)) (sfs_io_aligned fault curas sv u mem w)"
proof (cases "uio_resid u = 0")
  case True
  then show ?thesis using write_post_0 [OF assms(7,1)] by (simp add: sfs_io_aligned_def)
next
  case False
  let ?R = "unat (uio_resid u)" and ?n = "unat (uio_resid u) div 512"
  have p: "p mod 512 = 0" using False assms(4) by (simp add: unat_eq_zero)
  have tm: "tmod (uio_offset u) 512 = 0" using p by (simp add: assms(3) tdiv_nat)
  have n: "unat (uio_resid u div SFS_BLOCKSIZE) = ?n" by (simp add: SFS_BLOCKSIZE_def unat_div)
  have k: "512 * ?n \<le> ?R" by simp
  have R: "512 * ?n + ?R mod 512 = ?R" by simp
  have "p + 512 * ?n \<le> 2 ^ 41" using assms(5) k by linarith
  from sfs_io_blocks_write [OF assms(1-3) p this assms(6,7) k, of mem] show ?thesis
  proof (cases rule: write_post_cases)
    case (error e u' w')
    then show ?thesis using error(2) [of "?R mod 512"] False tm n R by (simp add: sfs_io_aligned_def Let_def)
  next
    case (ok u1 x1 w1)
    note a = uio_adv_facts [OF ok(2)] and d = data_post_pre [OF ok(3) assms(1)]
    have r: "unat (uio_resid u1) = ?R mod 512" using a(4) by (simp add: minus_mult_div_eq_mod)
    have o: "uio_offset u1 = int (p + 512 * ?n)" using a(3) assms(3) by simp
    have "write_post fault curas sv x1 w1 u1 mem (?R mod 512)
      (if uio_resid u1 > 0 then sfs_partialio fault curas sv 0 (uio_resid u1) u1 mem w1 else Some (Inr (), u1, mem, w1))"
    proof (cases "uio_resid u1 > 0")
      case True
      then have m: "?R mod 512 \<noteq> 0" using r by (simp add: word_gt_0 flip: unat_eq_zero)
      then have "p + 512 * ?n < 2 ^ 41" using assms(5) R by linarith
      then show ?thesis
        using True sfs_partialio_write [OF d(1) o div_less_32 _ a(1), of 0 "uio_resid u1" mem] a(2) assms(6) r p m by simp
    next
      case False
      then have "?R mod 512 = 0" using r by (simp add: word_gt_0)
      then show ?thesis using False write_post_0 [OF a(1) d(1)] by simp
    qed
    from write_post_then [OF ok(2,3) assms(7,3) this]
    have "write_post fault curas sv x w u mem ?R
      (if uio_resid u1 > 0 then sfs_partialio fault curas sv 0 (uio_resid u1) u1 mem w1 else Some (Inr (), u1, mem, w1))" using R by simp
    moreover have "uio_resid u1 < SFS_BLOCKSIZE" using r by (simp add: word_less_nat_alt SFS_BLOCKSIZE_def)
    ultimately show ?thesis using False ok(1) n tm by (simp add: sfs_io_aligned_def Let_def)
  qed
qed

lemma sfs_io_transfer_write:
  assumes "bmap_pre sv x w" "nblocks w \<le> 2 ^ 23" "uio_offset u = int p" "p + unat (uio_resid u) \<le> 2 ^ 41" "uio_resid u \<noteq> 0"
    and "uio_rw u = UIO_WRITE" "uio_rdy fault curas u"
  shows "write_post fault curas sv x w u mem (unat (uio_resid u)) (sfs_io_transfer fault curas sv u mem w)"
proof (cases "p mod 512 = 0")
  case True
  then show ?thesis
    using sfs_io_aligned_write [OF assms(1-3) _ assms(4,6,7)] by (simp add: sfs_io_transfer_unfold [OF assms(3)])
next
  case False
  let ?R = "unat (uio_resid u)" and ?L = "lead_len p (uio_resid u)"
  note l = lead_len_facts [OF False, of "uio_resid u"]
  have r: "?R \<noteq> 0" using assms(5) by (simp add: unat_eq_zero)
  then have "p div 512 < 2 ^ 32" using assms(4) by (intro div_less_32) linarith
  moreover have "unat ?L \<le> ?R" using l(2) by (simp add: word_le_nat_alt)
  ultimately have "write_post fault curas sv x w u mem (unat ?L) (sfs_partialio fault curas sv (of_nat (p mod 512)) ?L u mem w)"
    using sfs_partialio_write [OF assms(1,3) _ assms(6,7) unat_skip _ l(2)] l(1) l(4) [OF r] by (simp add: unat_skip)
  then show ?thesis
  proof (cases rule: write_post_cases)
    case (error e u' w')
    then show ?thesis using error(2) [of "?R - unat ?L"] False \<open>unat ?L \<le> ?R\<close> by (simp add: sfs_io_transfer_unfold [OF assms(3)])
  next
    case (ok u1 x1 w1)
    note a = uio_adv_facts [OF ok(2)] and d = data_post_pre [OF ok(3) assms(1)]
    have "write_post fault curas sv x1 w1 u1 mem (unat (uio_resid u1)) (sfs_io_aligned fault curas sv u1 mem w1)"
      by (rule sfs_io_aligned_write [OF d(1), of _ "p + unat ?L"]) (use a assms(2,3,4,6) d(2) l(3) in simp_all)
    from write_post_then [OF ok(2,3) assms(7,3) this] show ?thesis
      using ok(1) False a(4,5) by (simp add: sfs_io_transfer_unfold [OF assms(3)])
  qed
qed

subsection \<open>Files as sequences of bytes\<close>

text \<open>What the file operations promise, without blocks: a file is its bytes and its size. Bytes past the end that a write has
  skipped read as they are on disk.\<close>

record afile =
  abytes :: "nat \<Rightarrow> u8"
  asize :: nat

definition ref_read :: "nat \<Rightarrow> nat \<Rightarrow> afile \<Rightarrow> u8 list" where
  "ref_read p n f = map (abytes f) [p..<p + min n (asize f - p)]"

definition ref_write :: "nat \<Rightarrow> u8 list \<Rightarrow> afile \<Rightarrow> afile" where
  "ref_write p bs f = (if bs = [] then f else
     f\<lparr>abytes := (\<lambda>q. if p \<le> q \<and> q < p + length bs then bs ! (q - p) else abytes f q), asize := max (asize f) (p + length bs)\<rparr>)"

definition afile_of :: "(u32 \<Rightarrow> u8 list) \<Rightarrow> sfs_dinode \<Rightarrow> afile" where
  "afile_of D di = \<lparr>abytes = (\<lambda>q. if q < 73216 then fbyte D di q else 0), asize = unat (sfi_size di)\<rparr>"

lemma ref_read_fbytes:
  "unat (sfi_size di) \<le> 73216 \<Longrightarrow> ref_read p n (afile_of D di) = fbytes D di p (min n (unat (sfi_size di) - p))"
  by (auto simp: ref_read_def afile_of_def fbytes_def)

lemma afile_of_frame:
  assumes "\<And>b. b \<in> owned D di \<Longrightarrow> D' b = D b"
  shows "afile_of D' di = afile_of D di"
proof -
  have "fbyte D' di q = fbyte D di q" if "q < 73216" for q
    using inode_frame(2) [OF assms, where n = "q div 512"] that by (simp add: fbyte_def div_less_iff_less_mult)
  then show ?thesis by (simp add: afile_of_def fun_eq_iff)
qed

text \<open>Reading back what has been written.\<close>

lemma ref_write_read: "ref_read p (length bs) (ref_write p bs f) = bs"
proof (cases "bs = []")
  case False
  then show ?thesis by (intro nth_equalityI) (auto simp: ref_read_def ref_write_def)
qed (simp add: ref_read_def)

lemma file_step_put:
  assumes "file_step sv x w x1 w1" "x' = x1\<lparr>sv_i := (sv_i x1)\<lparr>sfi_size := s\<rparr>, sv_dirty := True\<rparr>"
  shows "file_step sv x w x' (put_vn sv x' w1)"
proof -
  note sz = meta_update [of "sv_i x'" "sv_i x1"]
  show ?thesis using assms sz(3,4) by (auto simp: file_step_def same_vnode_def)
qed

lemma sfs_io_write_spec:
  assumes pre: "bmap_pre sv x w" and nb: "nblocks w \<le> 2 ^ 23" and p: "uio_offset u = int p" "p + unat (uio_resid u) \<le> 2 ^ 41"
    and u: "uio_rw u = UIO_WRITE" "uio_rdy fault curas u" "uio_resid u \<noteq> 0"
  shows "\<exists>r m u' x' w'. sfs_io fault curas sv u mem w = Some (r, u', mem, w') \<and> m \<le> unat (uio_resid u) \<and>
    (r = Inr () \<and> m = unat (uio_resid u) \<or> r = Inl ENOSPC \<and> (\<forall>b. b < nblocks w \<longrightarrow> b \<in> in_use w') \<or>
     r = Inl EFBIG \<and> 73216 < p + unat (uio_resid u)) \<and>
    uio_adv fault curas u m u' \<and> file_step sv x w x' w' \<and> (m \<noteq> 0 \<longrightarrow> p + m \<le> 73216) \<and>
    afile_of (dk w') (sv_i x') = ref_write p (uio_data u mem m) (afile_of (dk w) (sv_i x))"
proof -
  have e: "io_extra x u = 0" using u(1) by (simp add: io_extra_def)
  obtain r m u1 x1 w1 where t: "sfs_io_transfer fault curas sv u mem w = Some (r, u1, mem, w1)" "m \<le> unat (uio_resid u)"
    "r = Inr () \<and> m = unat (uio_resid u) \<or> r = Inl ENOSPC \<and> (\<forall>b. b < nblocks w \<longrightarrow> b \<in> in_use w1) \<or>
     r = Inl EFBIG \<and> 73216 < p + unat (uio_resid u)"
    "uio_adv fault curas u m u1" "data_post sv x w p (uio_data u mem m) x1 w1"
    using sfs_io_transfer_write [OF pre nb p u(3,1,2), of mem] unfolding write_post_def p(1) nat_int by blast
  have f: "file_step sv x w x1 w1" and z: "sfi_size (sv_i x1) = sfi_size (sv_i x)" using t(5) by (simp_all add: data_post_def)
  have lm: "length (uio_data u mem m) = m" by (rule length_uio_data [OF u(2) t(2)])
  have x1: "w_vn w1 sv = Some x1" using file_stepD(3) [OF f] by simp
  let ?c = "m \<noteq> 0 \<and> p + m > unat (sfi_size (sv_i x))"
  let ?x = "x1\<lparr>sv_i := (sv_i x1)\<lparr>sfi_size := of_nat (p + m)\<rparr>, sv_dirty := True\<rparr>"
  have c: "uio_resid u1 \<noteq> uio_resid u \<and> uio_rw u1 = UIO_WRITE \<and> uio_offset u1 > uint (sfi_size (sv_i x1)) \<longleftrightarrow> ?c"
  proof -
    have "uio_resid u1 = uio_resid u \<longleftrightarrow> unat (uio_resid u) - m = unat (uio_resid u)"
      using uio_adv_facts(4) [OF t(4)] by (simp add: word_unat_eq_iff del: unat_eq_unat_iff)
    moreover have "unat (uio_resid u) \<noteq> 0" using u(3) by (simp add: unat_eq_zero)
    moreover have "uio_offset u1 = int (p + m)" using uio_adv_facts(3) [OF t(4)] p(1) by simp
    ultimately show ?thesis using uio_adv_facts(2) [OF t(4)] u(1) z t(2) uint_compare(2) [of "sfi_size (sv_i x)" "p + m" 0] by auto
  qed
  define x' where "x' = (if ?c then ?x else x1)"
  define w' where "w' = (if ?c then put_vn sv ?x w1 else w1)"
  have "sfs_io fault curas sv u mem w = Some (r, u1, mem, w')"
    using t(1) x1 c e bmap_preD(2) [OF pre] u(1) uio_adv_facts(3) [OF t(4)] p(1)
    by (subst sfs_io_unfold [where x = x]) (auto simp: w'_def put_inode_eq)
  moreover have "file_step sv x w x' w'" using f file_step_put [OF f refl] by (simp add: x'_def w'_def)
  moreover have b: "m \<noteq> 0 \<longrightarrow> p + m \<le> 73216" using t(5) lm by (cases "uio_data u mem m") (auto simp: data_post_def)
  moreover have "afile_of (dk w') (sv_i x') = ref_write p (uio_data u mem m) (afile_of (dk w) (sv_i x))"
  proof -
    have s: "unat (sfi_size (sv_i x')) = (if m = 0 then unat (sfi_size (sv_i x)) else max (unat (sfi_size (sv_i x))) (p + m))"
      using z b unat_of_nat_id [of "p + m", where 'a = 32] by (auto simp: x'_def max_def simp del: of_nat_add)
    have "fbyte (dk w') (sv_i x') q = fbyte (dk w1) (sv_i x1) q" for q
      using meta_update(2) [of "sv_i ?x" "sv_i x1"] by (simp add: x'_def w'_def fbyte_def)
    then show ?thesis using t(5) lm s by (auto simp: data_post_def afile_of_def ref_write_def fun_eq_iff)
  qed
  moreover have "in_use w' = in_use w1" by (simp add: w'_def)
  ultimately show ?thesis using t(2-4) by metis
qed

end
