(* ===== verification/Sfsdir.thy ===== *)
theory Sfsdir
  imports Sfsfile
begin

text \<open>
  Directories of SFS, \<^verbatim>\<open>kern/fs/sfs/sfs_dir.c\<close>, except \<^verbatim>\<open>sfs_lookonce\<close>, which needs inodes. A name is the list of
  its characters without the terminating zero.
\<close>

definition slotpos :: "int \<Rightarrow> int" where
  "slotpos slot = uint (of_int slot * 64 :: u32)"

definition sfs_readdir :: "nat \<Rightarrow> int \<Rightarrow> world \<Rightarrow> ((errno + sfs_direntry) \<times> world) kp" where
  "sfs_readdir sv slot w = do {
     let actualpos = slotpos slot;
     (result, w1) \<leftarrow> sfs_metaio sv actualpos (replicate 64 0) UIO_READ w;
     (case result of
        Inl e \<Rightarrow> Some (Inl e, w1)
      | Inr data \<Rightarrow> Some (Inr (bytes_direntry data), w1))
   }"

definition sfs_writedir :: "nat \<Rightarrow> int \<Rightarrow> sfs_direntry \<Rightarrow> world \<Rightarrow> ((errno + unit) \<times> world) kp" where
  "sfs_writedir sv slot sd w = do {
     kassert (slot \<ge> 0);
     let actualpos = slotpos slot;
     (result, w1) \<leftarrow> sfs_metaio sv actualpos (direntry_bytes sd) UIO_WRITE w;
     (case result of
        Inl e \<Rightarrow> Some (Inl e, w1)
      | Inr _ \<Rightarrow> Some (Inr (), w1))
   }"

definition sfs_dir_nentries :: "nat \<Rightarrow> world \<Rightarrow> int kp" where
  "sfs_dir_nentries sv w = do {
     x \<leftarrow> w_vn w sv;
     kassert (sfi_type (sv_i x) = SFS_TYPE_DIR);
     let size = uint (sfi_size (sv_i x));
     kassert (size mod 64 = 0);
     Some (size div 64)
   }"

text \<open>The name of an entry after its last byte has been cleared, as \<^verbatim>\<open>strcmp\<close> sees it.\<close>

definition entry_name :: "sfs_direntry \<Rightarrow> u8 list" where
  "entry_name tsd = takeWhile (\<lambda>c. c \<noteq> 0) ((sfd_name tsd)[SFS_NAMELEN - 1 := 0])"

text \<open>The loop over the slots: what has been found (inode and slot) and the last empty slot.\<close>

fun findname_loop :: "nat \<Rightarrow> u8 list \<Rightarrow> int list \<Rightarrow> (u32 \<times> int) option \<Rightarrow> int option \<Rightarrow> world \<Rightarrow>
    ((errno + u32 \<times> int) \<times> int option \<times> world) kp" where
  "findname_loop sv name [] found emptyslot w =
     Some ((case found of None \<Rightarrow> Inl ENOENT | Some p \<Rightarrow> Inr p), emptyslot, w)"
| "findname_loop sv name (i # is) found emptyslot w = do {
     (result, w1) \<leftarrow> sfs_readdir sv i w;
     (case result of
        Inl e \<Rightarrow> Some (Inl e, emptyslot, w1)
      | Inr tsd \<Rightarrow>
          if sfd_ino tsd = SFS_NOINO then findname_loop sv name is found (Some i) w1
          else if entry_name tsd = name then do {
            kassert (found = None);
            findname_loop sv name is (Some (sfd_ino tsd, i)) emptyslot w1
          }
          else findname_loop sv name is found emptyslot w1)
   }"

definition sfs_dir_findname :: "nat \<Rightarrow> u8 list \<Rightarrow> world \<Rightarrow> ((errno + u32 \<times> int) \<times> int option \<times> world) kp" where
  "sfs_dir_findname sv name w = do {
     nentries \<leftarrow> sfs_dir_nentries sv w;
     findname_loop sv name [0..nentries - 1] None None w
   }"

definition mk_direntry :: "u32 \<Rightarrow> u8 list \<Rightarrow> sfs_direntry" where
  "mk_direntry ino name = \<lparr>sfd_ino = ino, sfd_name = name @ replicate (SFS_NAMELEN - length name) 0\<rparr>"

definition sfs_dir_link :: "nat \<Rightarrow> u8 list \<Rightarrow> u32 \<Rightarrow> world \<Rightarrow> ((errno + int) \<times> world) kp" where
  "sfs_dir_link sv name ino w = do {
     (result, emptyslot, w1) \<leftarrow> sfs_dir_findname sv name w;
     (case result of
        Inr _ \<Rightarrow> Some (Inl EEXIST, w1)
      | Inl e \<Rightarrow>
          if e \<noteq> ENOENT then Some (Inl e, w1)
          else if length name + 1 > SFS_NAMELEN then Some (Inl ENAMETOOLONG, w1)
          else do {
            slot \<leftarrow> (case emptyslot of None \<Rightarrow> sfs_dir_nentries sv w1 | Some i \<Rightarrow> Some i);
            (result, w2) \<leftarrow> sfs_writedir sv slot (mk_direntry ino name) w1;
            (case result of
               Inl e \<Rightarrow> Some (Inl e, w2)
             | Inr _ \<Rightarrow> Some (Inr slot, w2))
          })
   }"

definition sfs_dir_unlink :: "nat \<Rightarrow> int \<Rightarrow> world \<Rightarrow> ((errno + unit) \<times> world) kp" where
  "sfs_dir_unlink sv slot w = sfs_writedir sv slot (mk_direntry SFS_NOINO []) w"

end
