(* ===== verification/Sfsinode.thy ===== *)
theory Sfsinode
  imports Sfsdir
begin

text \<open>
  In-memory inodes of SFS: \<^verbatim>\<open>kern/fs/sfs/sfs_inode.c\<close>, the reference counts of \<^verbatim>\<open>kern/vfs/vnode.c\<close>, and \<^verbatim>\<open>sfs_lookonce\<close> of
  \<^verbatim>\<open>kern/fs/sfs/sfs_dir.c\<close>. A new inode gets an address that no inode has had before.
\<close>

definition sfs_sync_inode :: "nat \<Rightarrow> world \<Rightarrow> ((errno + unit) \<times> world) kp" where
  "sfs_sync_inode sv w = do {
     x \<leftarrow> w_vn w sv;
     if sv_dirty x then do {
       (result, w1) \<leftarrow> sfs_writeblock (sv_ino x) (dinode_bytes (sv_i x)) w;
       (case result of
          Inl e \<Rightarrow> Some (Inl e, w1)
        | Inr _ \<Rightarrow> Some (Inr (), put_vn sv (x\<lparr>sv_dirty := False\<rparr>) w1))
     }
     else Some (Inr (), w)
   }"

text \<open>The position of an inode in the table of the file system.\<close>

fun find_vnode :: "nat \<Rightarrow> nat array \<Rightarrow> nat list \<Rightarrow> nat option kp" where
  "find_vnode sv a [] = Some None"
| "find_vnode sv a (i # is) = do {
     sv2 \<leftarrow> array_get a (of_nat i);
     if sv2 = sv then Some (Some i) else find_vnode sv a is
   }"

definition vnode_cleanup :: "sfs_vnode \<Rightarrow> unit kp" where
  "vnode_cleanup x = kassert (vn_refcount x = 1)"

definition reclaim_forget :: "nat \<Rightarrow> world \<Rightarrow> world kp" where
  "reclaim_forget sv w = do {
     let vnodes = sfs_vnodes (w_sfs w);
     found \<leftarrow> find_vnode sv vnodes [0..<unat (array_num_of vnodes)];
     ix \<leftarrow> found;
     vnodes1 \<leftarrow> array_remove vnodes (of_nat ix);
     x \<leftarrow> w_vn w sv;
     vnode_cleanup x;
     w1 \<leftarrow> biglock_release (w\<lparr>w_sfs := (w_sfs w)\<lparr>sfs_vnodes := vnodes1\<rparr>\<rparr>);
     Some (w1\<lparr>w_vn := (w_vn w1)(sv := None)\<rparr>)
   }"

definition sfs_reclaim :: "nat \<Rightarrow> world \<Rightarrow> ((errno + unit) \<times> world) kp" where
  "sfs_reclaim sv w = do {
     w1 \<leftarrow> biglock_acquire w;
     x \<leftarrow> w_vn w1 sv;
     if vn_refcount x \<noteq> 1 then do {
       kassert (vn_refcount x > 1);
       w2 \<leftarrow> biglock_release (put_vn sv (x\<lparr>vn_refcount := vn_refcount x - 1\<rparr>) w1);
       Some (Inl EBUSY, w2)
     }
     else do {
       (result, w2) \<leftarrow> (if sfi_linkcount (sv_i x) = 0 then sfs_itrunc sv 0 w1 else Some (Inr (), w1));
       (case result of
          Inl e \<Rightarrow> do { w3 \<leftarrow> biglock_release w2; Some (Inl e, w3) }
        | Inr _ \<Rightarrow> do {
            (result, w3) \<leftarrow> sfs_sync_inode sv w2;
            (case result of
               Inl e \<Rightarrow> do { w4 \<leftarrow> biglock_release w3; Some (Inl e, w4) }
             | Inr _ \<Rightarrow> do {
                 x3 \<leftarrow> w_vn w3 sv;
                 w4 \<leftarrow> (if sfi_linkcount (sv_i x3) = 0 then sfs_bfree (sv_ino x3) w3 else Some w3);
                 w5 \<leftarrow> reclaim_forget sv w4;
                 Some (Inr (), w5)
               })
          })
     }
   }"

definition vnode_incref :: "nat \<Rightarrow> world \<Rightarrow> world kp" where
  "vnode_incref sv w = do { x \<leftarrow> w_vn w sv; Some (put_vn sv (x\<lparr>vn_refcount := vn_refcount x + 1\<rparr>) w) }"

text \<open>The result of \<^verbatim>\<open>VOP_RECLAIM\<close> is only printed.\<close>

definition vnode_decref :: "nat \<Rightarrow> world \<Rightarrow> world kp" where
  "vnode_decref sv w = do {
     x \<leftarrow> w_vn w sv;
     kassert (vn_refcount x > 0);
     if vn_refcount x > 1 then Some (put_vn sv (x\<lparr>vn_refcount := vn_refcount x - 1\<rparr>) w)
     else do { (result, w1) \<leftarrow> sfs_reclaim sv w; Some w1 }
   }"

subsection \<open>Loading\<close>

fun loaded_vnode :: "u32 \<Rightarrow> nat list \<Rightarrow> world \<Rightarrow> nat option kp" where
  "loaded_vnode ino [] w = Some None"
| "loaded_vnode ino (i # is) w = do {
     sv \<leftarrow> array_get (sfs_vnodes (w_sfs w)) (of_nat i);
     x \<leftarrow> w_vn w sv;
     used \<leftarrow> sfs_bused (sv_ino x) w;
     kassert used;
     if sv_ino x = ino then Some (Some sv) else loaded_vnode ino is w
   }"

definition vnode_init :: "vnode_ops \<Rightarrow> u32 \<Rightarrow> sfs_dinode \<Rightarrow> bool \<Rightarrow> sfs_vnode" where
  "vnode_init ops ino di dirty = \<lparr>vn_ops = ops, vn_refcount = 1, sv_i = di, sv_ino = ino, sv_dirty = dirty\<rparr>"

text \<open>The end of \<^verbatim>\<open>sfs_loadvnode\<close>: build the inode and enter it into the table. \<^verbatim>\<open>vnodearray_add\<close> may need memory.\<close>

definition load_enter :: "u32 \<Rightarrow> sfs_dinode \<Rightarrow> bool \<Rightarrow> world \<Rightarrow> ((errno + nat) \<times> world) kp" where
  "load_enter ino di dirty w = do {
     ops \<leftarrow> (if sfi_type di = SFS_TYPE_FILE then Some sfs_fileops
            else if sfi_type di = SFS_TYPE_DIR then Some sfs_dirops
            else None);
     let sv = w_next w;
     let (mem, w1) = kmalloc_outcome w;
     (result, vnodes) \<leftarrow>
       array_add (\<lambda>sz. if mem then Some (replicate (unat sz div 4) 0) else None) (sfs_vnodes (w_sfs w1)) sv;
     let w2 = w1\<lparr>w_sfs := (w_sfs w1)\<lparr>sfs_vnodes := vnodes\<rparr>\<rparr>;
     (case result of
        Inl e \<Rightarrow> Some (Inl e, w2)
      | Inr _ \<Rightarrow> Some (Inr sv, put_vn sv (vnode_init ops ino di dirty) (w2\<lparr>w_next := Suc sv\<rparr>)))
   }"

definition sfs_loadvnode :: "u32 \<Rightarrow> u16 \<Rightarrow> world \<Rightarrow> ((errno + nat) \<times> world) kp" where
  "sfs_loadvnode ino forcetype w = do {
     found \<leftarrow> loaded_vnode ino [0..<unat (array_num_of (sfs_vnodes (w_sfs w)))] w;
     (case found of
        Some sv \<Rightarrow> do {
          kassert (forcetype = SFS_TYPE_INVAL);
          w1 \<leftarrow> vnode_incref sv w;
          Some (Inr sv, w1)
        }
      | None \<Rightarrow> do {
          let (mem, w1) = kmalloc_outcome w;
          if \<not> mem then Some (Inl ENOMEM, w1)
          else do {
            used \<leftarrow> sfs_bused ino w1;
            kassert used;
            (result, w2) \<leftarrow> sfs_readblock ino w1;
            (case result of
               Inl e \<Rightarrow> Some (Inl e, w2)
             | Inr bs \<Rightarrow> do {
                 let di = bytes_dinode bs;
                 if forcetype \<noteq> SFS_TYPE_INVAL then do {
                   kassert (sfi_type di = SFS_TYPE_INVAL);
                   load_enter ino (di\<lparr>sfi_type := forcetype\<rparr>) True w2
                 }
                 else load_enter ino di False w2
               })
          }
        })
   }"

definition sfs_makeobj :: "u16 \<Rightarrow> world \<Rightarrow> ((errno + nat) \<times> world) kp" where
  "sfs_makeobj type w = do {
     (result, w1) \<leftarrow> sfs_balloc w;
     (case result of
        Inl e \<Rightarrow> Some (Inl e, w1)
      | Inr ino \<Rightarrow> do {
          (result, w2) \<leftarrow> sfs_loadvnode ino type w1;
          (case result of
             Inl e \<Rightarrow> do { w3 \<leftarrow> sfs_bfree ino w2; Some (Inl e, w3) }
           | Inr sv \<Rightarrow> Some (Inr sv, w2))
        })
   }"

definition sfs_getroot :: "world \<Rightarrow> ((errno + nat) \<times> world) kp" where
  "sfs_getroot w = do {
     w1 \<leftarrow> biglock_acquire w;
     (result, w2) \<leftarrow> sfs_loadvnode SFS_ROOTDIR_INO SFS_TYPE_INVAL w1;
     (case result of
        Inl e \<Rightarrow> do { w3 \<leftarrow> biglock_release w2; Some (Inl e, w3) }
      | Inr sv \<Rightarrow> do {
          x \<leftarrow> w_vn w2 sv;
          w3 \<leftarrow> biglock_release w2;
          if sfi_type (sv_i x) \<noteq> SFS_TYPE_DIR then Some (Inl EINVAL, w3)
          else Some (Inr sv, w3)
        })
   }"

definition sfs_lookonce :: "nat \<Rightarrow> u8 list \<Rightarrow> world \<Rightarrow> ((errno + nat \<times> int) \<times> world) kp" where
  "sfs_lookonce sv name w = do {
     (result, emptyslot, w1) \<leftarrow> sfs_dir_findname sv name w;
     (case result of
        Inl e \<Rightarrow> Some (Inl e, w1)
      | Inr (ino, slot) \<Rightarrow> do {
          (result, w2) \<leftarrow> sfs_loadvnode ino SFS_TYPE_INVAL w1;
          (case result of
             Inl e \<Rightarrow> Some (Inl e, w2)
           | Inr ret \<Rightarrow> do {
               x \<leftarrow> w_vn w2 ret;
               kassert (sfi_linkcount (sv_i x) \<noteq> 0);
               Some (Inr (ret, slot), w2)
             })
        })
   }"

end
