(* ===== verification/Sfsvnops.thy ===== *)
theory Sfsvnops
  imports Sfsinode
begin

unbundle bit_operations_syntax

text \<open>
  The vnode operations of SFS, \<^verbatim>\<open>kern/fs/sfs/sfs_vnops.c\<close>. Vnodes are named by the address of the inode that contains
  them. The operations tables become functions from the table of a vnode to the operation called.
\<close>

definition O_ACCMODE :: u32 where "O_ACCMODE = 3"
definition O_RDONLY :: u32 where "O_RDONLY = 0"
definition O_APPEND :: u32 where "O_APPEND = 32"
definition S_IFREG :: u32 where "S_IFREG = 0x1000"
definition S_IFDIR :: u32 where "S_IFDIR = 0x2000"

record stat =
  st_size :: int
  st_mode :: u32
  st_nlink :: u16
  st_blocks :: u32

text \<open>The checks before every call through an operations table.\<close>

definition vnode_check :: "nat \<Rightarrow> world \<Rightarrow> unit kp" where
  "vnode_check vn w = do { x \<leftarrow> w_vn w vn; kassert (vn_refcount x > 0) }"

subsection \<open>Operations on an open file\<close>

definition sfs_eachopen :: "u32 \<Rightarrow> errno + unit" where
  "sfs_eachopen openflags = Inr ()"

definition sfs_eachopendir :: "u32 \<Rightarrow> errno + unit" where
  "sfs_eachopendir openflags =
     (if openflags AND O_ACCMODE \<noteq> O_RDONLY then Inl EISDIR
      else if openflags AND O_APPEND \<noteq> 0 then Inl EISDIR
      else Inr ())"

definition sfs_read :: "(u32 \<Rightarrow> bool) \<Rightarrow> nat option \<Rightarrow> nat \<Rightarrow> uio \<Rightarrow> mem \<Rightarrow> world \<Rightarrow> ((errno + unit) \<times> uio \<times> mem \<times> world) kp" where
  "sfs_read fault curas vn u mem w = do {
     kassert (uio_rw u = UIO_READ);
     w1 \<leftarrow> biglock_acquire w;
     (result, u1, mem1, w2) \<leftarrow> sfs_io fault curas vn u mem w1;
     w3 \<leftarrow> biglock_release w2;
     Some (result, u1, mem1, w3)
   }"

definition sfs_write :: "(u32 \<Rightarrow> bool) \<Rightarrow> nat option \<Rightarrow> nat \<Rightarrow> uio \<Rightarrow> mem \<Rightarrow> world \<Rightarrow> ((errno + unit) \<times> uio \<times> mem \<times> world) kp" where
  "sfs_write fault curas vn u mem w = do {
     kassert (uio_rw u = UIO_WRITE);
     w1 \<leftarrow> biglock_acquire w;
     (result, u1, mem1, w2) \<leftarrow> sfs_io fault curas vn u mem w1;
     w3 \<leftarrow> biglock_release w2;
     Some (result, u1, mem1, w3)
   }"

definition sfs_ioctl :: "u32 \<Rightarrow> errno + unit" where
  "sfs_ioctl op = Inl EINVAL"

definition sfs_gettype :: "nat \<Rightarrow> world \<Rightarrow> ((errno + u32) \<times> world) kp" where
  "sfs_gettype vn w = do {
     w1 \<leftarrow> biglock_acquire w;
     x \<leftarrow> w_vn w1 vn;
     if sfi_type (sv_i x) = SFS_TYPE_FILE then do { w2 \<leftarrow> biglock_release w1; Some (Inr S_IFREG, w2) }
     else if sfi_type (sv_i x) = SFS_TYPE_DIR then do { w2 \<leftarrow> biglock_release w1; Some (Inr S_IFDIR, w2) }
     else None
   }"

definition sfs_stat :: "nat \<Rightarrow> world \<Rightarrow> ((errno + stat) \<times> world) kp" where
  "sfs_stat vn w = do {
     vnode_check vn w;
     (result, w1) \<leftarrow> sfs_gettype vn w;
     (case result of
        Inl e \<Rightarrow> Some (Inl e, w1)
      | Inr mode \<Rightarrow> do {
          x \<leftarrow> w_vn w1 vn;
          Some (Inr \<lparr>st_size = uint (sfi_size (sv_i x)), st_mode = mode, st_nlink = sfi_linkcount (sv_i x), st_blocks = 0\<rparr>, w1)
        })
   }"

definition sfs_isseekable :: "nat \<Rightarrow> bool" where
  "sfs_isseekable vn = True"

definition sfs_fsync :: "nat \<Rightarrow> world \<Rightarrow> ((errno + unit) \<times> world) kp" where
  "sfs_fsync vn w = do {
     w1 \<leftarrow> biglock_acquire w;
     (result, w2) \<leftarrow> sfs_sync_inode vn w1;
     w3 \<leftarrow> biglock_release w2;
     Some (result, w3)
   }"

definition sfs_mmap :: "nat \<Rightarrow> errno + unit" where
  "sfs_mmap vn = Inl ENOSYS"

definition sfs_truncate :: "nat \<Rightarrow> int \<Rightarrow> world \<Rightarrow> ((errno + unit) \<times> world) kp" where
  "sfs_truncate vn len w = sfs_itrunc vn len w"

definition sfs_namefile :: "nat \<Rightarrow> world \<Rightarrow> (errno + unit) kp" where
  "sfs_namefile vn w = do {
     x \<leftarrow> w_vn w vn;
     kassert (sv_ino x = SFS_ROOTDIR_INO);
     Some (Inr ())
   }"

subsection \<open>Operations on directories\<close>

text \<open>Leave with a result, giving up the big lock.\<close>

definition leave_with :: "'a \<Rightarrow> world \<Rightarrow> ('a \<times> world) kp" where
  "leave_with result w = do { w1 \<leftarrow> biglock_release w; Some (result, w1) }"

definition creat_new :: "nat \<Rightarrow> u8 list \<Rightarrow> world \<Rightarrow> ((errno + nat) \<times> world) kp" where
  "creat_new vn name w = do {
     (result, w1) \<leftarrow> sfs_makeobj SFS_TYPE_FILE w;
     (case result of
        Inl e \<Rightarrow> leave_with (Inl e) w1
      | Inr newguy \<Rightarrow> do {
          x \<leftarrow> w_vn w1 newguy;
          (result, w2) \<leftarrow> sfs_dir_link vn name (sv_ino x) w1;
          (case result of
             Inl e \<Rightarrow> do { w3 \<leftarrow> vnode_decref newguy w2; leave_with (Inl e) w3 }
           | Inr _ \<Rightarrow> do {
               w3 \<leftarrow> put_inode newguy (\<lambda>i. i\<lparr>sfi_linkcount := sfi_linkcount i + 1\<rparr>) w2;
               leave_with (Inr newguy) w3
             })
        })
   }"

definition sfs_creat :: "nat \<Rightarrow> u8 list \<Rightarrow> bool \<Rightarrow> world \<Rightarrow> ((errno + nat) \<times> world) kp" where
  "sfs_creat vn name excl w = do {
     w1 \<leftarrow> biglock_acquire w;
     (result, emptyslot, w2) \<leftarrow> sfs_dir_findname vn name w1;
     (case result of
        Inr (ino, slot) \<Rightarrow>
          if excl then leave_with (Inl EEXIST) w2
          else do {
            (result, w3) \<leftarrow> sfs_loadvnode ino SFS_TYPE_INVAL w2;
            leave_with result w3
          }
      | Inl e \<Rightarrow> if e \<noteq> ENOENT then leave_with (Inl e) w2 else creat_new vn name w2)
   }"

definition sfs_link :: "nat \<Rightarrow> u8 list \<Rightarrow> nat \<Rightarrow> world \<Rightarrow> ((errno + unit) \<times> world) kp" where
  "sfs_link dir name file w = do {
     w1 \<leftarrow> biglock_acquire w;
     f \<leftarrow> w_vn w1 file;
     if sfi_type (sv_i f) = SFS_TYPE_DIR then leave_with (Inl EINVAL) w1
     else do {
       (result, w2) \<leftarrow> sfs_dir_link dir name (sv_ino f) w1;
       (case result of
          Inl e \<Rightarrow> leave_with (Inl e) w2
        | Inr _ \<Rightarrow> do {
            w3 \<leftarrow> put_inode file (\<lambda>i. i\<lparr>sfi_linkcount := sfi_linkcount i + 1\<rparr>) w2;
            leave_with (Inr ()) w3
          })
     }
   }"

definition sfs_remove :: "nat \<Rightarrow> u8 list \<Rightarrow> world \<Rightarrow> ((errno + unit) \<times> world) kp" where
  "sfs_remove dir name w = do {
     w1 \<leftarrow> biglock_acquire w;
     (result, w2) \<leftarrow> sfs_lookonce dir name w1;
     (case result of
        Inl e \<Rightarrow> leave_with (Inl e) w2
      | Inr (victim, slot) \<Rightarrow> do {
          (result, w3) \<leftarrow> sfs_dir_unlink dir slot w2;
          w4 \<leftarrow> (case result of
                  Inl _ \<Rightarrow> Some w3
                | Inr _ \<Rightarrow> do {
                    x \<leftarrow> w_vn w3 victim;
                    kassert (sfi_linkcount (sv_i x) > 0);
                    put_inode victim (\<lambda>i. i\<lparr>sfi_linkcount := sfi_linkcount i - 1\<rparr>) w3
                  });
          w5 \<leftarrow> vnode_decref victim w4;
          leave_with result w5
        })
   }"

text \<open>The error path of \<^verbatim>\<open>sfs_rename\<close>, label \<^verbatim>\<open>puke_harder\<close>: the link count is decremented without marking the inode dirty.\<close>

definition rename_undo :: "nat \<Rightarrow> nat \<Rightarrow> int \<Rightarrow> world \<Rightarrow> world kp" where
  "rename_undo sv g1 slot2 w = do {
     (result2, w1) \<leftarrow> sfs_dir_unlink sv slot2 w;
     (case result2 of
        Inl _ \<Rightarrow> None
      | Inr _ \<Rightarrow> do {
          x \<leftarrow> w_vn w1 g1;
          Some (put_vn g1 (x\<lparr>sv_i := (sv_i x)\<lparr>sfi_linkcount := sfi_linkcount (sv_i x) - 1\<rparr>\<rparr>) w1)
        })
   }"

definition sfs_rename :: "nat \<Rightarrow> u8 list \<Rightarrow> nat \<Rightarrow> u8 list \<Rightarrow> world \<Rightarrow> ((errno + unit) \<times> world) kp" where
  "sfs_rename d1 n1 d2 n2 w = do {
     w1 \<leftarrow> biglock_acquire w;
     kassert (d1 = d2);
     x \<leftarrow> w_vn w1 d1;
     kassert (sv_ino x = SFS_ROOTDIR_INO);
     (result, w2) \<leftarrow> sfs_lookonce d1 n1 w1;
     (case result of
        Inl e \<Rightarrow> leave_with (Inl e) w2
      | Inr (g1, slot1) \<Rightarrow> do {
          y \<leftarrow> w_vn w2 g1;
          kassert (sfi_type (sv_i y) = SFS_TYPE_FILE);
          (result, w3) \<leftarrow> sfs_dir_link d1 n2 (sv_ino y) w2;
          (case result of
             Inl e \<Rightarrow> do { w4 \<leftarrow> vnode_decref g1 w3; leave_with (Inl e) w4 }
           | Inr slot2 \<Rightarrow> do {
               w4 \<leftarrow> put_inode g1 (\<lambda>i. i\<lparr>sfi_linkcount := sfi_linkcount i + 1\<rparr>) w3;
               (result, w5) \<leftarrow> sfs_dir_unlink d1 slot1 w4;
               (case result of
                  Inl e \<Rightarrow> do {
                    w6 \<leftarrow> rename_undo d1 g1 slot2 w5;
                    w7 \<leftarrow> vnode_decref g1 w6;
                    leave_with (Inl e) w7
                  }
                | Inr _ \<Rightarrow> do {
                    z \<leftarrow> w_vn w5 g1;
                    kassert (sfi_linkcount (sv_i z) > 0);
                    w6 \<leftarrow> put_inode g1 (\<lambda>i. i\<lparr>sfi_linkcount := sfi_linkcount i - 1\<rparr>) w5;
                    w7 \<leftarrow> vnode_decref g1 w6;
                    leave_with (Inr ()) w7
                  })
             })
        })
   }"

text \<open>\<open>buflen\<close> is the size of the caller's buffer for the last component, which is handed back.\<close>

definition sfs_lookparent :: "nat \<Rightarrow> u8 list \<Rightarrow> nat \<Rightarrow> world \<Rightarrow> ((errno + nat \<times> u8 list) \<times> world) kp" where
  "sfs_lookparent vn path buflen w = do {
     w1 \<leftarrow> biglock_acquire w;
     x \<leftarrow> w_vn w1 vn;
     if sfi_type (sv_i x) \<noteq> SFS_TYPE_DIR then leave_with (Inl ENOTDIR) w1
     else if length path + 1 > buflen then leave_with (Inl ENAMETOOLONG) w1
     else do {
       w2 \<leftarrow> vnode_incref vn w1;
       leave_with (Inr (vn, path)) w2
     }
   }"

definition sfs_lookup :: "nat \<Rightarrow> u8 list \<Rightarrow> world \<Rightarrow> ((errno + nat) \<times> world) kp" where
  "sfs_lookup vn path w = do {
     w1 \<leftarrow> biglock_acquire w;
     x \<leftarrow> w_vn w1 vn;
     if sfi_type (sv_i x) \<noteq> SFS_TYPE_DIR then leave_with (Inl ENOTDIR) w1
     else do {
       (result, w2) \<leftarrow> sfs_lookonce vn path w1;
       (case result of
          Inl e \<Rightarrow> leave_with (Inl e) w2
        | Inr (final, slot) \<Rightarrow> leave_with (Inr final) w2)
     }
   }"

subsection \<open>The operations tables\<close>

text \<open>Operations that only fail, \<^verbatim>\<open>kern/vfs/vfsfail.c\<close>.\<close>

definition vopfail_uio_notdir :: "uio \<Rightarrow> errno + unit" where "vopfail_uio_notdir u = Inl ENOTDIR"
definition vopfail_uio_isdir :: "uio \<Rightarrow> errno + unit" where "vopfail_uio_isdir u = Inl EISDIR"
definition vopfail_uio_inval :: "uio \<Rightarrow> errno + unit" where "vopfail_uio_inval u = Inl EINVAL"
definition vopfail_uio_nosys :: "uio \<Rightarrow> errno + unit" where "vopfail_uio_nosys u = Inl ENOSYS"
definition vopfail_mmap_isdir :: "errno + unit" where "vopfail_mmap_isdir = Inl EISDIR"
definition vopfail_truncate_isdir :: "int \<Rightarrow> errno + unit" where "vopfail_truncate_isdir pos = Inl EISDIR"
definition vopfail_creat_notdir :: "u8 list \<Rightarrow> bool \<Rightarrow> errno + nat" where "vopfail_creat_notdir name excl = Inl ENOTDIR"
definition vopfail_symlink_notdir :: "u8 list \<Rightarrow> u8 list \<Rightarrow> errno + unit" where "vopfail_symlink_notdir contents name = Inl ENOTDIR"
definition vopfail_symlink_nosys :: "u8 list \<Rightarrow> u8 list \<Rightarrow> errno + unit" where "vopfail_symlink_nosys contents name = Inl ENOSYS"
definition vopfail_mkdir_notdir :: "u8 list \<Rightarrow> errno + unit" where "vopfail_mkdir_notdir name = Inl ENOTDIR"
definition vopfail_mkdir_nosys :: "u8 list \<Rightarrow> errno + unit" where "vopfail_mkdir_nosys name = Inl ENOSYS"
definition vopfail_link_notdir :: "u8 list \<Rightarrow> errno + unit" where "vopfail_link_notdir name = Inl ENOTDIR"
definition vopfail_string_notdir :: "u8 list \<Rightarrow> errno + unit" where "vopfail_string_notdir name = Inl ENOTDIR"
definition vopfail_string_nosys :: "u8 list \<Rightarrow> errno + unit" where "vopfail_string_nosys name = Inl ENOSYS"
definition vopfail_rename_notdir :: "u8 list \<Rightarrow> u8 list \<Rightarrow> errno + unit" where "vopfail_rename_notdir n1 n2 = Inl ENOTDIR"
definition vopfail_lookup_notdir :: "u8 list \<Rightarrow> errno + nat" where "vopfail_lookup_notdir path = Inl ENOTDIR"
definition vopfail_lookparent_notdir :: "u8 list \<Rightarrow> errno + nat \<times> u8 list" where "vopfail_lookparent_notdir path = Inl ENOTDIR"

text \<open>A call through the table of a vnode: what a file does and what the directory does.\<close>

definition vop :: "nat \<Rightarrow> (world \<Rightarrow> 'a kp) \<Rightarrow> (world \<Rightarrow> 'a kp) \<Rightarrow> world \<Rightarrow> 'a kp" where
  "vop vn file dir w = do {
     vnode_check vn w;
     x \<leftarrow> w_vn w vn;
     (case vn_ops x of sfs_fileops \<Rightarrow> file w | sfs_dirops \<Rightarrow> dir w)
   }"

definition VOP_EACHOPEN :: "nat \<Rightarrow> u32 \<Rightarrow> world \<Rightarrow> (errno + unit) kp" where
  "VOP_EACHOPEN vn flags = vop vn (\<lambda>w. Some (sfs_eachopen flags)) (\<lambda>w. Some (sfs_eachopendir flags))"

definition VOP_READ :: "(u32 \<Rightarrow> bool) \<Rightarrow> nat option \<Rightarrow> nat \<Rightarrow> uio \<Rightarrow> mem \<Rightarrow> world \<Rightarrow> ((errno + unit) \<times> uio \<times> mem \<times> world) kp" where
  "VOP_READ fault curas vn u mem = vop vn (sfs_read fault curas vn u mem) (\<lambda>w. Some (vopfail_uio_isdir u, u, mem, w))"

definition VOP_READLINK :: "nat \<Rightarrow> uio \<Rightarrow> world \<Rightarrow> (errno + unit) kp" where
  "VOP_READLINK vn u = vop vn (\<lambda>w. Some (vopfail_uio_notdir u)) (\<lambda>w. Some (vopfail_uio_inval u))"

definition VOP_GETDIRENTRY :: "nat \<Rightarrow> uio \<Rightarrow> world \<Rightarrow> (errno + unit) kp" where
  "VOP_GETDIRENTRY vn u = vop vn (\<lambda>w. Some (vopfail_uio_notdir u)) (\<lambda>w. Some (vopfail_uio_nosys u))"

definition VOP_WRITE :: "(u32 \<Rightarrow> bool) \<Rightarrow> nat option \<Rightarrow> nat \<Rightarrow> uio \<Rightarrow> mem \<Rightarrow> world \<Rightarrow> ((errno + unit) \<times> uio \<times> mem \<times> world) kp" where
  "VOP_WRITE fault curas vn u mem = vop vn (sfs_write fault curas vn u mem) (\<lambda>w. Some (vopfail_uio_isdir u, u, mem, w))"

definition VOP_IOCTL :: "nat \<Rightarrow> u32 \<Rightarrow> world \<Rightarrow> (errno + unit) kp" where
  "VOP_IOCTL vn code = vop vn (\<lambda>w. Some (sfs_ioctl code)) (\<lambda>w. Some (sfs_ioctl code))"

definition VOP_STAT :: "nat \<Rightarrow> world \<Rightarrow> ((errno + stat) \<times> world) kp" where
  "VOP_STAT vn = vop vn (sfs_stat vn) (sfs_stat vn)"

definition VOP_GETTYPE :: "nat \<Rightarrow> world \<Rightarrow> ((errno + u32) \<times> world) kp" where
  "VOP_GETTYPE vn = vop vn (sfs_gettype vn) (sfs_gettype vn)"

definition VOP_ISSEEKABLE :: "nat \<Rightarrow> world \<Rightarrow> bool kp" where
  "VOP_ISSEEKABLE vn = vop vn (\<lambda>w. Some (sfs_isseekable vn)) (\<lambda>w. Some (sfs_isseekable vn))"

definition VOP_FSYNC :: "nat \<Rightarrow> world \<Rightarrow> ((errno + unit) \<times> world) kp" where
  "VOP_FSYNC vn = vop vn (sfs_fsync vn) (sfs_fsync vn)"

definition VOP_MMAP :: "nat \<Rightarrow> world \<Rightarrow> (errno + unit) kp" where
  "VOP_MMAP vn = vop vn (\<lambda>w. Some (sfs_mmap vn)) (\<lambda>w. Some vopfail_mmap_isdir)"

definition VOP_TRUNCATE :: "nat \<Rightarrow> int \<Rightarrow> world \<Rightarrow> ((errno + unit) \<times> world) kp" where
  "VOP_TRUNCATE vn pos = vop vn (sfs_truncate vn pos) (\<lambda>w. Some (vopfail_truncate_isdir pos, w))"

definition VOP_NAMEFILE :: "nat \<Rightarrow> uio \<Rightarrow> world \<Rightarrow> (errno + unit) kp" where
  "VOP_NAMEFILE vn u = vop vn (\<lambda>w. Some (vopfail_uio_notdir u)) (sfs_namefile vn)"

definition VOP_CREAT :: "nat \<Rightarrow> u8 list \<Rightarrow> bool \<Rightarrow> world \<Rightarrow> ((errno + nat) \<times> world) kp" where
  "VOP_CREAT vn name excl = vop vn (\<lambda>w. Some (vopfail_creat_notdir name excl, w)) (sfs_creat vn name excl)"

definition VOP_SYMLINK :: "nat \<Rightarrow> u8 list \<Rightarrow> u8 list \<Rightarrow> world \<Rightarrow> (errno + unit) kp" where
  "VOP_SYMLINK vn name contents = vop vn (\<lambda>w. Some (vopfail_symlink_notdir contents name)) (\<lambda>w. Some (vopfail_symlink_nosys contents name))"

definition VOP_MKDIR :: "nat \<Rightarrow> u8 list \<Rightarrow> world \<Rightarrow> (errno + unit) kp" where
  "VOP_MKDIR vn name = vop vn (\<lambda>w. Some (vopfail_mkdir_notdir name)) (\<lambda>w. Some (vopfail_mkdir_nosys name))"

definition VOP_LINK :: "nat \<Rightarrow> u8 list \<Rightarrow> nat \<Rightarrow> world \<Rightarrow> ((errno + unit) \<times> world) kp" where
  "VOP_LINK vn name file = vop vn (\<lambda>w. Some (vopfail_link_notdir name, w)) (sfs_link vn name file)"

definition VOP_REMOVE :: "nat \<Rightarrow> u8 list \<Rightarrow> world \<Rightarrow> ((errno + unit) \<times> world) kp" where
  "VOP_REMOVE vn name = vop vn (\<lambda>w. Some (vopfail_string_notdir name, w)) (sfs_remove vn name)"

definition VOP_RMDIR :: "nat \<Rightarrow> u8 list \<Rightarrow> world \<Rightarrow> (errno + unit) kp" where
  "VOP_RMDIR vn name = vop vn (\<lambda>w. Some (vopfail_string_notdir name)) (\<lambda>w. Some (vopfail_string_nosys name))"

definition VOP_RENAME :: "nat \<Rightarrow> u8 list \<Rightarrow> nat \<Rightarrow> u8 list \<Rightarrow> world \<Rightarrow> ((errno + unit) \<times> world) kp" where
  "VOP_RENAME vn1 n1 vn2 n2 = vop vn1 (\<lambda>w. Some (vopfail_rename_notdir n1 n2, w)) (sfs_rename vn1 n1 vn2 n2)"

definition VOP_LOOKUP :: "nat \<Rightarrow> u8 list \<Rightarrow> world \<Rightarrow> ((errno + nat) \<times> world) kp" where
  "VOP_LOOKUP vn path = vop vn (\<lambda>w. Some (vopfail_lookup_notdir path, w)) (sfs_lookup vn path)"

definition VOP_LOOKPARENT :: "nat \<Rightarrow> u8 list \<Rightarrow> nat \<Rightarrow> world \<Rightarrow> ((errno + nat \<times> u8 list) \<times> world) kp" where
  "VOP_LOOKPARENT vn path buflen = vop vn (\<lambda>w. Some (vopfail_lookparent_notdir path, w)) (sfs_lookparent vn path buflen)"

end
