(* ===== verification/Sfsmount.thy ===== *)
theory Sfsmount
  imports Sfsvnops
begin

text \<open>
  File system level operations of SFS, \<^verbatim>\<open>kern/fs/sfs/sfs_fsops.c\<close>: writing everything back, mounting and unmounting.
\<close>

subsection \<open>Writing back\<close>

text \<open>The loop over the blocks of the freemap, which are read into or written from the bytes of the bitmap.\<close>

fun freemapio_loop :: "uio_rw \<Rightarrow> nat list \<Rightarrow> world \<Rightarrow> ((errno + unit) \<times> world) kp" where
  "freemapio_loop rw [] w = Some (Inr (), w)"
| "freemapio_loop rw (j # js) w = do {
     fm \<leftarrow> sfs_freemap (w_sfs w);
     let freemapdata = bitmap_getdata fm;
     kassert (j * 512 + 512 \<le> length freemapdata);
     (result, w1) \<leftarrow>
       (if rw = UIO_READ then do {
          (result, w1) \<leftarrow> sfs_readblock (SFS_FREEMAP_START + of_nat j) w;
          (case result of
             Inl e \<Rightarrow> Some (Inl e, w1)
           | Inr bs \<Rightarrow>
               Some (Inr (), put_freemap (fm\<lparr>v := take (j * 512) freemapdata @ bs @ drop (j * 512 + 512) freemapdata\<rparr>) w1))
        }
        else sfs_writeblock (SFS_FREEMAP_START + of_nat j) (take 512 (drop (j * 512) freemapdata)) w);
     (case result of
        Inl e \<Rightarrow> Some (Inl e, w1)
      | Inr _ \<Rightarrow> freemapio_loop rw js w1)
   }"

definition sfs_freemapio :: "uio_rw \<Rightarrow> world \<Rightarrow> ((errno + unit) \<times> world) kp" where
  "sfs_freemapio rw w = freemapio_loop rw [0..<unat (SFS_FREEMAPBLOCKS (nblocks w))] w"

fun sync_vnodes_loop :: "nat list \<Rightarrow> world \<Rightarrow> world kp" where
  "sync_vnodes_loop [] w = Some w"
| "sync_vnodes_loop (i # is) w = do {
     vn \<leftarrow> array_get (sfs_vnodes (w_sfs w)) (of_nat i);
     (result, w1) \<leftarrow> VOP_FSYNC vn w;
     sync_vnodes_loop is w1
   }"

definition sfs_sync_vnodes :: "world \<Rightarrow> ((errno + unit) \<times> world) kp" where
  "sfs_sync_vnodes w = do {
     w1 \<leftarrow> sync_vnodes_loop [0..<unat (array_num_of (sfs_vnodes (w_sfs w)))] w;
     Some (Inr (), w1)
   }"

definition sfs_sync_freemap :: "world \<Rightarrow> ((errno + unit) \<times> world) kp" where
  "sfs_sync_freemap w =
     (if sfs_freemapdirty (w_sfs w) then do {
        (result, w1) \<leftarrow> sfs_freemapio UIO_WRITE w;
        (case result of
           Inl e \<Rightarrow> Some (Inl e, w1)
         | Inr _ \<Rightarrow> Some (Inr (), put_freemapdirty False w1))
      }
      else Some (Inr (), w))"

definition sfs_sync_superblock :: "world \<Rightarrow> ((errno + unit) \<times> world) kp" where
  "sfs_sync_superblock w =
     (if sfs_superdirty (w_sfs w) then do {
        (result, w1) \<leftarrow> sfs_writeblock SFS_SUPER_BLOCK (superblock_bytes (sfs_sb (w_sfs w))) w;
        (case result of
           Inl e \<Rightarrow> Some (Inl e, w1)
         | Inr _ \<Rightarrow> Some (Inr (), w1\<lparr>w_sfs := (w_sfs w1)\<lparr>sfs_superdirty := False\<rparr>\<rparr>))
      }
      else Some (Inr (), w))"

definition sfs_sync :: "world \<Rightarrow> ((errno + unit) \<times> world) kp" where
  "sfs_sync w = do {
     w1 \<leftarrow> biglock_acquire w;
     (result, w2) \<leftarrow> sfs_sync_vnodes w1;
     (case result of
        Inl e \<Rightarrow> leave_with (Inl e) w2
      | Inr _ \<Rightarrow> do {
          (result, w3) \<leftarrow> sfs_sync_freemap w2;
          (case result of
             Inl e \<Rightarrow> leave_with (Inl e) w3
           | Inr _ \<Rightarrow> do {
               (result, w4) \<leftarrow> sfs_sync_superblock w3;
               (case result of
                  Inl e \<Rightarrow> leave_with (Inl e) w4
                | Inr _ \<Rightarrow> leave_with (Inr ()) w4)
             })
        })
   }"

definition sfs_getvolname :: "world \<Rightarrow> (u8 list \<times> world) kp" where
  "sfs_getvolname w = do {
     w1 \<leftarrow> biglock_acquire w;
     let ret = sb_volname (sfs_sb (w_sfs w1));
     w2 \<leftarrow> biglock_release w1;
     Some (ret, w2)
   }"

subsection \<open>Mounting and unmounting\<close>

definition sfs_fs_destroy :: "world \<Rightarrow> unit kp" where
  "sfs_fs_destroy w = do {
     array_destroy (sfs_vnodes (w_sfs w));
     kassert (\<not> sfs_device (w_sfs w))
   }"

definition drop_device :: "world \<Rightarrow> world" where
  "drop_device w = w\<lparr>w_sfs := (w_sfs w)\<lparr>sfs_device := False\<rparr>\<rparr>"

definition sfs_unmount :: "world \<Rightarrow> ((errno + unit) \<times> world) kp" where
  "sfs_unmount w = do {
     w1 \<leftarrow> biglock_acquire w;
     if array_num_of (sfs_vnodes (w_sfs w1)) > 0 then leave_with (Inl EBUSY) w1
     else do {
       kassert (\<not> sfs_superdirty (w_sfs w1));
       kassert (\<not> sfs_freemapdirty (w_sfs w1));
       let w2 = drop_device w1;
       sfs_fs_destroy w2;
       leave_with (Inr ()) w2
     }
   }"

text \<open>\<open>sb\<close> is what the fresh memory holds where the superblock will be read in.\<close>

definition sfs_fs_create :: "sfs_superblock \<Rightarrow> world \<Rightarrow> sfs_fs option \<times> world" where
  "sfs_fs_create sb w = (
     let (mem, w1) = kmalloc_outcome w in
     if \<not> mem then (None, w1)
     else
       let (mem2, w2) = kmalloc_outcome w1 in
       case array_create mem2 of
         None \<Rightarrow> (None, w2)
       | Some vnodes \<Rightarrow>
           (Some \<lparr>sfs_sb = sb, sfs_superdirty = False, sfs_device = False, sfs_vnodes = vnodes, sfs_freemap = None,
              sfs_freemapdirty = False\<rparr>, w2))"

text \<open>Give up a mount: forget the device, destroy the structure and leave.\<close>

definition mount_fail :: "errno \<Rightarrow> world \<Rightarrow> ((errno + unit) \<times> world) kp" where
  "mount_fail e w = do {
     let w1 = drop_device w;
     sfs_fs_destroy w1;
     leave_with (Inl e) w1
   }"

definition mount_freemap :: "world \<Rightarrow> ((errno + unit) \<times> world) kp" where
  "mount_freemap w = do {
     let (mem1, w1) = kmalloc_outcome w;
     let (mem2, w2) = kmalloc_outcome w1;
     freemap \<leftarrow> bitmap_create mem1 mem2 (SFS_FREEMAPBITS (nblocks w2));
     (case freemap of
        None \<Rightarrow> mount_fail ENOMEM w2
      | Some fm \<Rightarrow> do {
          (result, w3) \<leftarrow> sfs_freemapio UIO_READ (put_freemap fm w2);
          (case result of
             Inl e \<Rightarrow> mount_fail e w3
           | Inr _ \<Rightarrow> leave_with (Inr ()) w3)
        })
   }"

definition sfs_domount :: "sfs_superblock \<Rightarrow> world \<Rightarrow> ((errno + unit) \<times> world) kp" where
  "sfs_domount sb0 w = do {
     w1 \<leftarrow> biglock_acquire w;
     if d_blocksize (w_dev w1) \<noteq> SFS_BLOCKSIZE then leave_with (Inl ENXIO) w1
     else
       (case sfs_fs_create sb0 w1 of
          (None, w2) \<Rightarrow> leave_with (Inl ENOMEM) w2
        | (Some sfs, w2) \<Rightarrow> do {
            let w3 = w2\<lparr>w_sfs := sfs\<lparr>sfs_device := True\<rparr>\<rparr>;
            (result, w4) \<leftarrow> sfs_readblock SFS_SUPER_BLOCK w3;
            (case result of
               Inl e \<Rightarrow> mount_fail e w4
             | Inr bs \<Rightarrow> do {
                 let sb = bytes_superblock bs;
                 let w5 = w4\<lparr>w_sfs := (w_sfs w4)\<lparr>sfs_sb := sb\<rparr>\<rparr>;
                 if sb_magic sb \<noteq> SFS_MAGIC then mount_fail EINVAL w5
                 else mount_freemap
                   (w5\<lparr>w_sfs := (w_sfs w5)\<lparr>sfs_sb := sb\<lparr>sb_volname := (sb_volname sb)[SFS_VOLNAME_SIZE - 1 := 0]\<rparr>\<rparr>\<rparr>)
               })
          })
   }"

end
