(* ===== verification/Spec2Isabelle.thy ===== *)
theory Spec2Isabelle
  imports Synch Numlib Sfsmount
begin

text \<open>
  A verification development of the OS/161 kernel: its thread system and synchronization primitives, the access
  to user memory, library routines, and the file system SFS from the disk driver up to mounting.
  All paths are relative to \<^verbatim>\<open>src/\<close>.

  \<^bold>\<open>The program and its parts.\<close> Threads (\<^verbatim>\<open>kern/thread/thread.c\<close>) live on run queues, wait channels and zombie
  lists, which are intrusive doubly linked lists (\<^verbatim>\<open>threadlist.c\<close>) protected by spinlocks (\<^verbatim>\<open>spinlock.c\<close>, \<^verbatim>\<open>spl.c\<close>).
  Semaphores and locks (\<^verbatim>\<open>synch.c\<close>) are counters over a wait channel and a spinlock. SFS (\<^verbatim>\<open>kern/fs/sfs\<close>) runs
  under one big lock (\<^verbatim>\<open>kern/vfs/vfslist.c\<close>), which is a lock of \<^verbatim>\<open>synch.c\<close>. It moves blocks through the disk driver
  (\<^verbatim>\<open>kern/dev/lamebus/lhd.c\<close>) with the transfer requests of \<^verbatim>\<open>kern/lib/uio.c\<close>, finds free blocks in a bitmap
  (\<^verbatim>\<open>kern/lib/bitmap.c\<close>), keeps its in-memory inodes in an array (\<^verbatim>\<open>kern/lib/array.c\<close>) and counts references in
  vnodes (\<^verbatim>\<open>kern/vfs/vnode.c\<close>).

  \<^bold>\<open>Conventions.\<close> A kernel operation returns an option: \<open>None\<close> is a failed assertion, a panic or the use of a bad
  pointer, so that a theorem which says that an operation returns \<open>Some\<close> also says that no assertion fires.
  Error codes are left values of a sum. Machine integers are words of their width; file offsets, which are 64-bit
  and signed, are integers. State is passed explicitly.

  \<^bold>\<open>The theories.\<close>
  \<^item> \<open>Prelude\<close>: words, error codes, the panic monad, generic lemmas.
  \<^item> \<open>Bitmap\<close> (\<^verbatim>\<open>kern/lib/bitmap.c\<close>): the operations on the bytes; allocation returns the lowest clear bit and marks only
    it. The locale \<open>allocator\<close> is what a client relies on, interpreted on the bitmap.
  \<^item> \<open>Threadlist\<close> (\<^verbatim>\<open>threadlist.c\<close>): the list operations on an explicit heap of nodes; every sequence of operations refines
    the same sequence on lists. The locale \<open>thread_queues\<close> is the interface for the thread system.
  \<^item> \<open>Kern\<close>, \<open>Spinlock\<close> (\<^verbatim>\<open>spl.c\<close>, \<^verbatim>\<open>spinlock.c\<close>): the state of all cpus; spinlocks as operations of one cpu and, for mutual
    exclusion, as interleaved single memory accesses with store-conditional.
  \<^item> \<open>Threads\<close> (\<^verbatim>\<open>thread.c\<close>, part of \<^verbatim>\<open>proc.c\<close>): creation, fork, exit, switching, wait channels, migration, interprocessor
    interrupts. \<open>Sched\<close>: the invariant of the thread system and its preservation by every operation. \<open>Runs\<close>: step
    relations over any interleaving of whole operations on any cpus; no assertion fires, a thread at position \<open>i\<close>
    of a run queue runs after \<open>i + 1\<close> yields, a failing fork changes nothing.
  \<^item> \<open>Synch\<close> (\<^verbatim>\<open>synch.c\<close>): semaphores, locks and condition variables. The locale \<open>blocking_counter\<close> holds the proofs that the count is
    conserved and that no wakeup is lost; it is interpreted for semaphores and for locks.
  \<^item> \<open>Copyio\<close> (\<^verbatim>\<open>kern/vm/copyinout.c\<close>, \<^verbatim>\<open>uio.c\<close>): copies stay inside user memory; \<^verbatim>\<open>uiomove\<close> transfers exactly the next bytes.
  \<^item> \<open>Karray\<close> (\<^verbatim>\<open>array.c\<close>): arrays are lists; where the growth loop ends. \<open>Numlib\<close> (\<^verbatim>\<open>bswap.c\<close>, \<^verbatim>\<open>time.c\<close>): byte order and times.
  \<^item> \<open>Lhd\<close> (\<^verbatim>\<open>lhd.c\<close>): the disk driver. The card is a parameter, a codatatype that answers commands; \<open>good_card\<close> is a card
    without faults, and \<open>disk_card\<close> a concrete one.
  \<^item> \<open>Biglock\<close> (\<^verbatim>\<open>vfslist.c\<close>): the recursive big lock as the running thread sees it.
  \<^item> \<open>Sfsdata\<close> (\<^verbatim>\<open>kern/include/kern/sfs.h\<close>): the structures on disk and their bytes, with round trips.
  \<^item> \<open>Sfsblock\<close> (\<^verbatim>\<open>sfs_io.c\<close> first part, \<^verbatim>\<open>sfs_balloc.c\<close>): the state \<open>world\<close> of a mounted volume, block transfers with retries, and
    allocation; a small concrete volume for the witnesses.
  \<^item> \<open>Sfsbmap\<close> (\<^verbatim>\<open>sfs_bmap.c\<close>): what an inode maps (\<open>fblk\<close>, \<open>fdata\<close>, \<open>owned\<close>), soundness of an inode (\<open>inode_ok\<close>), and what \<^verbatim>\<open>sfs_bmap\<close>
    and \<^verbatim>\<open>sfs_itrunc\<close> do to it and to the rest of the disk.
  \<^item> \<open>Sfsfile\<close> (\<^verbatim>\<open>sfs_io.c\<close> second part): transfers at arbitrary offsets and lengths over partial and whole blocks, as reads and
    writes of the bytes of a file.
  \<^item> \<open>Sfsdir\<close> (\<^verbatim>\<open>sfs_dir.c\<close>), \<open>Sfsinode\<close> (\<^verbatim>\<open>sfs_inode.c\<close>, \<^verbatim>\<open>vnode.c\<close>), \<open>Sfsvnops\<close> (\<^verbatim>\<open>sfs_vnops.c\<close>, \<^verbatim>\<open>vfsfail.c\<close>), \<open>Sfsmount\<close> (\<^verbatim>\<open>sfs_fsops.c\<close>):
    directories, in-memory inodes, the vnode operations and their tables, sync, mount and unmount.

  \<^bold>\<open>Bounds.\<close> Loops whose number of rounds the code fixes are recursions over the list of indices; \<^verbatim>\<open>sfs_rwblock\<close> retries at
  most ten times, as in the code. The growth loop of \<^verbatim>\<open>array.c\<close>, which may not end, is a partial function. An inode
  addresses 15 direct and 128 indirect blocks, 143 blocks or 73216 bytes. Whole-block transfers are shown right for
  volumes of at most \<open>2\<^sup>2\<^sup>3\<close> blocks, since the code computes the disk offset in 32 bits.

  \<^bold>\<open>Not modelled.\<close> The boot code, the interactive menu, printing, and every device but the disk (register input and
  output); traps, context switch assembly and the TLB (machine code; a switch is the identity on the model state);
  the virtual memory system, which in this kernel is a stub; the kernel heap, whose outcomes are parameters
  of the callers; path lookup and the device table of the VFS layer, which only dispatch to what is modelled; the
  semaphore and emulator file systems; the tests, the user library and the user programs. The disk of the theorems
  about SFS has no faults, except in the theorem on lost writes; \<^verbatim>\<open>sfs_mount\<close> only calls \<^verbatim>\<open>vfs_mount\<close>. Operations of the thread
  system interleave as wholes, since they run with interrupts off and under the spinlocks whose mutual exclusion is
  proved in \<open>Spinlock\<close>.
\<close>

end
